(* ===== verification/Prelude.thy ===== *)
theory Prelude
  imports Main "HOL-Library.Word"
begin

text \<open>
  Shared vocabulary of the development: the machine types of the Go sources, the error values the
  packages return, the state-and-error computations every stateful operation is written in, and the
  list and word facts that several components use.

  A Go function that reads or writes shared state is a computation of type \<open>('s, 'e, 'a) op\<close>: it takes
  the state and returns either an error (\<open>Inl\<close>) or a value (\<open>Inr\<close>), together with the state it leaves.
  The state is returned in the error case too, because an error return of the Go code does not undo
  the writes made before it.
\<close>

unbundle bit_operations_syntax

named_theorems op_defs \<open>definitions of the state-and-error combinators\<close>
named_theorems frame \<open>which parts of the state an operation leaves alone\<close>

section \<open>Machine types\<close>

type_synonym u64 = "64 word"
type_synonym byte = "8 word"
type_synonym bytes = "byte list"

text \<open>\<open>schema.VersionedHash\<close> is a Go array of exactly 32 bytes; the model keeps it as the 256-bit
  word those bytes spell in big-endian order, so that the width is part of the type.\<close>

type_synonym vhash = "256 word"

definition maxUint64 :: u64 where
  "maxUint64 = NOT 0"

definition maxInt64 :: u64 where
  "maxInt64 = 9223372036854775807"

lemma unat_maxUint64 [simp]: "unat maxUint64 = 18446744073709551615"
  by (simp add: maxUint64_def unsigned_minus_1_eq_mask mask_eq_exp_minus_1)

lemma unat_maxInt64 [simp]: "unat maxInt64 = 9223372036854775807"
  by (simp add: maxInt64_def)

lemma u64_less_eq_max [simp]: "x \<le> maxUint64"
  by (simp add: maxUint64_def)

lemma unat_u64_less: "unat (x :: u64) < 18446744073709551616"
  using unsigned_less [of x] by simp

lemma u64_eq_iff: "x = y \<longleftrightarrow> unat x = unat (y :: u64)"
  by (simp add: word_unat_eq_iff)

lemma unat_Suc_u64: "unat (x :: u64) < 18446744073709551615 \<Longrightarrow> unat (x + 1) = Suc (unat x)"
  by (simp add: unat_word_ariths)

lemma unat_less_Suc_u64: "x < y \<Longrightarrow> unat (x + 1) = Suc (unat (x :: u64))"
  using unat_u64_less [of y] by (intro unat_Suc_u64) (simp add: word_less_nat_alt)

lemma unat_add_u64: "unat a + unat b < 18446744073709551616 \<Longrightarrow> unat (a + b :: u64) = unat a + unat b"
  by (simp add: unat_word_ariths)

lemma unat_mult_u64: "unat a * unat b < 18446744073709551616 \<Longrightarrow> unat (a * b :: u64) = unat a * unat b"
  by (simp add: unat_word_ariths)

lemma unat_sub_u64: "b \<le> a \<Longrightarrow> unat (a - b :: u64) = unat a - unat b"
  by (simp add: unat_sub)

lemma unat_of_nat_u64: "n < 18446744073709551616 \<Longrightarrow> unat (of_nat n :: u64) = n"
  by (simp add: unat_of_nat)

lemma unat_push_bit_u64:
  assumes "unat a * 2 ^ n < 18446744073709551616"
  shows "unat (push_bit n (a :: u64)) = unat a * 2 ^ n"
proof -
  have "unat (push_bit n a) = take_bit 64 (push_bit n (unat a))"
    by (simp add: unsigned_push_bit_eq)
  also have "\<dots> = unat a * 2 ^ n"
    using assms by (simp add: push_bit_eq_mult take_bit_nat_eq_self)
  finally show ?thesis .
qed

lemma unat_drop_bit_u64: "unat (drop_bit n (a :: u64)) = unat a div 2 ^ n"
  using unat_drop_bit_eq [of n a] drop_bit_eq_div [of n "unat a"] by simp

lemma u64_less_iff_Suc_le:
  assumes "w \<noteq> maxUint64"
  shows "w < x \<longleftrightarrow> w + 1 \<le> (x :: u64)"
proof -
  have "w < maxUint64" using assms u64_less_eq_max [of w] by (simp add: less_le)
  from unat_less_Suc_u64 [OF this] show ?thesis by (simp add: word_less_nat_alt word_le_nat_alt Suc_le_eq)
qed

section \<open>Versioned hashes as byte strings\<close>

text \<open>The big-endian bytes of a word and back: what \<open>vh[:]\<close> and \<open>copy(vh[:], b)\<close> do.\<close>

fun beBytes :: "nat \<Rightarrow> vhash \<Rightarrow> bytes" where
  "beBytes 0 w = []"
| "beBytes (Suc n) w = beBytes n (drop_bit 8 w) @ [ucast w]"

definition ofBE :: "bytes \<Rightarrow> vhash" where
  "ofBE bs = foldl (\<lambda>a b. push_bit 8 a OR ucast b) 0 bs"

definition vhBytes :: "vhash \<Rightarrow> bytes" where
  "vhBytes w = beBytes 32 w"

lemma length_beBytes [simp]: "length (beBytes n w) = n"
  by (induction n w rule: beBytes.induct) auto

lemma length_vhBytes [simp]: "length (vhBytes w) = 32"
  by (simp add: vhBytes_def)

lemma ofBE_beBytes: "ofBE (beBytes n w) = take_bit (8 * n) w"
proof (induction n w rule: beBytes.induct)
  case (1 w)
  then show ?case by (simp add: ofBE_def)
next
  case (2 n w)
  have "ofBE (beBytes (Suc n) w) = push_bit 8 (take_bit (8 * n) (drop_bit 8 w)) OR ucast (ucast w :: byte)"
    using 2 by (simp add: ofBE_def)
  also have "\<dots> = take_bit (8 * Suc n) w"
    by (rule bit_word_eqI) (auto simp: bit_simps)
  finally show ?case .
qed

lemma ofBE_vhBytes [simp]: "ofBE (vhBytes w) = w"
  by (simp add: vhBytes_def ofBE_beBytes take_bit_word_eq_self)

section \<open>Results and computations\<close>

definition bindE :: "'e + 'a \<Rightarrow> ('a \<Rightarrow> 'e + 'b) \<Rightarrow> 'e + 'b" where
  "bindE m f = (case m of Inl e \<Rightarrow> Inl e | Inr a \<Rightarrow> f a)"

definition checkE :: "bool \<Rightarrow> 'e \<Rightarrow> 'e + unit" where
  "checkE b e = (if b then Inr () else Inl e)"

lemma bindE_simps [simp]:
  "bindE (Inl e) f = Inl e"
  "bindE (Inr a) f = f a"
  by (simp_all add: bindE_def)

lemma bindE_Inr_iff: "bindE m f = Inr b \<longleftrightarrow> (\<exists>a. m = Inr a \<and> f a = Inr b)"
  by (cases m) auto

lemma bindE_Inl_iff: "bindE m f = Inl e \<longleftrightarrow> m = Inl e \<or> (\<exists>a. m = Inr a \<and> f a = Inl e)"
  by (cases m) auto

lemma checkE_simps [simp]:
  "checkE b e = Inr u \<longleftrightarrow> b"
  "checkE b e = Inl e' \<longleftrightarrow> \<not> b \<and> e = e'"
  "checkE True e = Inr ()"
  "checkE False e = Inl e"
  by (auto simp: checkE_def)

lemma bindE_cong [fundef_cong]:
  "m = m' \<Longrightarrow> (\<And>a. m' = Inr a \<Longrightarrow> f a = f' a) \<Longrightarrow> bindE m f = bindE m' f'"
  by (cases m') auto

text \<open>Traversing a list with a fallible function, stopping at the first error; the index is that of
  the Go range loop.\<close>

fun mapE :: "(nat \<Rightarrow> 'a \<Rightarrow> 'e + 'b) \<Rightarrow> nat \<Rightarrow> 'a list \<Rightarrow> 'e + 'b list" where
  "mapE f i [] = Inr []"
| "mapE f i (x # xs) = bindE (f i x) (\<lambda>y. bindE (mapE f (Suc i) xs) (\<lambda>ys. Inr (y # ys)))"

lemma mapE_total: "(\<And>i x. x \<in> set xs \<Longrightarrow> f i x = Inr (g x)) \<Longrightarrow> mapE f i xs = Inr (map g xs)"
  by (induction xs arbitrary: i) auto

lemma mapE_Inr_length: "mapE f i xs = Inr ys \<Longrightarrow> length ys = length xs"
  by (induction xs arbitrary: i ys) (auto simp: bindE_Inr_iff)

subsection \<open>Computations on a state\<close>

type_synonym ('s, 'e, 'a) op = "'s \<Rightarrow> ('e + 'a) \<times> 's"

definition ret :: "'a \<Rightarrow> ('s, 'e, 'a) op" where
  [op_defs]: "ret a = (\<lambda>s. (Inr a, s))"

definition fail :: "'e \<Rightarrow> ('s, 'e, 'a) op" where
  [op_defs]: "fail e = (\<lambda>s. (Inl e, s))"

definition liftE :: "'e + 'a \<Rightarrow> ('s, 'e, 'a) op" where
  [op_defs]: "liftE r = (\<lambda>s. (r, s))"

definition gets :: "('s \<Rightarrow> 'a) \<Rightarrow> ('s, 'e, 'a) op" where
  [op_defs]: "gets f = (\<lambda>s. (Inr (f s), s))"

definition modify :: "('s \<Rightarrow> 's) \<Rightarrow> ('s, 'e, unit) op" where
  [op_defs]: "modify f = (\<lambda>s. (Inr (), f s))"

definition bind :: "('s, 'e, 'a) op \<Rightarrow> ('a \<Rightarrow> ('s, 'e, 'b) op) \<Rightarrow> ('s, 'e, 'b) op" where
  "bind m f = (\<lambda>s. case m s of (Inl e, t) \<Rightarrow> (Inl e, t) | (Inr a, t) \<Rightarrow> f a t)"

definition check :: "bool \<Rightarrow> 'e \<Rightarrow> ('s, 'e, unit) op" where
  "check b e = (if b then ret () else fail e)"

lemma bind_Inr_iff: "bind m f s = (Inr b, t) \<longleftrightarrow> (\<exists>a u. m s = (Inr a, u) \<and> f a u = (Inr b, t))"
  by (auto simp: bind_def split: prod.splits sum.splits)

lemma bind_Inl_iff:
  "bind m f s = (Inl e, t) \<longleftrightarrow> m s = (Inl e, t) \<or> (\<exists>a u. m s = (Inr a, u) \<and> f a u = (Inl e, t))"
  by (auto simp: bind_def split: prod.splits sum.splits)

lemma bind_apply_Inr [simp]: "m s = (Inr a, t) \<Longrightarrow> bind m f s = f a t"
  by (simp add: bind_def)

lemma bind_apply_Inl [simp]: "m s = (Inl e, t) \<Longrightarrow> bind m f s = (Inl e, t)"
  by (simp add: bind_def)

lemma op_apply [simp]:
  "ret a s = (Inr a, s)" "fail e s = (Inl e, s)" "liftE r s = (r, s)"
  "gets g s = (Inr (g s), s)" "modify h s = (Inr (), h s)"
  by (simp_all add: op_defs)

lemma check_apply [simp]: "check b e s = (if b then (Inr (), s) else (Inl e, s))"
  by (simp add: check_def)

lemma bind_ret [simp]: "bind (ret a) f = f a"
  by (simp add: bind_def fun_eq_iff)

lemma bind_fail [simp]: "bind (fail e) f = fail e"
  by (simp add: bind_def fun_eq_iff)

lemma bind_cong [fundef_cong]:
  "m s = m' s' \<Longrightarrow> (\<And>a t. m' s' = (Inr a, t) \<Longrightarrow> f a t = f' a t) \<Longrightarrow> bind m f s = bind m' f' s'"
  by (auto simp: bind_def split: prod.splits sum.splits)

text \<open>A relation between the states before and after, kept by a computation whether it succeeds or
  fails. For a preorder it is closed under sequencing, so the frame of a long operation follows from
  the frames of its steps.\<close>

definition keeps :: "('s \<Rightarrow> 's \<Rightarrow> bool) \<Rightarrow> ('s, 'e, 'a) op \<Rightarrow> bool" where
  "keeps R m \<longleftrightarrow> (\<forall>s. R s (snd (m s)))"

lemma keepsD: "keeps R m \<Longrightarrow> m s = (r, t) \<Longrightarrow> R s t"
  by (metis keeps_def snd_conv)

lemma keepsI: "(\<And>s r t. m s = (r, t) \<Longrightarrow> R s t) \<Longrightarrow> keeps R m"
  by (auto simp: keeps_def) (metis prod.collapse)

lemma keeps_pure:
  assumes "reflp R"
  shows "keeps R (ret a)" "keeps R (fail e)" "keeps R (liftE r)" "keeps R (gets g)" "keeps R (check b e)"
  using assms by (auto simp: keeps_def reflp_def)

lemma keeps_bind:
  assumes "transp R" and m: "keeps R m" and f: "\<And>a. keeps R (f a)"
  shows "keeps R (bind m f)"
proof (rule keepsI)
  fix s r t assume run: "bind m f s = (r, t)"
  obtain r1 u where m1: "m s = (r1, u)" by (cases "m s")
  have su: "R s u" using m m1 by (rule keepsD)
  show "R s t"
  proof (cases r1)
    case (Inl e)
    with run m1 su show ?thesis by simp
  next
    case (Inr a)
    with run m1 have "f a u = (r, t)" by simp
    with f have "R u t" by (rule keepsD)
    with su \<open>transp R\<close> show ?thesis by (meson transpE)
  qed
qed

text \<open>What a computation guarantees from one state: \<open>wp m E Q s\<close> says that \<open>m\<close>, started in \<open>s\<close>, either
  returns a value and a state satisfying \<open>Q\<close>, or fails with an error satisfying \<open>E\<close>. Every operation
  returns, so with an \<open>E\<close> that no error satisfies it says that the operation succeeds.\<close>

definition wp :: "('s, 'e, 'a) op \<Rightarrow> ('e \<Rightarrow> bool) \<Rightarrow> ('a \<Rightarrow> 's \<Rightarrow> bool) \<Rightarrow> 's \<Rightarrow> bool" where
  "wp m E Q s \<longleftrightarrow> (case m s of (Inl e, t) \<Rightarrow> E e | (Inr a, t) \<Rightarrow> Q a t)"

lemma wp_bind [simp]: "wp (bind m f) E Q s \<longleftrightarrow> wp m E (\<lambda>a t. wp (f a) E Q t) s"
  by (auto simp: wp_def bind_def split: prod.splits sum.splits)

lemma wp_simps [simp]:
  "wp (ret a) E Q s \<longleftrightarrow> Q a s"
  "wp (fail e) E Q s \<longleftrightarrow> E e"
  "wp (modify h) E P s \<longleftrightarrow> P () (h s)"
  "wp (check b e) E P s \<longleftrightarrow> (if b then P () s else E e)"
  by (simp_all add: wp_def)

lemma wp_gets [simp]: "wp (gets g) E Q s \<longleftrightarrow> Q (g s) s"
  by (simp add: wp_def)

lemma wp_liftE: "wp (liftE r) E Q s \<longleftrightarrow> (case r of Inl e \<Rightarrow> E e | Inr a \<Rightarrow> Q a s)"
  by (simp add: wp_def split: sum.splits)

lemma wp_liftE_Inr [simp]: "wp (liftE (Inr a)) E Q s \<longleftrightarrow> Q a s"
  by (simp add: wp_liftE)

lemma wp_if: "wp (if b then m else n) E Q s \<longleftrightarrow> (if b then wp m E Q s else wp n E Q s)"
  by simp

lemma wp_mono: "wp m E Q s \<Longrightarrow> (\<And>a t. Q a t \<Longrightarrow> Q' a t) \<Longrightarrow> (\<And>e. E e \<Longrightarrow> E' e) \<Longrightarrow> wp m E' Q' s"
  by (auto simp: wp_def split: prod.splits sum.splits)

lemma wp_conj_keeps: "wp m E Q s \<Longrightarrow> keeps R m \<Longrightarrow> wp m E (\<lambda>a t. Q a t \<and> R s t) s"
  by (auto simp: wp_def dest: keepsD split: prod.splits sum.splits)

lemma wpD: "wp m E Q s \<Longrightarrow> m s = (Inr a, t) \<Longrightarrow> Q a t"
  by (simp add: wp_def)

lemma wpD_err: "wp m E Q s \<Longrightarrow> m s = (Inl e, t) \<Longrightarrow> E e"
  by (simp add: wp_def)

lemma wp_total: "wp m (\<lambda>_. False) Q s \<longleftrightarrow> (\<exists>a t. m s = (Inr a, t) \<and> Q a t)"
  by (auto simp: wp_def split: prod.splits sum.splits)

text \<open>Running a computation and looking at its error before deciding what to do with it.\<close>

definition attempt :: "('s, 'e, 'a) op \<Rightarrow> ('s, 'e, 'e + 'a) op" where
  "attempt m s = (case m s of (r, t) \<Rightarrow> (Inr r, t))"

lemma wp_attempt: "wp m E Q s \<Longrightarrow> wp (attempt m) E (\<lambda>r t. case r of Inl e \<Rightarrow> E e | Inr a \<Rightarrow> Q a t) s"
  by (auto simp: wp_def attempt_def split: prod.splits sum.splits)

lemma keeps_attempt: "keeps R m \<Longrightarrow> keeps R (attempt m)"
  by (rule keepsI) (auto simp: attempt_def dest: keepsD split: prod.splits)

text \<open>A deferred state change: it runs after the body, whether the body fails or not.\<close>

definition deferred :: "('s \<Rightarrow> 's) \<Rightarrow> ('s, 'e, 'a) op \<Rightarrow> ('s, 'e, 'a) op" where
  "deferred f m s = (case m s of (r, t) \<Rightarrow> (r, f t))"

lemma wp_deferred: "wp (deferred f m) E Q s \<longleftrightarrow> wp m E (\<lambda>a t. Q a (f t)) s"
  by (auto simp: wp_def deferred_def split: prod.splits sum.splits)

lemma wp_Pair [simp]: "wp (Pair (Inr a)) E Q s \<longleftrightarrow> Q a s" "wp (Pair (Inl e)) E P s \<longleftrightarrow> E e"
  by (simp_all add: wp_def)

lemma wp_bind_fun:
  "wp (bind m f) E Q = wp m E (\<lambda>a. wp (f a) E Q)"
  "wp (modify h) E P = (\<lambda>s. P () (h s))"
  "wp (ret a) E Q = Q a"
  by (simp_all add: fun_eq_iff)

lemma wp_gets_fun: "wp (gets g) E Q = (\<lambda>s. Q (g s) s)"
  by (simp add: fun_eq_iff)

text \<open>A relation kept by a computation when it fails, and computations that cannot fail.\<close>

definition failKeeps :: "('s \<Rightarrow> 's \<Rightarrow> bool) \<Rightarrow> ('s, 'e, 'a) op \<Rightarrow> bool" where
  "failKeeps R m \<longleftrightarrow> (\<forall>s e t. m s = (Inl e, t) \<longrightarrow> R s t)"

definition neverFails :: "('s, 'e, 'a) op \<Rightarrow> bool" where
  "neverFails m \<longleftrightarrow> (\<forall>s. \<exists>a t. m s = (Inr a, t))"

lemma failKeeps_keeps: "keeps R m \<Longrightarrow> failKeeps R m"
  by (auto simp: failKeeps_def dest: keepsD)

lemma failKeeps_bind: "transp R \<Longrightarrow> keeps R m \<Longrightarrow> (\<And>a. failKeeps R (f a)) \<Longrightarrow> failKeeps R (bind m f)"
  unfolding failKeeps_def bind_Inl_iff by (metis keepsD transpD)

lemma failKeeps_then: "failKeeps R m \<Longrightarrow> (\<And>a. neverFails (f a)) \<Longrightarrow> failKeeps R (bind m f)"
  unfolding failKeeps_def neverFails_def bind_Inl_iff by (metis Inl_Inr_False Pair_inject)

lemma failKeeps_if: "failKeeps R m \<Longrightarrow> failKeeps R n \<Longrightarrow> failKeeps R (if b then m else n)"
  by simp

lemma neverFails_intros:
  "neverFails (ret a)" "neverFails (gets g)" "neverFails (modify h)"
  "neverFails m \<Longrightarrow> (\<And>a. neverFails (f a)) \<Longrightarrow> neverFails (bind m f)"
  by (auto simp: neverFails_def) (metis bind_apply_Inr)

end
