(* ===== verification/Ipld.thy ===== *)
theory Ipld
  imports Prelude "HOL-Library.Product_Lexorder" "HOL-Library.List_Lexorder"
begin

text \<open>
  The vocabulary the sources import from their IPFS libraries: content identifiers (\<open>go-cid\<close>), values of
  the IPLD data model (\<open>go-ipld-prime/datamodel\<close>), and the two library routines everything else rests
  on, the DAG-CBOR codec and the multihash sum. The routines are not part of the repository, so they
  are the fields of a record \<open>lib\<close> that every definition using them takes as its argument; block bytes
  and digests are the type variables \<open>'b\<close> and \<open>'d\<close>. What the sources rely on is \<open>lib_ok\<close>.
\<close>

section \<open>Content identifiers\<close>

datatype 'd cid =
  Cid (cidVersion: nat) (cidCodec: nat) (cidMhType: nat) (cidMhLen: nat) (cidDigest: 'd)

text \<open>A \<open>cid.Cid\<close> variable may hold \<open>cid.Undef\<close>; \<open>c.Defined()\<close> is \<open>c \<noteq> None\<close>.\<close>

type_synonym 'd link = "'d cid option"

abbreviation (input) codecRaw :: nat where "codecRaw \<equiv> 85"
abbreviation (input) codecDagCBOR :: nat where "codecDagCBOR \<equiv> 113"
abbreviation (input) SHA2_256 :: nat where "SHA2_256 \<equiv> 18"

record prefix =
  pVersion :: nat
  pCodec :: nat
  pMhType :: nat
  pMhLength :: int

definition cidPrefix :: "'d cid \<Rightarrow> prefix" where
  "cidPrefix c = \<lparr>pVersion = cidVersion c, pCodec = cidCodec c, pMhType = cidMhType c,
                   pMhLength = int (cidMhLen c)\<rparr>"

text \<open>The multihash of a CID, \<open>c.Hash()\<close>: the physical key of a block.\<close>

type_synonym 'd mhash = "nat \<times> nat \<times> 'd"

definition cidHash :: "'d cid \<Rightarrow> 'd mhash" where
  "cidHash c = (cidMhType c, cidMhLen c, cidDigest c)"

section \<open>Values of the data model\<close>

datatype 'd node =
    NNull
  | NBool bool
  | NInt int
  | NFloat u64
  | NString string
  | NBytes bytes
  | NLink "'d cid option"
  | NList "'d node list"
  | NMap "(string \<times> 'd node) list"

text \<open>The order in which the encoder writes the entries of a map (\<open>MapSortMode_RFC7049\<close>): shorter keys
  first, keys of one length byte by byte.\<close>

definition rfc7049_key :: "string \<times> 'd node \<Rightarrow> nat \<times> nat list" where
  "rfc7049_key kv = (length (fst kv), map of_char (fst kv))"

primrec canonNode :: "'d node \<Rightarrow> 'd node" where
  "canonNode NNull = NNull"
| "canonNode (NBool b) = NBool b"
| "canonNode (NInt i) = NInt i"
| "canonNode (NFloat f) = NFloat f"
| "canonNode (NString s) = NString s"
| "canonNode (NBytes b) = NBytes b"
| "canonNode (NLink l) = NLink l"
| "canonNode (NList xs) = NList (map canonNode xs)"
| "canonNode (NMap kvs) = NMap (sort_key rfc7049_key (map (map_prod id canonNode) kvs))"

text \<open>The values the encoder accepts and the decoder returns unchanged: integers of the data model's
  \<open>int64\<close> range, defined links, and maps without a repeated key.\<close>

primrec wfNode :: "'d node \<Rightarrow> bool" where
  "wfNode NNull \<longleftrightarrow> True"
| "wfNode (NBool b) \<longleftrightarrow> True"
| "wfNode (NInt i) \<longleftrightarrow> - (2 ^ 63) \<le> i \<and> i < 2 ^ 63"
| "wfNode (NFloat f) \<longleftrightarrow> False"
| "wfNode (NString s) \<longleftrightarrow> True"
| "wfNode (NBytes b) \<longleftrightarrow> True"
| "wfNode (NLink l) \<longleftrightarrow> l \<noteq> None"
| "wfNode (NList xs) \<longleftrightarrow> list_all id (map wfNode xs)"
| "wfNode (NMap kvs) \<longleftrightarrow> distinct (map fst kvs) \<and> list_all snd (map (map_prod id wfNode) kvs)"

section \<open>The library routines\<close>

record ('b, 'd) lib =
  cborEncode :: "'d node \<Rightarrow> 'b option"
  cborDecode :: "'b \<Rightarrow> 'd node option"
  mhSum :: "nat \<Rightarrow> int \<Rightarrow> 'b \<Rightarrow> (nat \<times> 'd) option"
  blen :: "'b \<Rightarrow> nat"

text \<open>\<open>prefix.Sum(data)\<close>: the CID of some bytes under a prefix; a length of \<open>-1\<close> asks for the hash
  function's own length.\<close>

definition prefixSum :: "('b, 'd) lib \<Rightarrow> prefix \<Rightarrow> 'b \<Rightarrow> 'd link" where
  "prefixSum L p data = (case mhSum L (pMhType p) (pMhLength p) data of
     None \<Rightarrow> None
   | Some (n, d) \<Rightarrow> Some (Cid (pVersion p) (pCodec p) (pMhType p) n d))"

text \<open>What the sources rely on. Encoding a well-formed value succeeds and decoding gives the value back
  with its map entries in canonical order; a block is exactly one value. SHA2-256 digests are 32 bytes
  long, whether the length is asked for or defaulted, and distinct blocks have distinct digests.\<close>

definition lib_ok :: "('b, 'd) lib \<Rightarrow> bool" where
  "lib_ok L \<longleftrightarrow>
     (\<forall>n. wfNode n \<longrightarrow> (\<exists>b. cborEncode L n = Some b \<and> cborDecode L b = Some (canonNode n))) \<and>
     (\<forall>b. \<exists>d. mhSum L SHA2_256 (- 1) b = Some (32, d) \<and> mhSum L SHA2_256 32 b = Some (32, d)) \<and>
     (\<forall>b b'. mhSum L SHA2_256 (- 1) b = mhSum L SHA2_256 (- 1) b' \<longrightarrow> b = b')"

lemma lib_ok_cbor:
  "lib_ok L \<Longrightarrow> wfNode n \<Longrightarrow> \<exists>b. cborEncode L n = Some b \<and> cborDecode L b = Some (canonNode n)"
  by (simp add: lib_ok_def)

lemma lib_ok_encode_decode:
  "lib_ok L \<Longrightarrow> wfNode n \<Longrightarrow> cborEncode L n = Some b \<Longrightarrow> cborDecode L b = Some (canonNode n)"
  using lib_ok_cbor by fastforce

lemma map_of_canon:
  assumes "distinct (map fst kvs)"
  shows "map_of (sort_key f (map (map_prod id g) kvs)) = map_of (map (map_prod id g) kvs)"
proof (rule map_of_eqI)
  let ?ys = "map (map_prod id g) kvs"
  show "set (map fst (sort_key f ?ys)) = set (map fst ?ys)" by (simp only: set_map set_sort)
  have dist: "distinct (map fst ?ys)" using assms by (simp add: comp_def)
  then have dist': "distinct (map fst (sort_key f ?ys))" by (simp only: distinct_map distinct_sort set_sort)
  show "\<forall>k\<in>set (map fst (sort_key f ?ys)). map_of (sort_key f ?ys) k = map_of ?ys k"
    using dist dist' by (metis map_of_eq_Some_iff map_of_eq_None_iff not_None_eq set_sort)
qed

end
