(* ===== verification/Schema.thy ===== *)
theory Schema
  imports Ipld "HOL-Library.Char_ord"
begin

text \<open>
  The objects of the archive's DAG, package \<open>schema\<close>: the types of \<open>schema.go\<close> with their \<open>Validate\<close>
  methods, the CIDs of \<open>cid.go\<close>, the encoders of \<open>encode.go\<close> and the decoders of \<open>decode.go\<close>. An encoder
  builds a value of the data model and hands it to the DAG-CBOR codec; a decoder takes the value the
  codec returns apart again, with every check of the source in its order.
\<close>

section \<open>Objects\<close>

abbreviation (input) BlobSize :: nat where "BlobSize \<equiv> 131072"
abbreviation (input) VersionedHashSize :: nat where "VersionedHashSize \<equiv> 32"
abbreviation (input) MaxBlobsPerSlotCeiling :: nat where "MaxBlobsPerSlotCeiling \<equiv> 128"
abbreviation (input) SchemaVersion :: int where "SchemaVersion \<equiv> 1"

record 'd Head =
  hName :: string
  hNet :: string
  hOriginSlot :: u64
  hSyncedTo :: "u64 option"
  hSegBits :: u64
  hFanoutBits :: u64
  hDirDepth :: u64
  hDir :: "'d link"
  hOpen :: "'d link"

datatype 'd RefEntry = RefEntry (eVH: vhash) (eBlob: "'d link")

datatype 'd Row = Row (rSlot: u64) (rEntries: "'d RefEntry list")

record 'd Segment =
  sSlot0 :: u64
  sRows :: "'d Row list"

record 'd DirNode =
  dKids :: "'d link list"

text \<open>The errors of the package, one constructor per way a function returns one; the arguments are
  the positions and names the Go messages carry.\<close>

datatype serr =
    BadHeadName string
  | DirDepthMismatch string
  | SyncedBeforeOrigin string
  | RowsNotAscending nat
  | RowBeforeSlot0 nat
  | RowNoEntries nat
  | RowOverCeiling nat nat
  | UndefinedBlobLink nat nat
  | CborIntRange string string
  | CborEncodeFailed
  | CborDecodeFailed
  | HashFailed
  | BlobSizeWrong nat
  | NotAMap string
  | UnknownField string string
  | MissingField string string
  | UnknownVersion string int
  | NotAnInt string string
  | NegativeInt string string
  | NotAString string string
  | NotALink string string
  | UndefinedLink string string
  | NotAList string string
  | NotBytes string string
  | BadArity string nat
  | BadVHSize nat nat nat
  | EmptySources string
  | BadSource nat string
  | ExplicitNull nat string

definition headNameChar :: "char \<Rightarrow> bool" where
  "headNameChar c \<longleftrightarrow> (CHR ''a'' \<le> c \<and> c \<le> CHR ''z'') \<or> (CHR ''0'' \<le> c \<and> c \<le> CHR ''9'')"

definition headNameRE :: "string \<Rightarrow> bool" where
  "headNameRE s = (case s of [] \<Rightarrow> False
     | c # cs \<Rightarrow> headNameChar c \<and> list_all (\<lambda>x. headNameChar x \<or> x = CHR ''-'') cs)"

definition ValidateHeadName :: "string \<Rightarrow> serr + unit" where
  "ValidateHeadName name = (if \<not> headNameRE name then Inl (BadHeadName name) else Inr ())"

definition HeadValidate :: "'d Head \<Rightarrow> serr + unit" where
  "HeadValidate h = bindE (ValidateHeadName (hName h)) (\<lambda>_.
     if (hDirDepth h = 0) = (hDir h \<noteq> None) then Inl (DirDepthMismatch (hName h))
     else if (case hSyncedTo h of None \<Rightarrow> False | Some s \<Rightarrow> s < hOriginSlot h)
     then Inl (SyncedBeforeOrigin (hName h))
     else Inr ())"

fun validateEntries :: "nat \<Rightarrow> nat \<Rightarrow> 'd RefEntry list \<Rightarrow> serr + unit" where
  "validateEntries i j [] = Inr ()"
| "validateEntries i j (e # es) =
     (if eBlob e = None then Inl (UndefinedBlobLink i j) else validateEntries i (Suc j) es)"

fun validateRows :: "u64 \<Rightarrow> nat \<Rightarrow> u64 option \<Rightarrow> 'd Row list \<Rightarrow> serr + unit" where
  "validateRows slot0 i prev [] = Inr ()"
| "validateRows slot0 i prev (r # rs) =
     (if (case prev of None \<Rightarrow> False | Some p \<Rightarrow> rSlot r \<le> p) then Inl (RowsNotAscending i)
      else if rSlot r < slot0 then Inl (RowBeforeSlot0 i)
      else if rEntries r = [] then Inl (RowNoEntries i)
      else if MaxBlobsPerSlotCeiling < length (rEntries r)
      then Inl (RowOverCeiling i (length (rEntries r)))
      else bindE (validateEntries i 0 (rEntries r))
             (\<lambda>_. validateRows slot0 (Suc i) (Some (rSlot r)) rs))"

definition SegmentValidate :: "'d Segment \<Rightarrow> serr + unit" where
  "SegmentValidate s = validateRows (sSlot0 s) 0 None (sRows s)"

definition DirNodeValidate :: "'d DirNode \<Rightarrow> serr + unit" where
  "DirNodeValidate d = Inr ()"

section \<open>CIDs\<close>

definition blobPrefix :: prefix where
  "blobPrefix = \<lparr>pVersion = 1, pCodec = codecRaw, pMhType = SHA2_256, pMhLength = - 1\<rparr>"

definition nodePrefix :: prefix where
  "nodePrefix = \<lparr>pVersion = 1, pCodec = codecDagCBOR, pMhType = SHA2_256, pMhLength = - 1\<rparr>"

definition BlobCID :: "('b, 'd) lib \<Rightarrow> 'b \<Rightarrow> serr + 'd cid" where
  "BlobCID L data = (if blen L data \<noteq> BlobSize then Inl (BlobSizeWrong (blen L data))
     else case prefixSum L blobPrefix data of None \<Rightarrow> Inl HashFailed | Some c \<Rightarrow> Inr c)"

definition NodeCID :: "('b, 'd) lib \<Rightarrow> 'b \<Rightarrow> serr + 'd cid" where
  "NodeCID L block = (case prefixSum L nodePrefix block of None \<Rightarrow> Inl HashFailed | Some c \<Rightarrow> Inr c)"

section \<open>Encoding\<close>

definition checkCBORInt :: "string \<Rightarrow> string \<Rightarrow> u64 \<Rightarrow> serr + unit" where
  "checkCBORInt obj field v = (if maxInt64 < v then Inl (CborIntRange obj field) else Inr ())"

text \<open>\<open>int64(v)\<close> of a \<open>uint64\<close>, and the nullable forms.\<close>

definition qpInt :: "u64 \<Rightarrow> 'd node" where
  "qpInt v = NInt (sint v)"

definition nullableInt :: "u64 option \<Rightarrow> 'd node" where
  "nullableInt v = (case v of None \<Rightarrow> NNull | Some x \<Rightarrow> qpInt x)"

definition nullableLink :: "'d link \<Rightarrow> 'd node" where
  "nullableLink c = (if c = None then NNull else NLink c)"

definition trimTrailingNulls :: "'d link list \<Rightarrow> 'd link list" where
  "trimTrailingNulls kids = rev (dropWhile (\<lambda>k. k = None) (rev kids))"

definition encodeNode :: "('b, 'd) lib \<Rightarrow> 'd node \<Rightarrow> serr + 'b \<times> 'd cid" where
  "encodeNode L n = (case cborEncode L n of
     None \<Rightarrow> Inl CborEncodeFailed
   | Some block \<Rightarrow> bindE (NodeCID L block) (\<lambda>c. Inr (block, c)))"

fun checkCBORInts :: "string \<Rightarrow> (string \<times> u64) list \<Rightarrow> serr + unit" where
  "checkCBORInts obj [] = Inr ()"
| "checkCBORInts obj (f # fs) = bindE (checkCBORInt obj (fst f) (snd f)) (\<lambda>_. checkCBORInts obj fs)"

definition headNode :: "'d Head \<Rightarrow> 'd node" where
  "headNode h = NMap
     [(''v'', NInt SchemaVersion),
      (''name'', NString (hName h)),
      (''net'', NString (hNet h)),
      (''origin_slot'', qpInt (hOriginSlot h)),
      (''synced_to'', nullableInt (hSyncedTo h)),
      (''seg_bits'', qpInt (hSegBits h)),
      (''fanout_bits'', qpInt (hFanoutBits h)),
      (''dir_depth'', qpInt (hDirDepth h)),
      (''dir'', nullableLink (hDir h)),
      (''open'', nullableLink (hOpen h))]"

definition EncodeHead :: "('b, 'd) lib \<Rightarrow> 'd Head \<Rightarrow> serr + 'b \<times> 'd cid" where
  "EncodeHead L h =
     bindE (HeadValidate h) (\<lambda>_.
     bindE (checkCBORInts ''head''
       ([(''origin_slot'', hOriginSlot h), (''seg_bits'', hSegBits h),
         (''fanout_bits'', hFanoutBits h), (''dir_depth'', hDirDepth h)] @
        (case hSyncedTo h of None \<Rightarrow> [] | Some s \<Rightarrow> [(''synced_to'', s)]))) (\<lambda>_.
     encodeNode L (headNode h)))"

definition refEntryNode :: "'d RefEntry \<Rightarrow> 'd node" where
  "refEntryNode e = NList [NBytes (vhBytes (eVH e)), NLink (eBlob e)]"

definition rowNode :: "'d Row \<Rightarrow> 'd node" where
  "rowNode r = NList [qpInt (rSlot r), NList (map refEntryNode (rEntries r))]"

definition segmentNode :: "'d Segment \<Rightarrow> 'd node" where
  "segmentNode s = NMap
     [(''v'', NInt SchemaVersion),
      (''slot0'', qpInt (sSlot0 s)),
      (''rows'', NList (map rowNode (sRows s)))]"

definition EncodeSegment :: "('b, 'd) lib \<Rightarrow> 'd Segment \<Rightarrow> serr + 'b \<times> 'd cid" where
  "EncodeSegment L s =
     bindE (SegmentValidate s) (\<lambda>_.
     bindE (checkCBORInt ''segment'' ''slot0'' (sSlot0 s)) (\<lambda>_.
     bindE (checkCBORInts ''segment'' (map (\<lambda>r. (''rows slot'', rSlot r)) (sRows s))) (\<lambda>_.
     encodeNode L (segmentNode s))))"

definition dirNodeNode :: "'d link list \<Rightarrow> 'd node" where
  "dirNodeNode kids = NMap
     [(''v'', NInt SchemaVersion),
      (''kids'', NList (map nullableLink kids))]"

definition EncodeDirNode :: "('b, 'd) lib \<Rightarrow> 'd DirNode \<Rightarrow> serr + 'b \<times> 'd cid" where
  "EncodeDirNode L d =
     bindE (DirNodeValidate d) (\<lambda>_.
     encodeNode L (dirNodeNode (trimTrailingNulls (dKids d))))"

section \<open>Decoding\<close>

text \<open>The accessors of the data model that the decoders call: a value of another kind is an error.\<close>

definition asInt :: "serr \<Rightarrow> 'd node \<Rightarrow> serr + int" where
  "asInt e n = (case n of NInt i \<Rightarrow> if - (2 ^ 63) \<le> i \<and> i < 2 ^ 63 then Inr i else Inl e | _ \<Rightarrow> Inl e)"

definition asString :: "serr \<Rightarrow> 'd node \<Rightarrow> serr + string" where
  "asString e n = (case n of NString s \<Rightarrow> Inr s | _ \<Rightarrow> Inl e)"

definition asBytes :: "serr \<Rightarrow> 'd node \<Rightarrow> serr + bytes" where
  "asBytes e n = (case n of NBytes b \<Rightarrow> Inr b | _ \<Rightarrow> Inl e)"

definition asLink :: "serr \<Rightarrow> 'd node \<Rightarrow> serr + 'd link" where
  "asLink e n = (case n of NLink l \<Rightarrow> Inr l | _ \<Rightarrow> Inl e)"

definition asList :: "serr \<Rightarrow> 'd node \<Rightarrow> serr + 'd node list" where
  "asList e n = (case n of NList xs \<Rightarrow> Inr xs | _ \<Rightarrow> Inl e)"

type_synonym 'd fields = "string \<rightharpoonup> 'd node"

text \<open>\<open>fields[key]\<close>. The decoders read only keys whose presence \<open>mapFields\<close> has checked.\<close>

definition fld :: "'d fields \<Rightarrow> string \<Rightarrow> 'd node" where
  "fld fm key = (case fm key of Some n \<Rightarrow> n | None \<Rightarrow> NNull)"

definition decodeNode :: "('b, 'd) lib \<Rightarrow> 'b \<Rightarrow> serr + 'd node" where
  "decodeNode L block = (case cborDecode L block of None \<Rightarrow> Inl CborDecodeFailed | Some n \<Rightarrow> Inr n)"

fun collectFields :: "string \<Rightarrow> string list \<Rightarrow> 'd fields \<Rightarrow> (string \<times> 'd node) list \<Rightarrow> serr + 'd fields" where
  "collectFields obj want fm [] = Inr fm"
| "collectFields obj want fm ((key, val) # kvs) =
     (if key \<notin> set want then Inl (UnknownField obj key)
      else collectFields obj want (fm(key \<mapsto> val)) kvs)"

fun requireFields :: "string \<Rightarrow> 'd fields \<Rightarrow> string list \<Rightarrow> serr + unit" where
  "requireFields obj fm [] = Inr ()"
| "requireFields obj fm (key # want) =
     (if fm key = None then Inl (MissingField obj key) else requireFields obj fm want)"

definition mapFields :: "string \<Rightarrow> 'd node \<Rightarrow> string list \<Rightarrow> serr + 'd fields" where
  "mapFields obj n want = (case n of
     NMap kvs \<Rightarrow>
       bindE (collectFields obj want Map.empty kvs) (\<lambda>fm.
       bindE (requireFields obj fm want) (\<lambda>_. Inr fm))
   | _ \<Rightarrow> Inl (NotAMap obj))"

definition checkVersion :: "string \<Rightarrow> 'd node \<Rightarrow> serr + unit" where
  "checkVersion obj n = bindE (asInt (NotAnInt obj ''v'') n) (\<lambda>v.
     if v \<noteq> SchemaVersion then Inl (UnknownVersion obj v) else Inr ())"

definition fieldString :: "string \<Rightarrow> string \<Rightarrow> 'd node \<Rightarrow> serr + string" where
  "fieldString obj key n = asString (NotAString obj key) n"

definition fieldUint :: "string \<Rightarrow> string \<Rightarrow> 'd node \<Rightarrow> serr + u64" where
  "fieldUint obj key n = bindE (asInt (NotAnInt obj key) n) (\<lambda>i.
     if i < 0 then Inl (NegativeInt obj key) else Inr (word_of_int i))"

definition fieldNullableUint :: "string \<Rightarrow> string \<Rightarrow> 'd node \<Rightarrow> serr + u64 option" where
  "fieldNullableUint obj key n =
     (if n = NNull then Inr None else bindE (fieldUint obj key n) (\<lambda>v. Inr (Some v)))"

definition fieldLink :: "string \<Rightarrow> string \<Rightarrow> 'd node \<Rightarrow> serr + 'd link" where
  "fieldLink obj key n = bindE (asLink (NotALink obj key) n) (\<lambda>l.
     if l = None then Inl (UndefinedLink obj key) else Inr l)"

definition fieldNullableLink :: "string \<Rightarrow> string \<Rightarrow> 'd node \<Rightarrow> serr + 'd link" where
  "fieldNullableLink obj key n = (if n = NNull then Inr None else fieldLink obj key n)"

definition headKeys :: "string list" where
  "headKeys = [''v'', ''name'', ''net'', ''origin_slot'', ''synced_to'', ''seg_bits'',
               ''fanout_bits'', ''dir_depth'', ''dir'', ''open'']"

definition segmentKeys :: "string list" where
  "segmentKeys = [''v'', ''slot0'', ''rows'']"

definition dirNodeKeys :: "string list" where
  "dirNodeKeys = [''v'', ''kids'']"

definition DecodeHead :: "('b, 'd) lib \<Rightarrow> 'b \<Rightarrow> serr + 'd Head" where
  "DecodeHead L block =
     bindE (decodeNode L block) (\<lambda>n.
     bindE (mapFields ''head'' n headKeys) (\<lambda>fm.
     bindE (checkVersion ''head'' (fld fm ''v'')) (\<lambda>_.
     bindE (fieldString ''head'' ''name'' (fld fm ''name'')) (\<lambda>name.
     bindE (fieldString ''head'' ''net'' (fld fm ''net'')) (\<lambda>net.
     bindE (fieldUint ''head'' ''origin_slot'' (fld fm ''origin_slot'')) (\<lambda>origin.
     bindE (fieldNullableUint ''head'' ''synced_to'' (fld fm ''synced_to'')) (\<lambda>synced.
     bindE (fieldUint ''head'' ''seg_bits'' (fld fm ''seg_bits'')) (\<lambda>segBits.
     bindE (fieldUint ''head'' ''fanout_bits'' (fld fm ''fanout_bits'')) (\<lambda>fanoutBits.
     bindE (fieldUint ''head'' ''dir_depth'' (fld fm ''dir_depth'')) (\<lambda>dirDepth.
     bindE (fieldNullableLink ''head'' ''dir'' (fld fm ''dir'')) (\<lambda>dir.
     bindE (fieldNullableLink ''head'' ''open'' (fld fm ''open'')) (\<lambda>open.
     let h = \<lparr>hName = name, hNet = net, hOriginSlot = origin, hSyncedTo = synced,
              hSegBits = segBits, hFanoutBits = fanoutBits, hDirDepth = dirDepth,
              hDir = dir, hOpen = open\<rparr>
     in bindE (HeadValidate h) (\<lambda>_. Inr h)))))))))))))"

definition decodeRefEntry :: "nat \<Rightarrow> nat \<Rightarrow> 'd node \<Rightarrow> serr + 'd RefEntry" where
  "decodeRefEntry rowIdx entryIdx n =
     bindE (asList (NotAList ''segment'' ''entry'') n) (\<lambda>xs.
     case xs of
       [vhNode, blobNode] \<Rightarrow>
         bindE (asBytes (NotBytes ''segment'' ''vh'') vhNode) (\<lambda>vhBytes.
         if length vhBytes \<noteq> VersionedHashSize then Inl (BadVHSize rowIdx entryIdx (length vhBytes))
         else bindE (fieldLink ''segment'' ''blob'' blobNode) (\<lambda>blob.
           Inr (RefEntry (ofBE vhBytes) blob)))
     | _ \<Rightarrow> Inl (BadArity ''entry'' (length xs)))"

definition decodeRow :: "nat \<Rightarrow> 'd node \<Rightarrow> serr + 'd Row" where
  "decodeRow idx n =
     bindE (asList (NotAList ''segment'' ''row'') n) (\<lambda>xs.
     case xs of
       [slotNode, entriesNode] \<Rightarrow>
         bindE (fieldUint ''segment'' ''rows slot'' slotNode) (\<lambda>slot.
         bindE (asList (NotAList ''segment'' ''entries'') entriesNode) (\<lambda>es.
         bindE (mapE (decodeRefEntry idx) 0 es) (\<lambda>entries.
         Inr (Row slot entries))))
     | _ \<Rightarrow> Inl (BadArity ''row'' (length xs)))"

definition DecodeSegment :: "('b, 'd) lib \<Rightarrow> 'b \<Rightarrow> serr + 'd Segment" where
  "DecodeSegment L block =
     bindE (decodeNode L block) (\<lambda>n.
     bindE (mapFields ''segment'' n segmentKeys) (\<lambda>fm.
     bindE (checkVersion ''segment'' (fld fm ''v'')) (\<lambda>_.
     bindE (fieldUint ''segment'' ''slot0'' (fld fm ''slot0'')) (\<lambda>slot0.
     bindE (asList (NotAList ''segment'' ''rows'') (fld fm ''rows'')) (\<lambda>rowNodes.
     bindE (mapE decodeRow 0 rowNodes) (\<lambda>rows.
     let s = \<lparr>sSlot0 = slot0, sRows = rows\<rparr>
     in bindE (SegmentValidate s) (\<lambda>_. Inr s)))))))"

definition DecodeDirNode :: "('b, 'd) lib \<Rightarrow> 'b \<Rightarrow> serr + 'd DirNode" where
  "DecodeDirNode L block =
     bindE (decodeNode L block) (\<lambda>n.
     bindE (mapFields ''dirnode'' n dirNodeKeys) (\<lambda>fm.
     bindE (checkVersion ''dirnode'' (fld fm ''v'')) (\<lambda>_.
     bindE (asList (NotAList ''dirnode'' ''kids'') (fld fm ''kids'')) (\<lambda>kidNodes.
     bindE (mapE (\<lambda>_. fieldNullableLink ''dirnode'' ''kids'') 0 kidNodes) (\<lambda>kids.
     let d = \<lparr>dKids = trimTrailingNulls kids\<rparr>
     in bindE (DirNodeValidate d) (\<lambda>_. Inr d))))))"

end
