(* ===== verification/SchemaCodec.thy ===== *)
theory SchemaCodec
  imports Schema
begin

text \<open>
  What the encoders and decoders of package \<open>schema\<close> promise each other. The interface \<open>node_codec\<close> is the
  contract the rest of the archive relies on: decoding an encoded object gives it back in canonical
  form, and one CID names one canonical object. It is interpreted for heads, segments and directory
  pages, for any library satisfying \<open>lib_ok\<close>.
\<close>

section \<open>Integers, links and lists\<close>

lemma sint_small:
  assumes "(v :: u64) \<le> maxInt64"
  shows "0 \<le> sint v \<and> sint v < 9223372036854775808"
proof -
  from assms have "unat v < 2 ^ 63" by (simp add: word_le_nat_alt)
  then have u: "uint v < 2 ^ 63" by (metis of_nat_less_iff uint_nat of_nat_numeral of_nat_power)
  then have "signed_take_bit 63 (uint v) = uint v"
    using order_trans [OF _ uint_ge_0, of "- (2 ^ 63)" v] by (simp add: signed_take_bit_int_eq_self_iff)
  with u show ?thesis by (simp add: sint_uint)
qed

lemma checkCBORInt_iff [simp]: "checkCBORInt obj key v = Inr u \<longleftrightarrow> v \<le> maxInt64"
  by (auto simp: checkCBORInt_def)

lemma checkCBORInts_iff [simp]: "checkCBORInts obj fs = Inr u \<longleftrightarrow> (\<forall>f\<in>set fs. snd f \<le> maxInt64)"
  by (induction fs) (auto simp: bindE_Inr_iff)

lemma fieldUint_qpInt: "v \<le> maxInt64 \<Longrightarrow> fieldUint obj key (qpInt v) = Inr v"
  using sint_small [of v] by (simp add: fieldUint_def qpInt_def asInt_def)

lemma wfNode_qpInt: "v \<le> maxInt64 \<Longrightarrow> wfNode (qpInt v)"
  using sint_small [of v] by (simp add: qpInt_def)

lemma canonNode_qpInt [simp]: "canonNode (qpInt v) = qpInt v"
  by (simp add: qpInt_def)

lemma qpInt_neq_NNull [simp]: "qpInt v \<noteq> NNull"
  by (simp add: qpInt_def)

lemma fieldNullableUint_nullableInt:
  "(\<And>x. v = Some x \<Longrightarrow> x \<le> maxInt64) \<Longrightarrow> fieldNullableUint obj key (nullableInt v) = Inr v"
  by (cases v) (simp_all add: fieldNullableUint_def nullableInt_def fieldUint_qpInt)

lemma canonNode_nullableInt [simp]: "canonNode (nullableInt v) = nullableInt v"
  by (cases v) (simp_all add: nullableInt_def)

lemma wfNode_nullableInt: "(\<And>x. v = Some x \<Longrightarrow> x \<le> maxInt64) \<Longrightarrow> wfNode (nullableInt v)"
  by (cases v) (simp_all add: nullableInt_def wfNode_qpInt)

lemma nullableLink_rt [simp]:
  "fieldNullableLink obj key (nullableLink l) = Inr l"
  "canonNode (nullableLink l) = nullableLink l"
  "wfNode (nullableLink l)"
  by (simp_all add: nullableLink_def fieldNullableLink_def fieldLink_def asLink_def)

lemma trim_append_None [simp]: "trimTrailingNulls (xs @ [None]) = trimTrailingNulls xs"
  by (simp add: trimTrailingNulls_def)

lemma trim_append_Some [simp]: "trimTrailingNulls (xs @ [Some x]) = xs @ [Some x]"
  by (simp add: trimTrailingNulls_def)

lemma trim_Nil [simp]: "trimTrailingNulls [] = []"
  by (simp add: trimTrailingNulls_def)

lemma trim_idem [simp]: "trimTrailingNulls (trimTrailingNulls xs) = trimTrailingNulls xs"
proof (induction xs rule: rev_induct)
  case (snoc x xs)
  then show ?case by (cases x) simp_all
qed simp

lemma trim_padded: "\<exists>n. xs = trimTrailingNulls xs @ replicate n None"
proof (induction xs rule: rev_induct)
  case (snoc x xs)
  show ?case
  proof (cases x)
    case None
    from snoc obtain n where "xs @ [None] = (trimTrailingNulls xs @ replicate n None) @ [None]" by auto
    also have "\<dots> = trimTrailingNulls xs @ replicate (Suc n) None" by (simp add: replicate_append_same)
    finally show ?thesis unfolding None trim_append_None by blast
  qed simp
qed simp

lemma length_trim: "length (trimTrailingNulls xs) \<le> length xs"
  using trim_padded [of xs] by (metis le_add1 length_append)

lemma trim_pad_self: "xs = trimTrailingNulls xs @ replicate (length xs - length (trimTrailingNulls xs)) None"
proof -
  obtain n where n: "xs = trimTrailingNulls xs @ replicate n None" using trim_padded by blast
  then have "length xs = length (trimTrailingNulls xs) + n" by (metis length_append length_replicate)
  with n show ?thesis by simp
qed

lemma trim_eq_padded:
  "trimTrailingNulls xs = trimTrailingNulls ys \<Longrightarrow> length xs = length ys \<Longrightarrow> xs = ys"
  by (metis trim_pad_self)

text \<open>A padded page reads the same as the page itself: an index past the end is a null.\<close>

definition kidAt :: "'d link list \<Rightarrow> nat \<Rightarrow> 'd link" where
  "kidAt kids i = (if i < length kids then kids ! i else None)"

lemma kidAt_trim [simp]: "kidAt (trimTrailingNulls xs) i = kidAt xs i"
proof (induction xs rule: rev_induct)
  case (snoc x xs)
  then show ?case by (cases x) (auto simp: kidAt_def nth_append)
qed simp

section \<open>Maps\<close>

lemma collectFields_ok:
  assumes "fst ` set kvs \<subseteq> set want"
  shows "collectFields obj want m kvs = Inr (m ++ map_of (rev kvs))"
  using assms by (induction kvs arbitrary: m) (auto simp: map_add_def fun_eq_iff split: option.splits)

lemma requireFields_ok: "requireFields obj m want = Inr u \<longleftrightarrow> (\<forall>k\<in>set want. m k \<noteq> None)"
  by (induction want) auto

lemma mapFields_ok:
  assumes "distinct (map fst kvs)" "fst ` set kvs = set want"
  shows "mapFields obj (NMap kvs) want = Inr (map_of kvs)"
proof -
  have rev: "map_of (rev kvs) = map_of kvs"
    using assms(1) map_of_inject_set [of "rev kvs" kvs] by (simp flip: rev_map)
  have "requireFields obj (map_of kvs) want = Inr ()"
    using assms(2) by (auto simp: requireFields_ok map_of_eq_None_iff)
  then show ?thesis
    using collectFields_ok [of kvs want obj Map.empty] assms by (simp add: mapFields_def rev)
qed

lemma mapFields_canon:
  assumes "distinct (map fst kvs)" "set (map fst kvs) = set want"
  shows "mapFields obj (canonNode (NMap kvs)) want = Inr (map_of (map (map_prod id canonNode) kvs))"
proof -
  let ?ys = "map (map_prod id canonNode) kvs"
  have "distinct (map fst ?ys)" using assms(1) by (simp add: comp_def)
  then have "distinct (map fst (sort_key rfc7049_key ?ys))" by (simp only: distinct_map distinct_sort set_sort)
  moreover have "fst ` set (sort_key rfc7049_key ?ys) = set want"
    using assms(2) by (simp add: image_image)
  ultimately have "mapFields obj (NMap (sort_key rfc7049_key ?ys)) want = Inr (map_of (sort_key rfc7049_key ?ys))"
    by (rule mapFields_ok)
  then show ?thesis using map_of_canon [OF assms(1)] by simp
qed

lemma collectFields_Inr:
  "collectFields obj want m0 kvs = Inr m \<Longrightarrow> fst ` set kvs \<subseteq> set want \<and> dom m = dom m0 \<union> fst ` set kvs"
proof (induction obj want m0 kvs rule: collectFields.induct)
  case (2 obj want m0 key val kvs)
  then have key: "key \<in> set want" and run: "collectFields obj want (m0(key \<mapsto> val)) kvs = Inr m"
    by (auto split: if_splits)
  from "2.IH" [OF _ run] key show ?case by auto
qed simp

lemma mapFields_keys:
  assumes "mapFields obj n want = Inr m"
  shows "\<exists>kvs. n = NMap kvs \<and> fst ` set kvs = set want"
proof -
  from assms obtain kvs where n: "n = NMap kvs" and c: "collectFields obj want Map.empty kvs = Inr m"
    and r: "requireFields obj m want = Inr ()"
    by (auto simp: mapFields_def bindE_Inr_iff split: node.splits)
  have "set want \<subseteq> dom m" using r by (auto simp: requireFields_ok)
  with collectFields_Inr [OF c] n show ?thesis by auto
qed

section \<open>What the validators accept\<close>

lemma validateEntries_iff [simp]: "validateEntries i j es = Inr u \<longleftrightarrow> (\<forall>e\<in>set es. eBlob e \<noteq> None)"
  by (induction es arbitrary: j) auto

definition rowOk :: "'d Row \<Rightarrow> bool" where
  "rowOk r \<longleftrightarrow> rEntries r \<noteq> [] \<and> length (rEntries r) \<le> MaxBlobsPerSlotCeiling \<and>
     (\<forall>e\<in>set (rEntries r). eBlob e \<noteq> None)"

text \<open>Rows in strictly ascending slot order, each of them fit to be stored.\<close>

definition rowsOk :: "'d Row list \<Rightarrow> bool" where
  "rowsOk rs \<longleftrightarrow> sorted_wrt (<) (map rSlot rs) \<and> (\<forall>r\<in>set rs. rowOk r)"

lemma validateRows_iff:
  "validateRows slot0 i prev rs = Inr () \<longleftrightarrow>
     rowsOk rs \<and> (\<forall>r\<in>set rs. slot0 \<le> rSlot r) \<and>
     (\<forall>p. prev = Some p \<longrightarrow> (\<forall>r\<in>set rs. p < rSlot r))"
proof (induction rs arbitrary: i prev)
  case (Cons r rs)
  show ?case
    by (auto simp: Cons.IH bindE_Inr_iff rowsOk_def rowOk_def not_less not_le split: option.splits
        intro: less_trans)
qed (simp add: rowsOk_def)

lemma SegmentValidate_iff:
  "SegmentValidate s = Inr () \<longleftrightarrow> rowsOk (sRows s) \<and> (\<forall>r\<in>set (sRows s). sSlot0 s \<le> rSlot r)"
  by (simp add: SegmentValidate_def validateRows_iff)

lemma HeadValidate_iff:
  "HeadValidate h = Inr () \<longleftrightarrow> headNameRE (hName h) \<and> (hDirDepth h = 0 \<longleftrightarrow> hDir h = None) \<and>
     (\<forall>s. hSyncedTo h = Some s \<longrightarrow> hOriginSlot h \<le> s)"
  by (auto simp: HeadValidate_def ValidateHeadName_def bindE_Inr_iff not_less split: option.splits)

lemma DirNodeValidate_iff [simp]: "DirNodeValidate d = Inr ()"
  by (simp add: DirNodeValidate_def)

section \<open>Round trips\<close>

lemma lib_ok_sum: "lib_ok L \<Longrightarrow> \<exists>d. mhSum L SHA2_256 (- 1) b = Some (32, d)"
  unfolding lib_ok_def by blast

lemma NodeCID_total: "lib_ok L \<Longrightarrow> \<exists>d. NodeCID L b = Inr (Cid 1 codecDagCBOR SHA2_256 32 d)"
  using lib_ok_sum [of L b] by (auto simp: NodeCID_def prefixSum_def nodePrefix_def)

lemma NodeCID_inj: "lib_ok L \<Longrightarrow> NodeCID L b = Inr c \<Longrightarrow> NodeCID L b' = Inr c \<Longrightarrow> b = b'"
  by (auto simp: lib_ok_def NodeCID_def prefixSum_def nodePrefix_def split: option.splits)

lemma encodeNode_Inr:
  assumes "encodeNode L n = Inr (b, c)"
  shows "cborEncode L n = Some b" "NodeCID L b = Inr c"
  using assms by (auto simp: encodeNode_def bindE_Inr_iff split: option.splits)

lemma encodeNode_total:
  assumes "lib_ok L" "wfNode n"
  shows "\<exists>b c. encodeNode L n = Inr (b, c)"
proof -
  obtain b where "cborEncode L n = Some b" using lib_ok_cbor [OF assms] by blast
  moreover obtain c where "NodeCID L b = Inr c" using NodeCID_total [OF assms(1)] by blast
  ultimately show ?thesis by (simp add: encodeNode_def)
qed

lemma decode_encodeNode:
  assumes "lib_ok L" "wfNode n" "encodeNode L n = Inr (b, c)"
  shows "decodeNode L b = Inr (canonNode n)"
  using lib_ok_encode_decode [OF assms(1,2)] encodeNode_Inr(1) [OF assms(3)] by (simp add: decodeNode_def)

lemma mapE_map_inv: "(\<And>i x. x \<in> set xs \<Longrightarrow> f i (g x) = Inr x) \<Longrightarrow> mapE f i (map g xs) = Inr xs"
  by (induction xs arbitrary: i) auto

lemma decodeRefEntry_rt: "eBlob e \<noteq> None \<Longrightarrow> decodeRefEntry i j (canonNode (refEntryNode e)) = Inr e"
  by (cases e) (simp add: decodeRefEntry_def refEntryNode_def asList_def asBytes_def fieldLink_def asLink_def)

lemma decodeRow_rt:
  assumes "rowOk r" "rSlot r \<le> maxInt64"
  shows "decodeRow i (canonNode (rowNode r)) = Inr r"
proof -
  have "mapE (decodeRefEntry i) 0 (map (canonNode \<circ> refEntryNode) (rEntries r)) = Inr (rEntries r)"
    using assms(1) by (intro mapE_map_inv) (auto simp: rowOk_def decodeRefEntry_rt)
  then show ?thesis
    using assms(2) by (cases r) (simp add: decodeRow_def rowNode_def asList_def fieldUint_qpInt)
qed

lemma wfNode_rowNode: "rowOk r \<Longrightarrow> rSlot r \<le> maxInt64 \<Longrightarrow> wfNode (rowNode r)"
  by (auto simp: rowNode_def refEntryNode_def wfNode_qpInt rowOk_def list_all_iff)

lemma wfNode_segmentNode:
  assumes "rowsOk (sRows s)" "sSlot0 s \<le> maxInt64" "\<forall>r\<in>set (sRows s). rSlot r \<le> maxInt64"
  shows "wfNode (segmentNode s)"
  using assms by (auto simp: segmentNode_def wfNode_qpInt wfNode_rowNode rowsOk_def list_all_iff)

lemma EncodeSegment_Inr:
  assumes "EncodeSegment L s = Inr (b, c)"
  shows "SegmentValidate s = Inr ()" "sSlot0 s \<le> maxInt64" "\<forall>r\<in>set (sRows s). rSlot r \<le> maxInt64"
    "encodeNode L (segmentNode s) = Inr (b, c)"
  using assms by (auto simp: EncodeSegment_def bindE_Inr_iff)

lemma segment_roundtrip:
  assumes L: "lib_ok L" and enc: "EncodeSegment L s = Inr (b, c)"
  shows "DecodeSegment L b = Inr s"
proof -
  note e = EncodeSegment_Inr [OF enc]
  have ok: "rowsOk (sRows s)" using e(1) by (simp add: SegmentValidate_iff)
  have wf: "wfNode (segmentNode s)" using ok e(2,3) by (rule wfNode_segmentNode)
  have rows: "mapE decodeRow 0 (map (canonNode \<circ> rowNode) (sRows s)) = Inr (sRows s)"
    using ok e(3) by (intro mapE_map_inv) (auto simp: rowsOk_def decodeRow_rt)
  have "mapFields ''segment'' (canonNode (segmentNode s)) segmentKeys =
    Inr (map_of [(''v'', NInt 1), (''slot0'', qpInt (sSlot0 s)), (''rows'', NList (map (canonNode \<circ> rowNode) (sRows s)))])"
    unfolding segmentNode_def by (subst mapFields_canon) (auto simp: segmentKeys_def)
  then show ?thesis
    using decode_encodeNode [OF L wf e(4)] rows e(1,2)
    by (cases s) (simp add: DecodeSegment_def Let_def fld_def checkVersion_def asInt_def asList_def fieldUint_qpInt)
qed

definition canonDirNode :: "'d DirNode \<Rightarrow> 'd DirNode" where
  "canonDirNode d = \<lparr>dKids = trimTrailingNulls (dKids d)\<rparr>"

lemma dirNode_roundtrip:
  assumes L: "lib_ok L" and enc: "EncodeDirNode L d = Inr (b, c)"
  shows "DecodeDirNode L b = Inr (canonDirNode d)"
proof -
  let ?kids = "trimTrailingNulls (dKids d)"
  have e: "encodeNode L (dirNodeNode ?kids) = Inr (b, c)"
    using enc by (simp add: EncodeDirNode_def bindE_Inr_iff)
  have wf: "wfNode (dirNodeNode ?kids)" by (simp add: dirNodeNode_def list_all_iff)
  have kids: "mapE (\<lambda>_. fieldNullableLink ''dirnode'' ''kids'') 0 (map nullableLink ?kids) = Inr ?kids"
    by (intro mapE_map_inv) simp
  have "mapFields ''dirnode'' (canonNode (dirNodeNode ?kids)) dirNodeKeys =
    Inr (map_of [(''v'', NInt 1), (''kids'', NList (map nullableLink ?kids))])"
    unfolding dirNodeNode_def by (subst mapFields_canon) (auto simp: dirNodeKeys_def)
  then show ?thesis
    using decode_encodeNode [OF L wf e] kids
    by (simp add: DecodeDirNode_def canonDirNode_def Let_def fld_def checkVersion_def asInt_def asList_def)
qed

lemma EncodeHead_Inr:
  assumes "EncodeHead L h = Inr (b, c)"
  shows "HeadValidate h = Inr ()" "hOriginSlot h \<le> maxInt64" "hSegBits h \<le> maxInt64"
    "hFanoutBits h \<le> maxInt64" "hDirDepth h \<le> maxInt64" "\<And>x. hSyncedTo h = Some x \<Longrightarrow> x \<le> maxInt64"
    "encodeNode L (headNode h) = Inr (b, c)"
  using assms by (auto simp: EncodeHead_def bindE_Inr_iff)

lemma head_roundtrip:
  assumes L: "lib_ok L" and enc: "EncodeHead L h = Inr (b, c)"
  shows "DecodeHead L b = Inr h"
proof -
  note e = EncodeHead_Inr [OF enc]
  have wf: "wfNode (headNode h)"
    using e(2-6) by (simp add: headNode_def wfNode_qpInt wfNode_nullableInt list_all_iff)
  have "mapFields ''head'' (canonNode (headNode h)) headKeys =
    Inr (map_of [(''v'', NInt SchemaVersion), (''name'', NString (hName h)), (''net'', NString (hNet h)),
      (''origin_slot'', qpInt (hOriginSlot h)), (''synced_to'', nullableInt (hSyncedTo h)),
      (''seg_bits'', qpInt (hSegBits h)), (''fanout_bits'', qpInt (hFanoutBits h)),
      (''dir_depth'', qpInt (hDirDepth h)), (''dir'', nullableLink (hDir h)), (''open'', nullableLink (hOpen h))])"
    unfolding headNode_def by (subst mapFields_canon) (auto simp: headKeys_def)
  then show ?thesis
    using decode_encodeNode [OF L wf e(7)] e(1-6)
    by (cases h) (simp add: DecodeHead_def Let_def fld_def checkVersion_def asInt_def fieldString_def asString_def
        fieldUint_qpInt fieldNullableUint_nullableInt)
qed

section \<open>The codec contract\<close>

text \<open>A library \<open>L\<close> (with \<open>ok L\<close>), a partial encoder to bytes and CID, a decoder, the canonical form an
  object decodes to, and the objects that can be encoded at all.\<close>

locale node_codec =
  fixes ok :: "'p \<Rightarrow> bool"
    and cidOf :: "'p \<Rightarrow> 'b \<Rightarrow> 'e + 'c"
    and encode :: "'p \<Rightarrow> 't \<Rightarrow> 'e + 'b \<times> 'c"
    and decode :: "'p \<Rightarrow> 'b \<Rightarrow> 'e + 't"
    and canon :: "'t \<Rightarrow> 't"
    and encodable :: "'t \<Rightarrow> bool"
  assumes roundtrip: "ok L \<Longrightarrow> encode L x = Inr (b, c) \<Longrightarrow> decode L b = Inr (canon x)"
    and encode_canon: "encode L (canon x) = encode L x"
    and encode_cid: "encode L x = Inr (b, c) \<Longrightarrow> cidOf L b = Inr c"
    and cid_inj: "ok L \<Longrightarrow> cidOf L b = Inr c \<Longrightarrow> cidOf L b' = Inr c \<Longrightarrow> b = b'"
    and encodable_iff: "ok L \<Longrightarrow> encodable x \<longleftrightarrow> (\<exists>b c. encode L x = Inr (b, c))"
begin

lemma cid_determines:
  assumes "ok L" "encode L x = Inr (b, c)" "encode L y = Inr (b', c)"
  shows "canon x = canon y" "b = b'"
proof -
  show eq: "b = b'" using cid_inj [OF assms(1)] encode_cid assms(2,3) by blast
  show "canon x = canon y" using roundtrip [OF assms(1)] assms(2,3) eq by (metis sum.inject(2))
qed

lemma canon_determines_cid:
  assumes "encode L x = Inr (b, c)" "encode L y = Inr (b', c')" "canon x = canon y"
  shows "c = c'" "b = b'"
  using assms encode_canon [of L x] encode_canon [of L y] by auto

lemma cid_eq_iff:
  assumes "ok L" "encode L x = Inr (b, c)" "encode L y = Inr (b', c')"
  shows "c = c' \<longleftrightarrow> canon x = canon y"
  using cid_determines(1) [OF assms(1,2)] canon_determines_cid(1) [OF assms(2,3)] assms(3) by blast

lemma reencode:
  assumes "ok L" "encode L x = Inr (b, c)" "decode L b = Inr y"
  shows "encode L y = Inr (b, c)"
  using roundtrip [OF assms(1,2)] assms(2,3) encode_canon [of L x] by simp

end

definition segmentEncodable :: "'d Segment \<Rightarrow> bool" where
  "segmentEncodable s \<longleftrightarrow> SegmentValidate s = Inr () \<and> sSlot0 s \<le> maxInt64 \<and>
     (\<forall>r\<in>set (sRows s). rSlot r \<le> maxInt64)"

definition headEncodable :: "'d Head \<Rightarrow> bool" where
  "headEncodable h \<longleftrightarrow> HeadValidate h = Inr () \<and> hOriginSlot h \<le> maxInt64 \<and> hSegBits h \<le> maxInt64 \<and>
     hFanoutBits h \<le> maxInt64 \<and> hDirDepth h \<le> maxInt64 \<and> (\<forall>x. hSyncedTo h = Some x \<longrightarrow> x \<le> maxInt64)"

lemma segmentEncodable_iff:
  assumes "lib_ok L"
  shows "segmentEncodable s \<longleftrightarrow> (\<exists>b c. EncodeSegment L s = Inr (b, c))"
proof
  assume e: "segmentEncodable s"
  then have "wfNode (segmentNode s)"
    by (intro wfNode_segmentNode) (auto simp: segmentEncodable_def SegmentValidate_iff)
  with assms e show "\<exists>b c. EncodeSegment L s = Inr (b, c)"
    by (auto simp: segmentEncodable_def EncodeSegment_def bindE_Inr_iff intro!: encodeNode_total)
qed (auto simp: segmentEncodable_def dest: EncodeSegment_Inr)

lemma headEncodable_iff:
  assumes "lib_ok L"
  shows "headEncodable h \<longleftrightarrow> (\<exists>b c. EncodeHead L h = Inr (b, c))"
proof
  assume e: "headEncodable h"
  then have "wfNode (headNode h)"
    by (simp add: headEncodable_def headNode_def wfNode_qpInt wfNode_nullableInt list_all_iff)
  with assms e show "\<exists>b c. EncodeHead L h = Inr (b, c)"
    by (auto simp: headEncodable_def EncodeHead_def bindE_Inr_iff intro!: encodeNode_total split: option.splits)
qed (auto simp: headEncodable_def dest: EncodeHead_Inr)

lemma encoders_cid:
  "EncodeSegment L s = Inr (b, c) \<Longrightarrow> NodeCID L b = Inr c"
  "EncodeDirNode L d = Inr (b, c) \<Longrightarrow> NodeCID L b = Inr c"
  "EncodeHead L h = Inr (b, c) \<Longrightarrow> NodeCID L b = Inr c"
  by (auto simp: EncodeSegment_def EncodeDirNode_def EncodeHead_def bindE_Inr_iff dest: encodeNode_Inr(2))

lemma EncodeDirNode_total: "lib_ok L \<Longrightarrow> \<exists>b c. EncodeDirNode L d = Inr (b, c)"
  by (auto simp: EncodeDirNode_def DirNodeValidate_def dirNodeNode_def list_all_iff intro!: encodeNode_total)

lemma EncodeDirNode_canon: "EncodeDirNode L (canonDirNode d) = EncodeDirNode L d"
  by (simp add: EncodeDirNode_def canonDirNode_def DirNodeValidate_def)

interpretation segC: node_codec lib_ok NodeCID EncodeSegment DecodeSegment id segmentEncodable
  by unfold_locales
    (simp_all add: segment_roundtrip segmentEncodable_iff encoders_cid NodeCID_inj)

interpretation dirC: node_codec lib_ok NodeCID EncodeDirNode DecodeDirNode canonDirNode "\<lambda>_. True"
  by unfold_locales
    (simp_all add: dirNode_roundtrip encoders_cid NodeCID_inj EncodeDirNode_total EncodeDirNode_canon)

interpretation headC: node_codec lib_ok NodeCID EncodeHead DecodeHead id headEncodable
  by unfold_locales
    (simp_all add: head_roundtrip headEncodable_iff encoders_cid NodeCID_inj)

section \<open>One block, one type\<close>

text \<open>The decoders accept exactly one key set each, so the bytes of a block determine which object it
  is.\<close>

lemma decoder_keys:
  assumes "bindE (decodeNode L b) (\<lambda>n. bindE (mapFields obj n keys) (f n)) = Inr r"
  shows "\<exists>kvs. cborDecode L b = Some (NMap kvs) \<and> fst ` set kvs = set keys"
proof -
  from assms obtain n m where n: "decodeNode L b = Inr n" and m: "mapFields obj n keys = Inr m"
    by (auto simp: bindE_Inr_iff)
  from mapFields_keys [OF m] n show ?thesis by (auto simp: decodeNode_def split: option.splits)
qed

lemma decode_keys:
  "DecodeHead L b = Inr h \<Longrightarrow> \<exists>kvs. cborDecode L b = Some (NMap kvs) \<and> fst ` set kvs = set headKeys"
  "DecodeSegment L b = Inr s \<Longrightarrow> \<exists>kvs. cborDecode L b = Some (NMap kvs) \<and> fst ` set kvs = set segmentKeys"
  "DecodeDirNode L b = Inr d \<Longrightarrow> \<exists>kvs. cborDecode L b = Some (NMap kvs) \<and> fst ` set kvs = set dirNodeKeys"
  unfolding DecodeHead_def DecodeSegment_def DecodeDirNode_def by (erule decoder_keys)+

lemma keys_tell:
  "''name'' \<in> set headKeys" "''name'' \<notin> set segmentKeys" "''name'' \<notin> set dirNodeKeys"
  "''rows'' \<in> set segmentKeys" "''rows'' \<notin> set dirNodeKeys"
  by (simp_all add: headKeys_def segmentKeys_def dirNodeKeys_def)

end
