(* ===== verification/Blockstore.thy ===== *)
theory Blockstore
  imports SchemaCodec
begin

text \<open>
  The block store the archive engine reads and writes, and the error values of the packages above it.
  The physical store is keyed by multihash; \<open>store/validate.go\<close> wraps its \<open>Get\<close> so that bytes which no
  longer hash to the requested CID are refused. Faults of the medium are part of the state: the CIDs
  whose reads and writes fail.
\<close>

section \<open>Errors\<close>

datatype IndexNodeKind = IndexNodeHead | IndexNodeDir | IndexNodeSegment

datatype SegmentState = SegmentOpen | SegmentSealed

datatype conflict =
    CSyncedPrecedesOrigin
  | CNotAscending nat
  | CBeforeOrigin nat
  | CPastSynced nat
  | CNoVHs nat
  | COverCeiling nat
  | CPartialOverlap nat
  | CMissingBlobs "vhash list"
  | CReplayAbsent u64
  | CReplayCount u64
  | CReplayDiffers u64 nat
  | CTruncateEmpty
  | CTruncatePastSynced
  | CTruncateBeforeOrigin

datatype 'd err =
    SchemaErr serr
  | NotFound "'d cid"
  | CorruptBlock "'d cid" "'d cid"
  | IOErr
  | RehashErr
  | UndefinedCID
  | ErrDirty
  | ErrEmpty
  | IndexNodeTooLarge IndexNodeKind nat "SegmentState option" nat nat
  | Conflict conflict
  | NoResolver
  | ResolverErr
  | BadParams
  | BadPrefix string
  | BadGeometry string
  | BadStructure string
  | BudgetExceeded string
  | Internal string
  | NonTermination
  | EpochActive u64
  | EpochEnded
  | CatalogErr string
  | PinningErr string
  | KVErr
  | Cancelled

definition liftS :: "serr + 'a \<Rightarrow> 'd err + 'a" where
  "liftS r = map_sum SchemaErr id r"

lemma liftS_simps [simp]:
  "liftS (Inr a) = Inr a" "liftS (Inl e) = Inl (SchemaErr e)"
  "liftS r = Inr a \<longleftrightarrow> r = Inr a"
  by (cases r; simp add: liftS_def)+

section \<open>The physical store\<close>

record ('b, 'd) blocks =
  contents :: "'d mhash \<rightharpoonup> 'b"
  getFault :: "'d cid \<Rightarrow> bool"
  putFault :: "'d cid \<Rightarrow> bool"

definition baseGet :: "('b, 'd) blocks \<Rightarrow> 'd cid \<Rightarrow> 'd err + 'b" where
  "baseGet bs c = (if getFault bs c then Inl IOErr
     else case contents bs (cidHash c) of None \<Rightarrow> Inl (NotFound c) | Some data \<Rightarrow> Inr data)"

definition basePut :: "('b, 'd) blocks \<Rightarrow> 'd cid \<Rightarrow> 'b \<Rightarrow> ('d err + unit) \<times> ('b, 'd) blocks" where
  "basePut bs c data = (if putFault bs c then (Inl IOErr, bs)
     else (Inr (), bs\<lparr>contents := (contents bs)(cidHash c \<mapsto> data)\<rparr>))"

section \<open>Validated reads\<close>

definition validatingGet :: "('b, 'd) lib \<Rightarrow> ('b, 'd) blocks \<Rightarrow> 'd cid \<Rightarrow> 'd err + 'b" where
  "validatingGet L bs c =
     bindE (baseGet bs c) (\<lambda>blk.
     case prefixSum L (cidPrefix c) blk of
       None \<Rightarrow> Inl RehashErr
     | Some got \<Rightarrow> if got \<noteq> c then Inl (CorruptBlock c got) else Inr blk)"

lemma validatingGet_sound: "validatingGet L bs c = Inr blk \<Longrightarrow> prefixSum L (cidPrefix c) blk = Some c"
  by (auto simp: validatingGet_def bindE_Inr_iff split: option.splits if_splits)

lemma validatingGet_stored: "validatingGet L bs c = Inr blk \<Longrightarrow> contents bs (cidHash c) = Some blk \<and> \<not> getFault bs c"
  by (auto simp: validatingGet_def baseGet_def bindE_Inr_iff split: option.splits if_splits)

text \<open>The CID an index block gets from \<open>NodeCID\<close> is the one its own prefix reproduces.\<close>

lemma NodeCID_prefixSum:
  assumes "lib_ok L" "NodeCID L b = Inr c"
  shows "prefixSum L (cidPrefix c) b = Some c"
proof -
  obtain d where d: "mhSum L SHA2_256 (- 1) b = Some (32, d)" "mhSum L SHA2_256 32 b = Some (32, d)"
    using assms(1) unfolding lib_ok_def by blast
  with assms(2) have "c = Cid 1 codecDagCBOR SHA2_256 32 d"
    by (simp add: NodeCID_def prefixSum_def nodePrefix_def)
  with d(2) show ?thesis by (simp add: prefixSum_def cidPrefix_def)
qed

lemma NodeCID_hash_inj:
  assumes "lib_ok L" "NodeCID L b = Inr c" "prefixSum L (cidPrefix c') b' = Some c'" "cidHash c' = cidHash c"
  shows "b' = b"
proof -
  obtain d where d: "mhSum L SHA2_256 (- 1) b = Some (32, d)" "mhSum L SHA2_256 32 b = Some (32, d)"
    using assms(1) unfolding lib_ok_def by blast
  obtain d' where d': "mhSum L SHA2_256 (- 1) b' = Some (32, d')" "mhSum L SHA2_256 32 b' = Some (32, d')"
    using assms(1) unfolding lib_ok_def by blast
  have c: "c = Cid 1 codecDagCBOR SHA2_256 32 d"
    using assms(2) d by (simp add: NodeCID_def prefixSum_def nodePrefix_def)
  have "cidDigest c' = d" "cidMhType c' = SHA2_256" "cidMhLen c' = 32"
    using assms(4) c by (cases c'; simp add: cidHash_def)+
  with assms(3) d' have "d' = d" by (cases c') (simp add: prefixSum_def cidPrefix_def)
  with d d' have "mhSum L SHA2_256 (- 1) b = mhSum L SHA2_256 (- 1) b'" by simp
  with assms(1) show ?thesis unfolding lib_ok_def by blast
qed

section \<open>Growth\<close>

text \<open>\<open>has L bs c b\<close>: the store holds the block \<open>b\<close> under its CID \<open>c\<close>. A validated read of it returns \<open>b\<close>
  unless the medium fails.\<close>

definition has :: "('b, 'd) lib \<Rightarrow> ('b, 'd) blocks \<Rightarrow> 'd cid \<Rightarrow> 'b \<Rightarrow> bool" where
  "has L bs c b \<longleftrightarrow> contents bs (cidHash c) = Some b \<and> prefixSum L (cidPrefix c) b = Some c"

lemma has_get: "has L bs c b \<Longrightarrow> validatingGet L bs c = (if getFault bs c then Inl IOErr else Inr b)"
  by (simp add: has_def validatingGet_def baseGet_def)

lemma get_has: "validatingGet L bs c = Inr b \<Longrightarrow> has L bs c b"
  by (simp add: has_def validatingGet_sound validatingGet_stored)

lemma has_unique: "has L bs c b \<Longrightarrow> has L bs c b' \<Longrightarrow> b = b'"
  by (simp add: has_def)

text \<open>The engine never deletes: every block held before is held after, and the faults of the medium do
  not change.\<close>

definition extends :: "('b, 'd) lib \<Rightarrow> ('b, 'd) blocks \<Rightarrow> ('b, 'd) blocks \<Rightarrow> bool" where
  "extends L bs bs' \<longleftrightarrow> getFault bs' = getFault bs \<and> putFault bs' = putFault bs \<and>
     (\<forall>c b. has L bs c b \<longrightarrow> has L bs' c b)"

lemma extends_refl [simp, intro]: "extends L bs bs"
  by (simp add: extends_def)

lemma extends_trans: "extends L a b \<Longrightarrow> extends L b c \<Longrightarrow> extends L a c"
  by (simp add: extends_def)

lemma extends_has: "extends L bs bs' \<Longrightarrow> has L bs c b \<Longrightarrow> has L bs' c b"
  by (simp add: extends_def)

lemma extends_get:
  assumes "extends L bs bs'" "validatingGet L bs c = Inr b"
  shows "validatingGet L bs' c = Inr b"
  using assms has_get [OF extends_has [OF assms(1) get_has [OF assms(2)]]] validatingGet_stored [OF assms(2)]
  by (simp add: extends_def)

lemma basePut_extends:
  assumes L: "lib_ok L" and c: "NodeCID L b = Inr c"
  shows "extends L bs (snd (basePut bs c b))"
  using NodeCID_hash_inj [OF L c] by (auto simp: basePut_def extends_def has_def)

lemma basePut_has:
  assumes "lib_ok L" "NodeCID L b = Inr c" "basePut bs c b = (Inr (), bs')"
  shows "has L bs' c b"
  using assms(3) NodeCID_prefixSum [OF assms(1,2)] by (auto simp: basePut_def has_def split: if_splits)

section \<open>The bytes of identifiers\<close>

text \<open>The CID library's renderings: \<open>c.Bytes()\<close> (which is also \<open>c.KeyString()\<close>), \<open>cid.Cast\<close>, and the bytes of a
  multihash. The callers rely on \<open>Cast\<close> reading back what \<open>Bytes\<close> wrote.\<close>

record 'd cidLib =
  cidBytes :: "'d cid \<Rightarrow> bytes"
  cidCast :: "bytes \<Rightarrow> 'd cid option"
  mhBytes :: "'d mhash \<Rightarrow> bytes"

definition cidLib_ok :: "'d cidLib \<Rightarrow> bool" where
  "cidLib_ok K \<longleftrightarrow> (\<forall>c. cidCast K (cidBytes K c) = Some c)"

lemma cidCast_cidBytes: "cidLib_ok K \<Longrightarrow> cidCast K (cidBytes K c) = Some c"
  by (simp add: cidLib_ok_def)

lemma cidBytes_inject: "cidLib_ok K \<Longrightarrow> cidBytes K c = cidBytes K d \<longleftrightarrow> c = d"
  by (metis cidLib_ok_def option.inject)

end
