(* ===== verification/Core.thy ===== *)
theory Core
  imports Blockstore
begin

text \<open>
  Package \<open>core\<close>: nodes of one type read and written as blocks (\<open>core.go\<close>), the three-state pointer to a
  node (\<open>pointer.go\<close>), and the byte-bounded cache of decoded nodes (\<open>cache.go\<close>).

  A \<open>NodeStore[T]\<close> holds a block store, a codec and a cache; here it is a record of the functions those
  give it, each a computation on the state \<open>'s\<close> of whoever owns the store. A nil cache is \<open>None\<close>.
\<close>

section \<open>The decoded-node cache\<close>

text \<open>The LRU list of the library, most recently used entry first; eviction is by bytes and driven from
  \<open>add\<close>.\<close>

record ('v, 'd) nodeCache =
  lru :: "('d cid \<times> 'v \<times> int) list"
  budget :: int
  cbytes :: int

definition NewNodeCache :: "int \<Rightarrow> ('v, 'd) nodeCache option" where
  "NewNodeCache budgetBytes =
     (if budgetBytes \<le> 0 then None else Some \<lparr>lru = [], budget = budgetBytes, cbytes = 0\<rparr>)"

definition lruWithout :: "'d cid \<Rightarrow> ('d cid \<times> 'v \<times> int) list \<Rightarrow> ('d cid \<times> 'v \<times> int) list" where
  "lruWithout k es = filter (\<lambda>e. fst e \<noteq> k) es"

definition cacheGet :: "('v, 'd) nodeCache \<Rightarrow> 'd cid \<Rightarrow> 'v option \<times> ('v, 'd) nodeCache" where
  "cacheGet c k = (case map_of (lru c) k of
     None \<Rightarrow> (None, c)
   | Some (v, cost) \<Rightarrow> (Some v, c\<lparr>lru := (k, v, cost) # lruWithout k (lru c)\<rparr>))"

function cacheEvict :: "('v, 'd) nodeCache \<Rightarrow> ('v, 'd) nodeCache" where
  "cacheEvict c =
     (if cbytes c \<le> budget c \<or> lru c = [] then c
      else cacheEvict (c\<lparr>lru := butlast (lru c), cbytes := cbytes c - snd (snd (last (lru c)))\<rparr>))"
  by pat_completeness auto
termination
  by (relation "measure (\<lambda>c. length (lru c))") auto

declare cacheEvict.simps [simp del]

definition cacheAdd :: "('v, 'd) nodeCache \<Rightarrow> 'd cid \<Rightarrow> 'v \<Rightarrow> nat \<Rightarrow> ('v, 'd) nodeCache" where
  "cacheAdd c k v encodedLen =
     (let cost = int encodedLen;
          held = (case map_of (lru c) k of Some (_, old) \<Rightarrow> cbytes c - old | None \<Rightarrow> cbytes c)
      in cacheEvict (c\<lparr>lru := (k, v, cost) # lruWithout k (lru c), cbytes := held + cost\<rparr>))"

definition cacheLen :: "('v, 'd) nodeCache \<Rightarrow> nat" where
  "cacheLen c = length (lru c)"

definition cachePurge :: "('v, 'd) nodeCache \<Rightarrow> ('v, 'd) nodeCache" where
  "cachePurge c = c\<lparr>lru := [], cbytes := 0\<rparr>"

definition NewNodeCacheMB :: "int \<Rightarrow> ('v, 'd) nodeCache option" where
  "NewNodeCacheMB mb = NewNodeCache (push_bit 20 mb)"

section \<open>Node stores\<close>

text \<open>The last two fields are Go's conversions between a node pointer and the cache's \<open>any\<close>: boxing, and
  the type assertion that a hit must pass.\<close>

record ('s, 't, 'v, 'b, 'd) nodeStore =
  nsGet :: "'d cid \<Rightarrow> ('s, 'd err, 'b) op"
  nsPut :: "'d cid \<Rightarrow> 'b \<Rightarrow> ('s, 'd err, unit) op"
  nsEncode :: "'t \<Rightarrow> ('s, 'd err, 'b \<times> 'd cid) op"
  nsDecode :: "'b \<Rightarrow> 'd err + 't"
  nsLen :: "'b \<Rightarrow> nat"
  nsCache :: "'s \<Rightarrow> ('v, 'd) nodeCache option"
  nsSetCache :: "('v, 'd) nodeCache \<Rightarrow> 's \<Rightarrow> 's"
  nsAny :: "'t \<Rightarrow> 'v"
  nsAssert :: "'v \<Rightarrow> 't option"

definition cacheLookup :: "('s, 't, 'v, 'b, 'd) nodeStore \<Rightarrow> 'd cid \<Rightarrow> ('s, 'd err, 't option) op" where
  "cacheLookup ns c s = (case nsCache ns s of
     None \<Rightarrow> (Inr None, s)
   | Some ca \<Rightarrow> (case cacheGet ca c of (v, ca') \<Rightarrow>
       (Inr (case v of None \<Rightarrow> None | Some x \<Rightarrow> nsAssert ns x), nsSetCache ns ca' s)))"

definition cacheRemember :: "('s, 't, 'v, 'b, 'd) nodeStore \<Rightarrow> 'd cid \<Rightarrow> 't \<Rightarrow> nat \<Rightarrow> 's \<Rightarrow> 's" where
  "cacheRemember ns c node sz s = (case nsCache ns s of
     None \<Rightarrow> s
   | Some ca \<Rightarrow> nsSetCache ns (cacheAdd ca c (nsAny ns node) sz) s)"

definition decodeBlock :: "('s, 't, 'v, 'b, 'd) nodeStore \<Rightarrow> 'd cid \<Rightarrow> ('s, 'd err, 't \<times> nat) op" where
  "decodeBlock ns c =
     bind (nsGet ns c) (\<lambda>data.
     bind (liftE (nsDecode ns data)) (\<lambda>node.
     ret (node, nsLen ns data)))"

definition GetNode :: "('s, 't, 'v, 'b, 'd) nodeStore \<Rightarrow> 'd link \<Rightarrow> ('s, 'd err, 't) op" where
  "GetNode ns l = (case l of
     None \<Rightarrow> fail UndefinedCID
   | Some c \<Rightarrow>
       bind (cacheLookup ns c) (\<lambda>hit. case hit of
         Some node \<Rightarrow> ret node
       | None \<Rightarrow>
           bind (decodeBlock ns c) (\<lambda>(node, sz).
           bind (modify (cacheRemember ns c node sz)) (\<lambda>_.
           ret node))))"

definition PutNode :: "('s, 't, 'v, 'b, 'd) nodeStore \<Rightarrow> 't \<Rightarrow> ('s, 'd err, 'd cid) op" where
  "PutNode ns v =
     bind (nsEncode ns v) (\<lambda>(data, c).
     bind (nsPut ns c data) (\<lambda>_. ret c))"

section \<open>Pointers\<close>

text \<open>A \<open>*T\<close> argument may be nil: \<open>None\<close>.\<close>

record ('t, 'd) pointer =
  pCid :: "'d link"
  pVal :: "'t option"
  pDirty :: bool

definition Pointer :: "'d link \<Rightarrow> ('t, 'd) pointer" where
  "Pointer c = \<lparr>pCid = c, pVal = None, pDirty = False\<rparr>"

definition NewNode :: "'t option \<Rightarrow> ('t, 'd) pointer" where
  "NewNode v = \<lparr>pCid = None, pVal = v, pDirty = True\<rparr>"

definition IsDirty :: "('t, 'd) pointer \<Rightarrow> bool" where
  "IsDirty p = pDirty p"

definition IsLoaded :: "('t, 'd) pointer \<Rightarrow> bool" where
  "IsLoaded p \<longleftrightarrow> pVal p \<noteq> None"

definition CID :: "('t, 'd) pointer \<Rightarrow> 'd err + 'd cid" where
  "CID p = (if pDirty p then Inl ErrDirty
     else case pCid p of None \<Rightarrow> Inl ErrEmpty | Some c \<Rightarrow> Inr c)"

text \<open>\<open>Load\<close>, \<open>Mutate\<close> and \<open>Commit\<close> update the pointer in place; the model returns the updated pointer
  beside the value.\<close>

definition Load :: "('s, 't, 'v, 'b, 'd) nodeStore \<Rightarrow> ('t, 'd) pointer \<Rightarrow> ('s, 'd err, 't \<times> ('t, 'd) pointer) op" where
  "Load ns p = (case pVal p of
     Some v \<Rightarrow> ret (v, p)
   | None \<Rightarrow>
       if pCid p = None then fail ErrEmpty
       else bind (GetNode ns (pCid p)) (\<lambda>v. ret (v, p\<lparr>pVal := Some v\<rparr>)))"

definition Mutate :: "('s, 't, 'v, 'b, 'd) nodeStore \<Rightarrow> ('t, 'd) pointer \<Rightarrow> ('s, 'd err, 't option \<times> ('t, 'd) pointer) op" where
  "Mutate ns p =
     (if pDirty p then ret (pVal p, p)
      else case pCid p of
        None \<Rightarrow> fail ErrEmpty
      | Some c \<Rightarrow> bind (decodeBlock ns c) (\<lambda>(v, _). ret (Some v, \<lparr>pCid = None, pVal = Some v, pDirty = True\<rparr>)))"

text \<open>A write through the pointer that \<open>Mutate\<close> returned.\<close>

definition Assign :: "'t \<Rightarrow> ('t, 'd) pointer \<Rightarrow> ('t, 'd) pointer" where
  "Assign v p = p\<lparr>pVal := Some v\<rparr>"

definition SetNode :: "'t option \<Rightarrow> ('t, 'd) pointer \<Rightarrow> ('t, 'd) pointer" where
  "SetNode v p = \<lparr>pCid = None, pVal = v, pDirty = True\<rparr>"

definition Commit :: "('s, 't, 'v, 'b, 'd) nodeStore \<Rightarrow> ('t, 'd) pointer \<Rightarrow> ('s, 'd err, 'd cid \<times> ('t, 'd) pointer) op" where
  "Commit ns p =
     (if \<not> pDirty p then bind (liftE (CID p)) (\<lambda>c. ret (c, p))
      else case pVal p of
        None \<Rightarrow> fail ErrEmpty
      | Some v \<Rightarrow> bind (PutNode ns v) (\<lambda>c. ret (c, p\<lparr>pCid := Some c, pDirty := False\<rparr>)))"

section \<open>Accounting of the cache\<close>

text \<open>The counter is the cost of what is held, and no CID is held twice.\<close>

definition cacheInv :: "('v, 'd) nodeCache \<Rightarrow> bool" where
  "cacheInv c \<longleftrightarrow> distinct (map fst (lru c)) \<and> cbytes c = (\<Sum>e\<leftarrow>lru c. snd (snd e)) \<and>
     (\<forall>e\<in>set (lru c). 0 \<le> snd (snd e)) \<and> 0 < budget c"

lemma sum_list_without:
  assumes "distinct (map fst es)"
  shows "(\<Sum>e\<leftarrow>lruWithout k es. snd (snd e)) =
    (\<Sum>e\<leftarrow>es. snd (snd e)) - (case map_of es k of None \<Rightarrow> 0 | Some (_, cost) \<Rightarrow> (cost :: int))"
  using assms
proof (induction es)
  case (Cons e es)
  show ?case
  proof (cases "fst e = k")
    case True
    with Cons.prems have "map_of es k = None" by (auto simp: map_of_eq_None_iff)
    with Cons True show ?thesis by (cases e) (auto simp: lruWithout_def)
  qed (use Cons in \<open>cases e; auto simp: lruWithout_def\<close>)
qed (simp add: lruWithout_def)

lemma lruWithout_facts:
  "set (lruWithout k es) \<subseteq> set es" "k \<notin> fst ` set (lruWithout k es)"
  by (auto simp: lruWithout_def)

lemma lruWithout_distinct: "distinct (map fst es) \<Longrightarrow> distinct (map fst (lruWithout k es))"
  by (auto simp: lruWithout_def distinct_map_filter)

lemma cacheEvict_prefix: "set (lru (cacheEvict c)) \<subseteq> set (lru c) \<and> budget (cacheEvict c) = budget c"
proof (induction c rule: cacheEvict.induct)
  case (1 c)
  then show ?case
    by (cases "cbytes c \<le> budget c \<or> lru c = []") (auto simp: cacheEvict.simps [of c] dest!: in_set_butlastD)
qed

lemma cacheInv_drop_last:
  assumes "cacheInv c" "lru c \<noteq> []"
  shows "cacheInv (c\<lparr>lru := butlast (lru c), cbytes := cbytes c - snd (snd (last (lru c)))\<rparr>)"
proof -
  obtain es e where "lru c = es @ [e]" using assms(2) by (metis append_butlast_last_id)
  with assms(1) show ?thesis by (auto simp: cacheInv_def)
qed

lemma cacheEvict_inv: "cacheInv c \<Longrightarrow> cacheInv (cacheEvict c) \<and> cbytes (cacheEvict c) \<le> budget c"
proof (induction c rule: cacheEvict.induct)
  case (1 c)
  show ?case
  proof (cases "cbytes c \<le> budget c \<or> lru c = []")
    case True
    then have "cbytes c \<le> budget c" using "1.prems" by (auto simp: cacheInv_def)
    with True "1.prems" show ?thesis by (simp add: cacheEvict.simps [of c])
  next
    case False
    with 1 cacheInv_drop_last [of c] show ?thesis by (simp add: cacheEvict.simps [of c])
  qed
qed

lemma cacheAdd_inv:
  assumes "cacheInv c"
  shows "cacheInv (cacheAdd c k v n)" "cbytes (cacheAdd c k v n) \<le> budget c"
proof -
  let ?c = "c\<lparr>lru := (k, v, int n) # lruWithout k (lru c),
    cbytes := (case map_of (lru c) k of Some (_, old) \<Rightarrow> cbytes c - old | None \<Rightarrow> cbytes c) + int n\<rparr>"
  have "cacheInv ?c"
    using assms lruWithout_facts [of k "lru c"] lruWithout_distinct [of "lru c" k] sum_list_without [of "lru c" k]
    by (auto simp: cacheInv_def split: option.splits)
  from cacheEvict_inv [OF this] show "cacheInv (cacheAdd c k v n)" "cbytes (cacheAdd c k v n) \<le> budget c"
    by (simp_all add: cacheAdd_def Let_def)
qed

lemma cacheGet_inv:
  assumes "cacheInv c" "cacheGet c k = (r, c')"
  shows "cacheInv c'" "cbytes c' = cbytes c"
proof -
  have "cacheInv c' \<and> cbytes c' = cbytes c"
  proof (cases "map_of (lru c) k")
    case (Some e)
    obtain v cost where e: "e = (v, cost)" by (cases e)
    with Some have "(k, v, cost) \<in> set (lru c)" by (simp add: map_of_SomeD)
    then have cost: "0 \<le> cost" using assms(1) by (force simp: cacheInv_def)
    have c': "c' = c\<lparr>lru := (k, v, cost) # lruWithout k (lru c)\<rparr>"
      using assms(2) Some e by (simp add: cacheGet_def)
    have "(\<Sum>e\<leftarrow>lruWithout k (lru c). snd (snd e)) = (\<Sum>e\<leftarrow>lru c. snd (snd e)) - cost"
      using sum_list_without [of "lru c" k] assms(1) Some e by (simp add: cacheInv_def)
    with assms(1) cost lruWithout_facts [of k "lru c"] lruWithout_distinct [of "lru c" k] show ?thesis
      by (auto simp: cacheInv_def c')
  qed (use assms in \<open>auto simp: cacheGet_def\<close>)
  then show "cacheInv c'" "cbytes c' = cbytes c" by simp_all
qed

text \<open>The caches a process can hold.\<close>

inductive cacheRun :: "int \<Rightarrow> ('v, 'd) nodeCache \<Rightarrow> bool" for b where
  made: "NewNodeCache b = Some c \<Longrightarrow> cacheRun b c"
| got: "cacheRun b c \<Longrightarrow> cacheGet c k = (r, c') \<Longrightarrow> cacheRun b c'"
| added: "cacheRun b c \<Longrightarrow> cacheRun b (cacheAdd c k v n)"
| purged: "cacheRun b c \<Longrightarrow> cacheRun b (cachePurge c)"

lemma cacheRun_inv: "cacheRun b c \<Longrightarrow> cacheInv c \<and> cbytes c \<le> b \<and> budget c = b"
proof (induction rule: cacheRun.induct)
  case (made c)
  then show ?case by (auto simp: NewNodeCache_def cacheInv_def split: if_splits)
next
  case (got c k r c')
  then show ?case using cacheGet_inv [of c k r c'] by (auto simp: cacheGet_def split: option.splits)
next
  case (added c k v n)
  then show ?case using cacheAdd_inv [of c k v n] cacheEvict_prefix by (metis (no_types, lifting) cacheAdd_def nodeCache.select_convs nodeCache.surjective nodeCache.update_convs)
next
  case (purged c)
  then show ?case by (auto simp: cachePurge_def cacheInv_def)
qed

lemma cacheEvict_head:
  assumes "cacheInv c" "lru c = e # es" "snd (snd e) \<le> budget c"
  shows "\<exists>es'. lru (cacheEvict c) = e # es'"
  using assms
proof (induction c arbitrary: es rule: cacheEvict.induct)
  case (1 c)
  show ?case
  proof (cases "cbytes c \<le> budget c \<or> lru c = []")
    case True
    then show ?thesis using 1 by (simp add: cacheEvict.simps [of c])
  next
    case False
    let ?c = "c\<lparr>lru := butlast (lru c), cbytes := cbytes c - snd (snd (last (lru c)))\<rparr>"
    have "es \<noteq> []" using False 1 by (auto simp: cacheInv_def)
    then have "\<exists>es'. lru (cacheEvict ?c) = e # es'" using 1 cacheInv_drop_last [of c] False
      by (intro "1.IH" [of "butlast es"]) auto
    then show ?thesis using False by (simp add: cacheEvict.simps [of c])
  qed
qed

text \<open>A cache is sound for a relation between CIDs and values if every entry it holds is in the relation.
  Hits answer from the relation, and adding a related entry keeps the cache sound whatever is evicted.\<close>

definition cacheSound :: "('d cid \<Rightarrow> 'v \<Rightarrow> bool) \<Rightarrow> ('v, 'd) nodeCache \<Rightarrow> bool" where
  "cacheSound rel c \<longleftrightarrow> (\<forall>(k, v, _)\<in>set (lru c). rel k v)"

lemma cacheGet_sound:
  assumes "cacheSound rel c" "cacheGet c k = (r, c')"
  shows "cacheSound rel c'" "r = Some v \<Longrightarrow> rel k v"
  using assms lruWithout_facts(1) [of k "lru c"]
  by (fastforce simp: cacheSound_def cacheGet_def split: option.splits dest: map_of_SomeD)+

lemma cacheAdd_sound: "cacheSound rel c \<Longrightarrow> rel k v \<Longrightarrow> cacheSound rel (cacheAdd c k v n)"
  using lruWithout_facts(1) [of k "lru c"]
    cacheEvict_prefix [of "c\<lparr>lru := (k, v, int n) # lruWithout k (lru c), cbytes := held\<rparr>" for held]
  by (fastforce simp: cacheSound_def cacheAdd_def Let_def)

lemma cacheSound_mono: "cacheSound rel c \<Longrightarrow> (\<And>k v. rel k v \<Longrightarrow> rel' k v) \<Longrightarrow> cacheSound rel' c"
  by (fastforce simp: cacheSound_def)

section \<open>The contract of a node store\<close>

text \<open>What a client of a node store may rely on. \<open>R\<close> relates a state to its later ones, \<open>names L s c v\<close> says
  that \<open>c\<close> is the CID of \<open>v\<close> and its block is held, and \<open>env\<close> collects the failures that are not the
  program's: a fault of the medium, a node over the size limit and, when \<open>big\<close> is allowed, a value that does
  not \<open>fit\<close> the encoding.\<close>

locale node_store =
  fixes ok :: "'p \<Rightarrow> bool"
    and ns :: "'p \<Rightarrow> ('s, 't, 'v, 'b, 'd) nodeStore"
    and R :: "'p \<Rightarrow> 's \<Rightarrow> 's \<Rightarrow> bool"
    and inv :: "'p \<Rightarrow> 's \<Rightarrow> bool"
    and names :: "'p \<Rightarrow> 's \<Rightarrow> 'd cid \<Rightarrow> 't \<Rightarrow> bool"
    and env :: "'p \<Rightarrow> bool \<Rightarrow> 's \<Rightarrow> 'd err \<Rightarrow> bool"
    and canon :: "'t \<Rightarrow> 't"
    and valid :: "'t \<Rightarrow> bool"
    and fits :: "'t \<Rightarrow> bool"
  assumes R_refl: "R L s s"
    and R_trans: "R L s t \<Longrightarrow> R L t u \<Longrightarrow> R L s u"
    and inv_R: "R L s t \<Longrightarrow> inv L s \<Longrightarrow> inv L t"
    and names_R: "R L s t \<Longrightarrow> names L s c v \<Longrightarrow> names L t c v"
    and env_R: "R L s t \<Longrightarrow> env L big t = env L big s"
    and canon_idem: "canon (canon v) = canon v"
    and decode_law: "ok L \<Longrightarrow> names L s c v \<Longrightarrow>
      wp (decodeBlock (ns L) c) (env L big s) (\<lambda>(x, n) t. x = canon v \<and> R L s t) s"
    and get_law: "ok L \<Longrightarrow> inv L s \<Longrightarrow> names L s c v \<Longrightarrow>
      wp (GetNode (ns L) (Some c)) (env L big s) (\<lambda>x t. x = canon v \<and> R L s t) s"
    and put_law: "ok L \<Longrightarrow> valid v \<Longrightarrow> big \<or> fits v \<Longrightarrow>
      wp (PutNode (ns L) v) (env L big s) (\<lambda>c t. names L t c v \<and> R L s t) s"
    and decode_keeps: "keeps (R L) (decodeBlock (ns L) c)"
    and get_keeps: "keeps (R L) (GetNode (ns L) l)"
    and put_keeps: "ok L \<Longrightarrow> keeps (R L) (PutNode (ns L) v)"
begin

lemma R_preorder: "reflp (R L)" "transp (R L)"
  using R_refl R_trans by (auto intro!: reflpI transpI)

lemmas keeps_intros =
  keeps_pure [OF R_preorder(1)] keeps_bind [OF R_preorder(2)] decode_keeps get_keeps put_keeps

lemma Load_keeps: "keeps (R L) (Load (ns L) p)"
  unfolding Load_def by (auto split: option.splits intro!: keeps_intros)

lemma Mutate_keeps: "keeps (R L) (Mutate (ns L) p)"
  unfolding Mutate_def by (auto split: option.splits prod.splits intro!: keeps_intros)

lemma Commit_keeps: "ok L \<Longrightarrow> keeps (R L) (Commit (ns L) p)"
  unfolding Commit_def by (auto split: option.splits intro!: keeps_intros)

text \<open>The node a pointer stands for: its value if it is dirty, else the node its CID names.\<close>

definition denotes :: "'p \<Rightarrow> 's \<Rightarrow> ('t, 'd) pointer \<Rightarrow> 't \<Rightarrow> bool" where
  "denotes L s p v \<longleftrightarrow>
     (if pDirty p then pCid p = None \<and> pVal p = Some v
      else (\<exists>c. pCid p = Some c \<and> names L s c v) \<and> (pVal p = None \<or> pVal p = Some (canon v)))"

lemma denotes_R: "R L s t \<Longrightarrow> denotes L s p v \<Longrightarrow> denotes L t p v"
  unfolding denotes_def using names_R [of L s t _ v] by (auto split: if_splits)

lemma denotes_NewNode: "denotes L s (NewNode (Some v)) v"
  by (simp add: denotes_def NewNode_def)

lemma denotes_Pointer: "names L s c v \<Longrightarrow> denotes L s (Pointer (Some c)) v"
  by (simp add: denotes_def Pointer_def)

lemma Load_law:
  assumes "ok L" "inv L s" "denotes L s p v"
    and post: "\<And>x q t. canon x = canon v \<Longrightarrow> R L s t \<Longrightarrow> denotes L t q v \<Longrightarrow> pDirty q = pDirty p \<Longrightarrow>
      pVal q = Some x \<Longrightarrow> Q (x, q) t"
  shows "wp (Load (ns L) p) (env L big s) Q s"
proof (cases "pVal p")
  case (Some x)
  then have "canon x = canon v" using assms(3) by (auto simp: denotes_def canon_idem split: if_splits)
  with Some post [OF _ R_refl assms(3)] show ?thesis by (simp add: Load_def)
next
  case None
  then obtain c where c: "pCid p = Some c" "names L s c v" "\<not> pDirty p"
    using assms(3) by (auto simp: denotes_def split: if_splits)
  have "wp (GetNode (ns L) (Some c)) (env L big s) (\<lambda>x t. Q (x, p\<lparr>pVal := Some x\<rparr>) t) s"
    by (rule wp_mono [OF get_law [OF assms(1,2) c(2)]])
      (use c in \<open>auto intro!: post simp: denotes_def canon_idem intro: names_R\<close>)
  with None c show ?thesis by (simp add: Load_def)
qed

lemma Mutate_law:
  assumes "ok L" "denotes L s p v"
    and post: "\<And>x q t. canon x = canon v \<Longrightarrow> R L s t \<Longrightarrow> pDirty q \<Longrightarrow> pCid q = None \<Longrightarrow> Q (Some x, q) t"
  shows "wp (Mutate (ns L) p) (env L big s) Q s"
proof (cases "pDirty p")
  case True
  with assms(2) post [OF _ R_refl] show ?thesis by (auto simp: Mutate_def denotes_def)
next
  case False
  then obtain c where c: "pCid p = Some c" "names L s c v" using assms(2) by (auto simp: denotes_def)
  have "wp (decodeBlock (ns L) c) (env L big s)
    (\<lambda>(x, _) t. Q (Some x, \<lparr>pCid = None, pVal = Some x, pDirty = True\<rparr>) t) s"
    by (rule wp_mono [OF decode_law [OF assms(1) c(2)]]) (auto intro!: post simp: canon_idem)
  then show ?thesis using False c by (auto simp: Mutate_def case_prod_unfold)
qed

lemma Commit_law:
  assumes "ok L" "denotes L s p v" "pDirty p \<Longrightarrow> valid v" "pDirty p \<Longrightarrow> big \<or> fits v"
    and post: "\<And>c q t. names L t c v \<Longrightarrow> R L s t \<Longrightarrow> Q (c, q) t"
  shows "wp (Commit (ns L) p) (env L big s) Q s"
proof (cases "pDirty p")
  case True
  with assms(2) have v: "pVal p = Some v" by (simp add: denotes_def)
  have "wp (PutNode (ns L) v) (env L big s) (\<lambda>c t. Q (c, p\<lparr>pCid := Some c, pDirty := False\<rparr>) t) s"
    by (rule wp_mono [OF put_law [OF assms(1) assms(3,4) [OF True]]]) (auto intro: post)
  with True v show ?thesis by (simp add: Commit_def)
next
  case False
  then obtain c where c: "pCid p = Some c" "names L s c v" using assms(2) by (auto simp: denotes_def)
  with False post [OF c(2) R_refl] show ?thesis by (simp add: Commit_def CID_def)
qed

end

section \<open>A node store over blocks and a sound cache\<close>

text \<open>The provider's side: a block store whose reads return what is held, a codec, and a cache whose hits
  decode the held block. Such a store meets the contract, with or without a cache.\<close>

locale cached_nodes =
  fixes ok :: "'p \<Rightarrow> bool"
    and ns :: "'p \<Rightarrow> ('s, 't, 'v, 'b, 'd) nodeStore"
    and R :: "'p \<Rightarrow> 's \<Rightarrow> 's \<Rightarrow> bool"
    and inv :: "'p \<Rightarrow> 's \<Rightarrow> bool"
    and holds :: "'p \<Rightarrow> 's \<Rightarrow> 'd cid \<Rightarrow> 'b \<Rightarrow> bool"
    and encodes :: "'p \<Rightarrow> 't \<Rightarrow> 'b \<Rightarrow> 'd cid \<Rightarrow> bool"
    and env :: "'p \<Rightarrow> bool \<Rightarrow> 's \<Rightarrow> 'd err \<Rightarrow> bool"
    and canon :: "'t \<Rightarrow> 't"
    and valid :: "'t \<Rightarrow> bool"
    and fits :: "'t \<Rightarrow> bool"
  assumes R_refl: "R L s s"
    and R_trans: "R L s t \<Longrightarrow> R L t u \<Longrightarrow> R L s u"
    and inv_R: "R L s t \<Longrightarrow> inv L s \<Longrightarrow> inv L t"
    and holds_R: "R L s t \<Longrightarrow> holds L s c b \<Longrightarrow> holds L t c b"
    and env_R: "R L s t \<Longrightarrow> env L big t = env L big s"
    and canon_idem: "canon (canon v) = canon v"
    and decodes: "ok L \<Longrightarrow> encodes L v b c \<Longrightarrow> nsDecode (ns L) b = Inr (canon v)"
    and get_block: "holds L s c b \<Longrightarrow> wp (nsGet (ns L) c) (env L big s) (\<lambda>x t. x = b \<and> t = s) s"
    and get_held: "nsGet (ns L) c s = (Inr b, t) \<Longrightarrow> holds L t c b"
    and get_same: "nsGet (ns L) c s = (r, t) \<Longrightarrow> t = s"
    and lookup_keeps: "keeps (R L) (cacheLookup (ns L) c)"
    and lookup_hit: "inv L s \<Longrightarrow> holds L s c b \<Longrightarrow> cacheLookup (ns L) c s = (Inr (Some x), t) \<Longrightarrow>
      nsDecode (ns L) b = Inr x"
    and remember_R: "holds L s c b \<Longrightarrow> nsDecode (ns L) b = Inr x \<Longrightarrow> R L s (cacheRemember (ns L) c x n s)"
    and put_encoded: "ok L \<Longrightarrow> valid v \<Longrightarrow> big \<or> fits v \<Longrightarrow>
      wp (PutNode (ns L) v) (env L big s) (\<lambda>c t. \<exists>b. encodes L v b c \<and> holds L t c b) s"
    and put_R: "ok L \<Longrightarrow> keeps (R L) (PutNode (ns L) v)"
begin

lemma decode_R: "keeps (R L) (decodeBlock (ns L) c)"
  unfolding decodeBlock_def
  using get_same R_refl by (fastforce simp: keeps_def bind_def split: prod.splits sum.splits)

lemma decode_held:
  assumes "decodeBlock (ns L) c s = (Inr (x, n), t)"
  shows "\<exists>b. holds L t c b \<and> nsDecode (ns L) b = Inr x"
  using assms by (auto simp: decodeBlock_def bind_Inr_iff dest!: get_held)

lemma lookup_total: "\<exists>r t. cacheLookup (ns L) c s = (Inr r, t)"
  by (auto simp: cacheLookup_def split: option.splits prod.splits)

lemma miss_R:
  "keeps (R L) (bind (decodeBlock (ns L) c) (\<lambda>(x, n). bind (modify (cacheRemember (ns L) c x n)) (\<lambda>_. ret x)))"
proof (rule keepsI)
  fix s r t
  assume run: "bind (decodeBlock (ns L) c) (\<lambda>(x, n). bind (modify (cacheRemember (ns L) c x n)) (\<lambda>_. ret x)) s = (r, t)"
  obtain d u where d: "decodeBlock (ns L) c s = (d, u)" by fastforce
  have su: "R L s u" using decode_R d by (rule keepsD)
  show "R L s t"
  proof (cases d)
    case (Inr a)
    obtain x n where a: "a = (x, n)" by (cases a)
    obtain b where "holds L u c b" "nsDecode (ns L) b = Inr x" using decode_held d Inr a by blast
    then have "R L u (cacheRemember (ns L) c x n u)" by (rule remember_R)
    with su run d Inr a show ?thesis by (auto intro: R_trans simp: bind_def)
  qed (use run d su in simp)
qed

lemma get_R: "keeps (R L) (GetNode (ns L) l)"
proof -
  have R: "reflp (R L)" "transp (R L)" using R_refl R_trans by (auto intro!: reflpI transpI)
  show ?thesis
    unfolding GetNode_def
    by (auto split: option.splits intro!: keeps_pure [OF R(1)] keeps_bind [OF R(2)] lookup_keeps miss_R)
qed

lemma get_named:
  assumes "ok L" "inv L s" "encodes L v b c" "holds L s c b"
  shows "wp (GetNode (ns L) (Some c)) (env L big s) (\<lambda>x t. x = canon v \<and> R L s t) s"
proof -
  obtain r u where look: "cacheLookup (ns L) c s = (Inr r, u)" using lookup_total by blast
  have su: "R L s u" using lookup_keeps look by (rule keepsD)
  have dec: "nsDecode (ns L) b = Inr (canon v)" using assms(1,3) by (rule decodes)
  have "wp (GetNode (ns L) (Some c)) (env L big s) (\<lambda>x t. x = canon v) s"
  proof (cases r)
    case (Some x)
    then show ?thesis using lookup_hit [OF assms(2,4)] look dec by (simp add: GetNode_def wp_def)
  next
    case None
    have "wp (nsGet (ns L) c) (env L big u) (\<lambda>x t. x = b \<and> t = u) u"
      using holds_R [OF su assms(4)] by (rule get_block)
    then show ?thesis
      using None look dec env_R [OF su] unfolding GetNode_def decodeBlock_def
      by (auto simp: wp_def bind_def split: prod.splits sum.splits)
  qed
  then show ?thesis using get_R by (rule wp_conj_keeps)
qed

lemma decode_named:
  assumes "ok L" "encodes L v b c" "holds L s c b"
  shows "wp (decodeBlock (ns L) c) (env L big s) (\<lambda>(x, n) t. x = canon v \<and> R L s t) s"
  unfolding decodeBlock_def using get_block [OF assms(3)] decodes [OF assms(1,2)] R_refl
  by (auto simp: wp_def bind_def split: prod.splits sum.splits)

end

sublocale cached_nodes \<subseteq> store: node_store ok ns R inv "\<lambda>L s c v. \<exists>b. encodes L v b c \<and> holds L s c b" env canon valid fits
proof
  fix L s v big assume "ok L" "valid v" "big \<or> fits v"
  then show "wp (PutNode (ns L) v) (env L big s) (\<lambda>c t. (\<exists>b. encodes L v b c \<and> holds L t c b) \<and> R L s t) s"
    by (intro wp_conj_keeps put_encoded put_R)
qed (auto intro: R_refl R_trans inv_R holds_R env_R canon_idem decode_R get_R put_R get_named decode_named)

end
