(* ===== verification/Arith.thy ===== *)
theory Arith
  imports Prelude
begin

text \<open>
  The address arithmetic of \<open>archive/arith.go\<close>, on machine words as the source has it, and what it computes
  on natural numbers: windows of \<open>2 ^ segBits\<close> slots, directory capacity and canonical depth, and the digits
  of a directory index.
\<close>

section \<open>The source's functions\<close>

definition ord :: "u64 \<Rightarrow> u64 \<Rightarrow> u64" where
  "ord slot segBits = drop_bit (unat segBits) slot"

definition windowStart :: "u64 \<Rightarrow> u64 \<Rightarrow> u64" where
  "windowStart w segBits = push_bit (unat segBits) w"

definition windowEnd :: "u64 \<Rightarrow> u64 \<Rightarrow> u64" where
  "windowEnd w segBits = push_bit (unat segBits) (w + 1) - 1"

definition capacity :: "u64 \<Rightarrow> u64 \<Rightarrow> u64" where
  "capacity d fanoutBits =
     (let bits = fanoutBits * d
      in if fanoutBits \<noteq> 0 \<and> bits div fanoutBits \<noteq> d then maxUint64
         else if 64 \<le> bits then maxUint64
         else push_bit (unat bits) 1)"

text \<open>\<open>bits.Len64\<close>: the number of bits needed to represent a number.\<close>

fun Len64 :: "nat \<Rightarrow> nat" where
  "Len64 n = (if n = 0 then 0 else Suc (Len64 (n div 2)))"

declare Len64.simps [simp del]

definition canonicalDepth :: "u64 \<Rightarrow> u64 \<Rightarrow> u64" where
  "canonicalDepth n fanoutBits =
     (if n = 0 then 0
      else let needed = of_nat (Len64 (unat (n - 1)))
           in if needed = 0 then 1 else (needed + fanoutBits - 1) div fanoutBits)"

text \<open>The unbounded loop of \<open>canonicalDirectoryPages\<close>, with the number of iterations it may still take. Some
  depth of at most 64 reaches any count as long as \<open>fanoutBits\<close> is not zero, so 64 iterations are enough; with
  \<open>fanoutBits = 0\<close> the source would not return for \<open>n > 1\<close>, which is \<open>None\<close> here.\<close>

fun dirPagesLoop :: "nat \<Rightarrow> u64 \<Rightarrow> u64 \<Rightarrow> u64 \<Rightarrow> u64 \<Rightarrow> u64 option" where
  "dirPagesLoop 0 n fanoutBits depth pages = None"
| "dirPagesLoop (Suc fuel) n fanoutBits depth pages =
     (let cap = capacity depth fanoutBits;
          atDepth = (if cap < n then 1 + (n - 1) div cap else 1)
      in if maxUint64 - atDepth < pages then Some maxUint64
         else if n \<le> cap then Some (pages + atDepth)
         else dirPagesLoop fuel n fanoutBits (depth + 1) (pages + atDepth))"

definition canonicalDirectoryPages :: "u64 \<Rightarrow> u64 \<Rightarrow> u64 option" where
  "canonicalDirectoryPages n fanoutBits =
     (if n = 0 then Some 0 else dirPagesLoop 64 n fanoutBits 1 0)"

fun digitsLoop :: "nat \<Rightarrow> u64 \<Rightarrow> u64 \<Rightarrow> u64 \<Rightarrow> u64 list \<Rightarrow> u64 list \<times> u64" where
  "digitsLoop 0 mask' fanoutBits rest digits = (digits, rest)"
| "digitsLoop (Suc level) mask' fanoutBits rest digits =
     digitsLoop level mask' fanoutBits (drop_bit (unat fanoutBits) rest) ((rest AND mask') # digits)"

definition pathDigits :: "u64 \<Rightarrow> u64 \<Rightarrow> u64 \<Rightarrow> u64 list option" where
  "pathDigits i depth fanoutBits =
     (if depth = 0 then (if i = 0 then Some [] else None)
      else if 64 < depth then None
      else case digitsLoop (unat depth) (push_bit (unat fanoutBits) 1 - 1) fanoutBits i [] of
        (digits, rest) \<Rightarrow> if rest \<noteq> 0 then None else Some digits)"

definition allZero :: "u64 list \<Rightarrow> bool" where
  "allZero digits = list_all (\<lambda>d. d = 0) digits"

section \<open>Windows\<close>

lemma unat_ord: "unat (ord s k) = unat s div 2 ^ unat k"
  by (simp add: ord_def unat_drop_bit_u64)

lemma ord_mono: "s \<le> s' \<Longrightarrow> ord s k \<le> ord s' k"
  by (simp add: word_le_nat_alt unat_ord div_le_mono)

lemma ord_le: "ord s k \<le> s"
  by (simp add: word_le_nat_alt unat_ord)

text \<open>The windows that exist: those some slot lies in.\<close>

definition windowOk :: "u64 \<Rightarrow> u64 \<Rightarrow> bool" where
  "windowOk k w \<longleftrightarrow> k \<le> 63 \<and> unat w < 2 ^ (64 - unat k)"

lemma pow_split: "unat (k :: u64) \<le> 63 \<Longrightarrow> (2 :: nat) ^ (64 - unat k) * 2 ^ unat k = 18446744073709551616"
  by (simp flip: power_add)

lemma windowOk_ord: "k \<le> 63 \<Longrightarrow> windowOk k (ord s k)"
  using pow_split [of k] unat_u64_less [of s]
  by (simp add: windowOk_def unat_ord word_le_nat_alt less_mult_imp_div_less)

lemma windowOk_le: "windowOk k w \<Longrightarrow> v \<le> w \<Longrightarrow> windowOk k v"
  by (simp add: windowOk_def word_le_nat_alt)

lemma windowOk_bound:
  assumes "windowOk k w"
  shows "Suc (unat w) * 2 ^ unat k \<le> 18446744073709551616"
proof -
  have "unat k \<le> 63" using assms by (simp add: windowOk_def word_le_nat_alt)
  moreover have "Suc (unat w) * 2 ^ unat k \<le> 2 ^ (64 - unat k) * 2 ^ unat k"
    using assms by (intro mult_right_mono) (auto simp: windowOk_def)
  ultimately show ?thesis using pow_split by simp
qed

lemma unat_windowStart:
  assumes "windowOk k w"
  shows "unat (windowStart w k) = unat w * 2 ^ unat k"
proof -
  have "unat w * 2 ^ unat k < Suc (unat w) * 2 ^ unat k" by simp
  also note windowOk_bound [OF assms]
  finally show ?thesis unfolding windowStart_def by (rule unat_push_bit_u64)
qed

lemma unat_windowEnd:
  assumes "windowOk k w"
  shows "unat (windowEnd w k) = Suc (unat w) * 2 ^ unat k - 1"
proof -
  let ?e = "Suc (unat w) * 2 ^ unat k"
  have "push_bit (unat k) (w + 1) = (of_nat ?e :: u64)"
    by (simp add: push_bit_eq_mult algebra_simps)
  then have we: "windowEnd w k = of_nat ?e - 1" by (simp add: windowEnd_def)
  have pos: "0 < ?e" by simp
  then have "of_nat ?e - 1 = (of_nat (?e - 1) :: u64)" by (metis Suc_pred' of_nat_Suc add_diff_cancel_left')
  with we have "windowEnd w k = of_nat (?e - 1)" by simp
  moreover have "?e - 1 < 18446744073709551616" using windowOk_bound [OF assms] pos by linarith
  ultimately show ?thesis by (simp only: unat_of_nat_u64)
qed

lemma ord_eq_iff:
  assumes "windowOk k w"
  shows "ord s k = w \<longleftrightarrow> windowStart w k \<le> s \<and> s \<le> windowEnd w k"
proof -
  have "ord s k = w \<longleftrightarrow> unat s div 2 ^ unat k = unat w" by (simp add: u64_eq_iff unat_ord)
  also have "\<dots> \<longleftrightarrow> unat w * 2 ^ unat k \<le> unat s \<and> unat s < Suc (unat w) * 2 ^ unat k"
    by (metis div_nat_eqI dividend_less_times_div mult.commute mult_Suc_right times_div_less_eq_dividend zero_less_numeral zero_less_power)
  also have "\<dots> \<longleftrightarrow> windowStart w k \<le> s \<and> s \<le> windowEnd w k"
    using zero_less_power [of "2 :: nat" "unat k"]
    unfolding word_le_nat_alt unat_windowStart [OF assms] unat_windowEnd [OF assms] mult_Suc by linarith
  finally show ?thesis .
qed

lemma ord_windowStart: "windowOk k w \<Longrightarrow> ord (windowStart w k) k = w"
  by (simp add: u64_eq_iff unat_ord unat_windowStart)

lemma windowStart_le: "k \<le> 63 \<Longrightarrow> windowStart (ord s k) k \<le> s"
  using ord_eq_iff [OF windowOk_ord, of k s s] by simp

lemma windowEnd_le_iff:
  assumes "windowOk k w" "s < maxUint64"
  shows "windowEnd w k \<le> s \<longleftrightarrow> w < ord (s + 1) k"
proof -
  have s: "unat (s + 1) = Suc (unat s)" using assms(2) by (rule unat_less_Suc_u64)
  have "w < ord (s + 1) k \<longleftrightarrow> Suc (unat w) \<le> Suc (unat s) div 2 ^ unat k"
    by (simp add: word_less_nat_alt unat_ord s Suc_le_eq)
  also have "\<dots> \<longleftrightarrow> Suc (unat w) * 2 ^ unat k \<le> Suc (unat s)"
    by (simp add: less_eq_div_iff_mult_less_eq)
  also have "\<dots> \<longleftrightarrow> windowEnd w k \<le> s"
    unfolding word_le_nat_alt unat_windowEnd [OF assms(1)] by linarith
  finally show ?thesis by simp
qed

lemma window_last:
  assumes "windowOk k w" "n < maxUint64" "w \<le> ord n k" "n < windowEnd w k"
  shows "ord n k = w" "ord (n + 1) k = w"
proof -
  have "ord n k \<le> ord (n + 1) k" using assms(2) by (intro ord_mono) (simp add: word_le_nat_alt unat_less_Suc_u64)
  moreover have "ord (n + 1) k \<le> w" using leD [of "windowEnd w k" n] assms(4) windowEnd_le_iff [OF assms(1,2)] by auto
  ultimately show "ord n k = w" "ord (n + 1) k = w" using assms(3) by simp_all
qed

lemma window_full:
  assumes "windowOk k w" "n < maxUint64" "ord n k = w" "windowEnd w k \<le> n"
  shows "ord (n + 1) k = w + 1"
proof -
  have "n = windowEnd w k" using assms(4) ord_eq_iff [OF assms(1), of n] assms(3) by simp
  then have "unat (n + 1) = Suc (unat w) * 2 ^ unat k"
    using unat_windowEnd [OF assms(1)] unat_less_Suc_u64 [OF assms(2)] by simp
  then have "unat (ord (n + 1) k) = Suc (unat w)" by (simp add: unat_ord)
  moreover have "unat (w + 1) = Suc (unat w)"
    using assms(2,3) ord_le [of n k] by (intro unat_less_Suc_u64 [of w maxUint64]) auto
  ultimately show ?thesis by (simp add: u64_eq_iff)
qed

section \<open>Directory capacity and depth\<close>

abbreviation fan :: "u64 \<Rightarrow> nat" where
  "fan fanoutBits \<equiv> 2 ^ unat fanoutBits"

text \<open>The fan-outs a head may have.\<close>

definition fanoutOk :: "u64 \<Rightarrow> bool" where
  "fanoutOk fb \<longleftrightarrow> 1 \<le> fb \<and> fb \<le> 32"

lemma fanoutOk_nat: "fanoutOk fb \<Longrightarrow> 1 \<le> unat fb \<and> unat fb \<le> 32"
  by (simp add: fanoutOk_def word_le_nat_alt)

lemma fan_ge2: "fanoutOk fb \<Longrightarrow> 2 \<le> fan fb"
  using fanoutOk_nat [of fb] power_increasing [of 1 "unat fb" "2 :: nat"] by simp

lemma unat_pow2: "j < 64 \<Longrightarrow> unat (2 ^ j :: u64) = 2 ^ j"
  using unat_push_bit_u64 [of 1 j] power_strict_increasing [of j 64 "2 :: nat"] by simp

lemma Len64_0 [simp]: "Len64 0 = 0"
  by (simp add: Len64.simps)

lemma unat_capacity:
  assumes "fanoutOk fb" "unat d \<le> 64"
  shows "unat (capacity d fb) = min (fan fb ^ unat d) 18446744073709551615"
proof -
  have f: "1 \<le> unat fb" "unat fb \<le> 32" using fanoutOk_nat [OF assms(1)] by simp_all
  have "unat fb * unat d \<le> 32 * 64" using f(2) assms(2) by (rule mult_le_mono)
  then have bits: "unat (fb * d) = unat fb * unat d" by (simp add: unat_mult_u64)
  then have "fb * d div fb = d" using f by (simp add: u64_eq_iff unat_div)
  moreover have "64 \<le> fb * d \<longleftrightarrow> 64 \<le> unat fb * unat d" by (simp add: word_le_nat_alt bits)
  moreover have "fan fb ^ unat d = 2 ^ (unat fb * unat d)" by (simp flip: power_mult)
  moreover have "64 \<le> unat fb * unat d \<Longrightarrow> 18446744073709551615 < (2 :: nat) ^ (unat fb * unat d)"
    using power_increasing [of 64 "unat fb * unat d" "2 :: nat"] by simp
  moreover have "\<not> 64 \<le> unat fb * unat d \<Longrightarrow> (2 :: nat) ^ (unat fb * unat d) \<le> 2 ^ 63"
    by (intro power_increasing) auto
  ultimately show ?thesis
    by (auto simp: capacity_def Let_def bits unat_pow2 min_def)
qed

lemma Len64_bounds: "n < 2 ^ Len64 n \<and> (n = 0 \<or> 2 ^ (Len64 n - 1) \<le> n)"
proof (induction n rule: Len64.induct)
  case (1 n)
  show ?case
  proof (cases "n = 0")
    case False
    with 1 have IH: "n div 2 < 2 ^ Len64 (n div 2)" "n div 2 = 0 \<or> 2 ^ (Len64 (n div 2) - 1) \<le> n div 2" by simp_all
    have L: "Len64 n = Suc (Len64 (n div 2))" using False by (simp add: Len64.simps [of n])
    have "2 ^ Len64 (n div 2) \<le> n"
    proof (cases "n div 2 = 0")
      case True
      then show ?thesis using False by simp
    next
      case d: False
      then have "Len64 (n div 2) = Suc (Len64 (n div 2) - 1)" by (simp add: Len64.simps [of "n div 2"])
      then have "(2 :: nat) ^ Len64 (n div 2) = 2 * 2 ^ (Len64 (n div 2) - 1)" by (metis power_Suc)
      with IH(2) d show ?thesis by linarith
    qed
    with IH L show ?thesis by simp
  qed (simp add: Len64.simps)
qed

lemma Len64_le: "n < 2 ^ m \<Longrightarrow> Len64 n \<le> m"
proof (rule ccontr)
  assume "n < 2 ^ m" "\<not> Len64 n \<le> m"
  moreover from this have "(2 :: nat) ^ m \<le> 2 ^ (Len64 n - 1)" by (intro power_increasing) auto
  ultimately show False using Len64_bounds [of n] by (metis Len64_0 le_trans le_zero_eq linorder_not_le zero_le)
qed

text \<open>The depth of a directory of \<open>n\<close> entries: the least positive \<open>d\<close> with \<open>n \<le> F ^ d\<close>.\<close>

definition depthFor :: "nat \<Rightarrow> nat \<Rightarrow> nat \<Rightarrow> bool" where
  "depthFor F n d \<longleftrightarrow> (if n = 0 then d = 0 else 1 \<le> d \<and> n \<le> F ^ d \<and> (d = 1 \<or> F ^ (d - 1) < n))"

lemma depthFor_unique:
  assumes "2 \<le> F" "depthFor F n d" "depthFor F n d'"
  shows "d = d'"
proof (rule ccontr)
  have less: "False" if "depthFor F n a" "depthFor F n b" "a < b" for a b
  proof -
    have "F ^ a \<le> F ^ (b - 1)" using that assms(1) by (intro power_increasing) auto
    with that show False by (auto simp: depthFor_def split: if_splits)
  qed
  assume "d \<noteq> d'"
  with less assms(2,3) show False by (metis linorder_neqE_nat)
qed

lemma ceil_depth:
  assumes "1 \<le> f" "0 < m" "2 ^ (m - 1) < n" "n \<le> 2 ^ m"
  shows "depthFor (2 ^ f) n ((m + f - 1) div f)" "(m + f - 1) div f \<le> m"
proof -
  let ?d = "(m + f - 1) div f"
  have up: "m \<le> f * ?d"
  proof -
    have "m + f - 1 < f * ?d + f" using assms(1) dividend_less_times_div [of f "m + f - 1"] by simp
    with assms(2) show ?thesis by linarith
  qed
  have d1: "1 \<le> ?d" using up assms(2) by (cases ?d) auto
  have "f * (?d - 1) = f * ?d - f" by (simp add: right_diff_distrib')
  moreover have "f * ?d \<le> m + f - 1" by (rule times_div_less_eq_dividend)
  ultimately have low: "f * (?d - 1) \<le> m - 1" using assms(2) by linarith
  have "n \<le> (2 ^ f) ^ ?d"
    using le_trans [OF assms(4) power_increasing [OF up]] by (simp flip: power_mult)
  moreover have "(2 ^ f) ^ (?d - 1) < n"
    using le_less_trans [OF power_increasing [OF low] assms(3)] by (simp flip: power_mult)
  ultimately show "depthFor (2 ^ f) n ?d" using d1 by (auto simp: depthFor_def)
  have "m + f - 1 \<le> m * f" using assms(1,2) by (cases m; cases f) auto
  from div_le_mono [OF this, of f] show "?d \<le> m" using assms(1) by simp
qed

lemma canonicalDepth_depthFor:
  assumes "fanoutOk fb"
  shows "depthFor (fan fb) (unat n) (unat (canonicalDepth n fb))" "unat (canonicalDepth n fb) \<le> 64"
proof -
  have "depthFor (fan fb) (unat n) (unat (canonicalDepth n fb)) \<and> unat (canonicalDepth n fb) \<le> 64"
  proof (cases "n = 0")
    case False
    let ?f = "unat fb" and ?m = "Len64 (unat (n - 1))"
    have f: "1 \<le> ?f" "?f \<le> 32" using fanoutOk_nat [OF assms] by simp_all
    have n1: "unat (n - 1) = unat n - 1" "1 \<le> unat n"
      using False by (simp_all add: unat_minus_one Suc_le_eq unat_gt_0)
    have m: "?m \<le> 64" using unat_u64_less [of "n - 1"] by (intro Len64_le) simp
    note B = Len64_bounds [of "unat (n - 1)"]
    show ?thesis
    proof (cases "?m = 0")
      case True
      with B have "unat n = 1" using n1 by simp
      with True False show ?thesis by (simp add: canonicalDepth_def depthFor_def n1 f)
    next
      case m0: False
      have "unat (of_nat ?m + fb - 1 :: u64) = ?m + ?f - 1"
      proof -
        have "unat (of_nat ?m + fb :: u64) = ?m + ?f"
          using m f by (simp add: unat_add_u64 unat_of_nat_u64)
        then show ?thesis using f by (simp add: unat_sub_u64 word_le_nat_alt)
      qed
      then have d: "unat (canonicalDepth n fb) = (?m + ?f - 1) div ?f"
        using False m0 m by (simp add: canonicalDepth_def Let_def unat_div u64_eq_iff unat_of_nat_u64)
      have "2 ^ (?m - 1) < unat n" "unat n \<le> 2 ^ ?m"
        using B n1 m0 by auto
      with ceil_depth [of ?f ?m "unat n"] f m0 m d show ?thesis by simp
    qed
  qed (simp add: canonicalDepth_def depthFor_def)
  then show "depthFor (fan fb) (unat n) (unat (canonicalDepth n fb))" "unat (canonicalDepth n fb) \<le> 64" by simp_all
qed

section \<open>Digits\<close>

text \<open>The digits of an index in base \<open>F\<close>, most significant first.\<close>

fun digitsOf :: "nat \<Rightarrow> nat \<Rightarrow> nat \<Rightarrow> nat list" where
  "digitsOf F 0 i = []"
| "digitsOf F (Suc d) i = (i div F ^ d) # digitsOf F d (i mod F ^ d)"

lemma length_digitsOf [simp]: "length (digitsOf F d i) = d"
  by (induction d arbitrary: i) auto

lemma digitsOf_less: "i < F ^ d \<Longrightarrow> x \<in> set (digitsOf F d i) \<Longrightarrow> x < F"
proof (induction d arbitrary: i)
  case (Suc d)
  have "i div F ^ d < F" using Suc.prems(1) by (simp add: less_mult_imp_div_less)
  moreover have "i mod F ^ d < F ^ d" using Suc.prems(1) by (cases "F ^ d") auto
  ultimately show ?case using Suc.prems(2) Suc.IH [of "i mod F ^ d"] by (auto simp del: mod_less_divisor)
qed simp

lemma mod_pow_Suc:
  fixes i F :: nat
  assumes "0 < F"
  shows "i mod F ^ Suc d div F = i div F mod F ^ d" "i mod F ^ Suc d mod F = i mod F"
  using assms by (simp_all add: mod_mult2_eq)

lemma digitsOf_snoc: "i < F ^ Suc d \<Longrightarrow> digitsOf F (Suc d) i = digitsOf F d (i div F) @ [i mod F]"
proof (induction d arbitrary: i)
  case (Suc d)
  have F: "0 < F" using Suc.prems by (cases F) auto
  have "i mod F ^ Suc d < F ^ Suc d" using F by simp
  from Suc.IH [OF this]
  have "digitsOf F (Suc d) (i mod F ^ Suc d) = digitsOf F d (i mod F ^ Suc d div F) @ [i mod F ^ Suc d mod F]" .
  also note mod_pow_Suc(1) [OF F]
  also note mod_pow_Suc(2) [OF F]
  finally show ?case by (simp add: div_mult2_eq)
qed (simp add: mod_less)

lemma digitsLoop_spec:
  assumes "unat fb \<le> 32"
  shows "digitsLoop d (push_bit (unat fb) 1 - 1) fb rest acc =
    (map of_nat (digitsOf (fan fb) d (unat rest mod fan fb ^ d)) @ acc, of_nat (unat rest div fan fb ^ d))"
proof (induction d arbitrary: rest acc)
  case (Suc d)
  let ?F = "fan fb" and ?i = "unat rest mod fan fb ^ Suc d"
  have dig: "rest AND (push_bit (unat fb) 1 - 1) = of_nat (unat rest mod ?F)"
  proof -
    have "rest AND (push_bit (unat fb) 1 - 1) = take_bit (unat fb) rest"
      by (simp add: take_bit_eq_mask mask_eq_exp_minus_1)
    also have "\<dots> = of_nat (unat (take_bit (unat fb) rest))" by simp
    also have "unat (take_bit (unat fb) rest) = unat rest mod ?F"
      using take_bit_eq_mod [of "unat fb" "unat rest"] by (simp only: unsigned_take_bit_eq)
    finally show ?thesis .
  qed
  have shift: "unat (drop_bit (unat fb) rest) = unat rest div ?F" by (rule unat_drop_bit_u64)
  have "?i < ?F ^ Suc d" by simp
  from digitsOf_snoc [OF this]
  have "digitsOf ?F (Suc d) ?i = digitsOf ?F d (unat rest div ?F mod ?F ^ d) @ [unat rest mod ?F]"
    by (simp only: mod_pow_Suc [of ?F] zero_less_power zero_less_numeral)
  then show ?case
    using Suc.IH [of "drop_bit (unat fb) rest" "of_nat (unat rest mod ?F) # acc"]
    by (simp add: dig [simplified] shift div_mult2_eq del: digitsOf.simps)
qed simp

lemma pathDigits_eq:
  assumes "fanoutOk fb" "unat depth \<le> 64"
  shows "pathDigits i depth fb =
    (if unat i < fan fb ^ unat depth then Some (map of_nat (digitsOf (fan fb) (unat depth) (unat i))) else None)"
proof -
  have f: "unat fb \<le> 32" using fanoutOk_nat [OF assms(1)] by simp
  have "unat i div fan fb ^ unat depth < 18446744073709551616"
    using unat_u64_less [of i] div_le_dividend le_less_trans by blast
  then have "of_nat (unat i div fan fb ^ unat depth) = (0 :: u64) \<longleftrightarrow> unat i < fan fb ^ unat depth"
    by (simp add: u64_eq_iff unat_of_nat_u64 div_eq_0_iff)
  then show ?thesis
    using assms(2) digitsLoop_spec [OF f, of "unat depth" i "[]"]
    by (auto simp: pathDigits_def u64_eq_iff [of depth] word_less_nat_alt)
qed

lemma allZero_digits: "i < F ^ d \<Longrightarrow> list_all (\<lambda>x. x = 0) (digitsOf F d i) \<longleftrightarrow> i = 0"
proof (induction d arbitrary: i)
  case (Suc d)
  have pos: "0 < F ^ d" using Suc.prems by (cases "F ^ d") auto
  then have "list_all (\<lambda>x. x = 0) (digitsOf F (Suc d) i) \<longleftrightarrow> i div F ^ d = 0 \<and> i mod F ^ d = 0"
    using Suc.IH [of "i mod F ^ d"] by simp
  also have "\<dots> \<longleftrightarrow> i = 0" using pos by (metis div_0 div_mult_mod_eq mod_0 mult_0 add_0)
  finally show ?case .
qed simp

section \<open>Directory pages\<close>

text \<open>The number of pages of a directory of \<open>n\<close> entries and depth \<open>d\<close>: level \<open>j\<close> has one page for every \<open>F ^ j\<close>
  entries, the last of them possibly partial.\<close>

definition dirPages :: "nat \<Rightarrow> nat \<Rightarrow> nat \<Rightarrow> nat" where
  "dirPages F n d = (\<Sum>j = 1..d. (n - 1) div F ^ j + 1)"

lemma dirPages_Suc: "dirPages F n (Suc d) = dirPages F n d + ((n - 1) div F ^ Suc d + 1)"
  by (simp add: dirPages_def)

lemma dirPages_0 [simp]: "dirPages F n 0 = 0"
  by (simp add: dirPages_def)

lemma dirPages_mono: "d \<le> e \<Longrightarrow> dirPages F n d \<le> dirPages F n e"
  unfolding dirPages_def by (intro sum_mono2) auto

lemma dirPages_le: "2 \<le> F \<Longrightarrow> dirPages F n d \<le> n + d"
proof -
  assume F: "2 \<le> F"
  have "dirPages F n d + (n - 1) div 2 ^ d \<le> n - 1 + d"
  proof (induction d)
    case (Suc d)
    have "(n - 1) div F ^ Suc d \<le> (n - 1) div 2 ^ Suc d"
      using F by (intro div_le_mono2 power_mono) auto
    moreover have "2 * ((n - 1) div 2 ^ Suc d) \<le> (n - 1) div 2 ^ d"
      by (simp add: div_mult2_eq mult.commute [of 2])
    ultimately show ?case using Suc by (simp add: dirPages_Suc)
  qed simp
  then show ?thesis by linarith
qed

lemma dirPagesLoop_spec:
  assumes "fanoutOk fb" "0 < unat n" "unat n \<le> 2 ^ 63" "depthFor (fan fb) (unat n) D" "D \<le> 64"
  shows "1 \<le> unat depth \<Longrightarrow> unat depth \<le> D \<Longrightarrow> D < unat depth + fuel \<Longrightarrow>
    unat pages = dirPages (fan fb) (unat n) (unat depth - 1) \<Longrightarrow>
    \<exists>p. dirPagesLoop fuel n fb depth pages = Some p \<and> unat p = dirPages (fan fb) (unat n) D"
proof (induction fuel arbitrary: depth pages)
  case (Suc fuel)
  let ?F = "fan fb" and ?n = "unat n" and ?d = "unat depth"
  have F: "2 \<le> ?F" using assms(1) by (rule fan_ge2)
  have d: "?d = Suc (?d - 1)" using Suc.prems(1) by simp
  have cap: "unat (capacity depth fb) = min (?F ^ ?d) 18446744073709551615"
    using Suc.prems(2) assms(5) by (intro unat_capacity [OF assms(1)]) simp
  have le: "n \<le> capacity depth fb \<longleftrightarrow> ?n \<le> ?F ^ ?d" using assms(3) by (auto simp: word_le_nat_alt cap)
  let ?at = "if capacity depth fb < n then 1 + (n - 1) div capacity depth fb else 1"
  have at: "unat ?at = (?n - 1) div ?F ^ ?d + 1"
  proof (cases "?n \<le> ?F ^ ?d")
    case True
    then have "\<not> capacity depth fb < n" using le by (simp add: not_less)
    with True assms(2) show ?thesis by simp
  next
    case False
    have n1: "unat (n - 1) = ?n - 1" using assms(2) by (simp add: unat_minus_one unat_gt_0)
    have "unat (capacity depth fb) = ?F ^ ?d" using cap False assms(3) by simp
    moreover have "(?n - 1) div ?F ^ ?d \<le> 2 ^ 63" using assms(3) div_le_dividend [of "?n - 1"] le_trans
      by (metis diff_le_self)
    ultimately show ?thesis using le False n1 by (simp add: not_le [symmetric] unat_add_u64 unat_div)
  qed
  have upto: "dirPages ?F ?n ?d = unat pages + unat ?at"
    using dirPages_Suc [of ?F ?n "?d - 1"] d Suc.prems(4) at by simp
  have small: "dirPages ?F ?n D \<le> 2 ^ 63 + 64" using dirPages_le [OF F, of ?n D] assms(3,5) by simp
  then have bound: "unat pages + unat ?at \<le> 2 ^ 63 + 64"
    using upto dirPages_mono [OF Suc.prems(2), of ?F ?n] by simp
  have fit: "\<not> maxUint64 - ?at < pages"
    using bound by (simp add: word_less_nat_alt unat_sub_u64 split del: if_split)
  have sum: "unat (pages + ?at) = dirPages ?F ?n ?d" using bound upto by (simp add: unat_add_u64 split del: if_split)
  show ?case
  proof (cases "?n \<le> ?F ^ ?d")
    case True
    have "?d = D"
    proof (rule ccontr)
      assume "?d \<noteq> D"
      then have "?F ^ ?d \<le> ?F ^ (D - 1)" using Suc.prems(2) F by (intro power_increasing) auto
      with True assms(2,4) Suc.prems(1) \<open>?d \<noteq> D\<close> Suc.prems(2) show False by (auto simp: depthFor_def split: if_splits)
    qed
    with True le fit sum show ?thesis by (simp add: Let_def)
  next
    case False
    then have "?d \<noteq> D" using assms(2,4) by (auto simp: depthFor_def)
    moreover have s: "unat (depth + 1) = Suc ?d" using Suc.prems(2) assms(5) by (intro unat_Suc_u64) simp
    ultimately have "\<exists>p. dirPagesLoop fuel n fb (depth + 1) (pages + ?at) = Some p \<and> unat p = dirPages ?F ?n D"
      using Suc.prems sum by (intro Suc.IH) simp_all
    with False le fit show ?thesis by (simp add: Let_def)
  qed
qed simp

lemma canonicalDirectoryPages_eq:
  assumes "fanoutOk fb" "unat n \<le> 2 ^ 63"
  shows "\<exists>p. canonicalDirectoryPages n fb = Some p \<and>
    unat p = (if n = 0 then 0 else dirPages (fan fb) (unat n) (unat (canonicalDepth n fb)))"
proof (cases "n = 0")
  case False
  have d: "depthFor (fan fb) (unat n) (unat (canonicalDepth n fb))" "unat (canonicalDepth n fb) \<le> 64"
    using canonicalDepth_depthFor [OF assms(1)] by blast+
  have "0 < unat n" using False by (simp add: unat_gt_0)
  moreover have "1 \<le> unat (canonicalDepth n fb)" using d(1) \<open>0 < unat n\<close> by (auto simp: depthFor_def)
  ultimately show ?thesis
    using dirPagesLoop_spec [OF assms(1) _ assms(2) d, of 1 64 0] d(2) False by (simp add: canonicalDirectoryPages_def)
qed (simp add: canonicalDirectoryPages_def)

end
