(* ===== verification/Engine.thy ===== *)
theory Engine
  imports Core Arith
begin

text \<open>
  The head engine's state and its lowest layer, from \<open>archive/archive.go\<close>: the immutable state a root
  describes, the engine with its block store, decoded-node cache and mutation scratch, the three node
  stores with their size-checking encoders, and \<open>publish\<close>. The geometry checks of \<open>archive/enumerate.go\<close>
  that \<open>Load\<close> runs are here too.
\<close>

section \<open>State\<close>

record Params =
  pName :: string
  pNet :: string
  pOriginSlot :: u64
  pSegBits :: u64
  pFanoutBits :: u64

record 'd state =
  params :: Params
  syncedTo :: u64
  covered :: bool
  dirDepth :: u64
  dir :: "'d link"
  openSeg :: "'d link"
  root :: "'d link"

record SegmentSample =
  ssState :: SegmentState
  ssEncodedBytes :: nat
  ssRows :: nat
  ssRefs :: nat

record IndexApplyStats =
  iaEncodedBytes :: u64
  iaSegments :: "SegmentSample list"

definition zeroStats :: IndexApplyStats where
  "zeroStats = \<lparr>iaEncodedBytes = 0, iaSegments = []\<rparr>"

record 'd Info =
  infoParams :: Params
  infoRoot :: "'d link"
  infoSyncedTo :: "u64 option"
  infoDirDepth :: u64

text \<open>What a \<open>*Segment\<close>, \<open>*DirNode\<close> or \<open>*Head\<close> becomes when the cache holds it as \<open>any\<close>.\<close>

datatype 'd anyNode = AnySegment "'d Segment" | AnyDirNode "'d DirNode" | AnyHead "'d Head"

text \<open>The compact Segment proofs of \<open>archive/structure_cache.go\<close>. The row count is the length of a slice, which
  is below 2^63, so its conversion to \<open>uint64\<close> is exact and it is a natural number here.\<close>

record segmentProof =
  spSlot0 :: u64
  spFirstRow :: u64
  spLastRow :: u64
  spRows :: nat

record cachedSegmentProof =
  cpProof :: segmentProof
  cpGeneration :: u64
  cpGenerationKnown :: bool

type_synonym 'd structureCache = "('d cid \<times> cachedSegmentProof) list"

record ('b, 'd) engine =
  enBlocks :: "('b, 'd) blocks"
  enCache :: "('d anyNode, 'd) nodeCache option"
  enStructure :: "'d structureCache"
  cur :: "'d state"
  applyStats :: "IndexApplyStats option"
  lastApplyStats :: IndexApplyStats
  segmentEncodeState :: "SegmentState option"
  segmentEncodedBytes :: nat

type_synonym ('b, 'd, 'a) eng = "(('b, 'd) engine, 'd err, 'a) op"

section \<open>Node stores\<close>

abbreviation (input) MaxIndexNodeBytes :: nat where "MaxIndexNodeBytes \<equiv> 2097152"

definition blocksGet :: "('b, 'd) lib \<Rightarrow> 'd cid \<Rightarrow> ('b, 'd, 'b) eng" where
  "blocksGet L c s = (validatingGet L (enBlocks s) c, s)"

definition blocksPut :: "'d cid \<Rightarrow> 'b \<Rightarrow> ('b, 'd, unit) eng" where
  "blocksPut c data s = (case basePut (enBlocks s) c data of (r, bs) \<Rightarrow> (r, s\<lparr>enBlocks := bs\<rparr>))"

definition countRefs :: "'d Row list \<Rightarrow> nat" where
  "countRefs rows = (\<Sum>r\<leftarrow>rows. length (rEntries r))"

definition admitEncodedIndex :: "IndexNodeKind \<Rightarrow> nat \<Rightarrow> nat \<Rightarrow> nat \<Rightarrow> ('b, 'd, unit) eng" where
  "admitEncodedIndex kind encodedBytes rows refs =
     bind (gets segmentEncodeState) (\<lambda>ses.
     bind (check (encodedBytes \<le> MaxIndexNodeBytes) (IndexNodeTooLarge kind encodedBytes ses rows refs)) (\<lambda>_.
     modify (\<lambda>s. s\<lparr>applyStats := map_option
       (\<lambda>st. st\<lparr>iaEncodedBytes := iaEncodedBytes st + of_nat encodedBytes\<rparr>) (applyStats s)\<rparr>)))"

definition encodeSegment :: "('b, 'd) lib \<Rightarrow> 'd Segment \<Rightarrow> ('b, 'd, 'b \<times> 'd cid) eng" where
  "encodeSegment L segment =
     bind (liftE (liftS (EncodeSegment L segment))) (\<lambda>(data, id').
     bind (modify (\<lambda>s. s\<lparr>segmentEncodedBytes := blen L data\<rparr>)) (\<lambda>_.
     bind (admitEncodedIndex IndexNodeSegment (blen L data) (length (sRows segment)) (countRefs (sRows segment))) (\<lambda>_.
     ret (data, id'))))"

definition encodeDirNode :: "('b, 'd) lib \<Rightarrow> 'd DirNode \<Rightarrow> ('b, 'd, 'b \<times> 'd cid) eng" where
  "encodeDirNode L node =
     bind (liftE (liftS (EncodeDirNode L node))) (\<lambda>(data, id').
     bind (admitEncodedIndex IndexNodeDir (blen L data) 0 0) (\<lambda>_. ret (data, id')))"

definition encodeHead :: "('b, 'd) lib \<Rightarrow> 'd Head \<Rightarrow> ('b, 'd, 'b \<times> 'd cid) eng" where
  "encodeHead L head =
     bind (liftE (liftS (EncodeHead L head))) (\<lambda>(data, id').
     bind (admitEncodedIndex IndexNodeHead (blen L data) 0 0) (\<lambda>_. ret (data, id')))"

definition newNodeStore :: "('b, 'd) lib \<Rightarrow> ('t \<Rightarrow> ('b, 'd, 'b \<times> 'd cid) eng) \<Rightarrow> ('b \<Rightarrow> 'd err + 't) \<Rightarrow>
    ('t \<Rightarrow> 'd anyNode) \<Rightarrow> ('d anyNode \<Rightarrow> 't option) \<Rightarrow> (('b, 'd) engine, 't, 'd anyNode, 'b, 'd) nodeStore" where
  "newNodeStore L enc dec box unbox =
     \<lparr>nsGet = blocksGet L, nsPut = blocksPut, nsEncode = enc, nsDecode = dec, nsLen = blen L,
      nsCache = enCache, nsSetCache = (\<lambda>ca s. s\<lparr>enCache := Some ca\<rparr>), nsAny = box, nsAssert = unbox\<rparr>"

definition segs :: "('b, 'd) lib \<Rightarrow> (('b, 'd) engine, 'd Segment, 'd anyNode, 'b, 'd) nodeStore" where
  "segs L = newNodeStore L (encodeSegment L) (\<lambda>b. liftS (DecodeSegment L b)) AnySegment
     (\<lambda>v. case v of AnySegment x \<Rightarrow> Some x | _ \<Rightarrow> None)"

definition dirs :: "('b, 'd) lib \<Rightarrow> (('b, 'd) engine, 'd DirNode, 'd anyNode, 'b, 'd) nodeStore" where
  "dirs L = newNodeStore L (encodeDirNode L) (\<lambda>b. liftS (DecodeDirNode L b)) AnyDirNode
     (\<lambda>v. case v of AnyDirNode x \<Rightarrow> Some x | _ \<Rightarrow> None)"

definition heads :: "('b, 'd) lib \<Rightarrow> (('b, 'd) engine, 'd Head, 'd anyNode, 'b, 'd) nodeStore" where
  "heads L = newNodeStore L (encodeHead L) (\<lambda>b. liftS (DecodeHead L b)) AnyHead
     (\<lambda>v. case v of AnyHead x \<Rightarrow> Some x | _ \<Rightarrow> None)"

section \<open>Publishing a state\<close>

definition headObject :: "'d state \<Rightarrow> 'd Head" where
  "headObject st =
     \<lparr>hName = pName (params st), hNet = pNet (params st), hOriginSlot = pOriginSlot (params st),
      hSyncedTo = (if covered st then Some (syncedTo st) else None),
      hSegBits = pSegBits (params st), hFanoutBits = pFanoutBits (params st),
      hDirDepth = dirDepth st, hDir = dir st, hOpen = openSeg st\<rparr>"

definition publish :: "('b, 'd) lib \<Rightarrow> 'd state \<Rightarrow> ('b, 'd, 'd state) eng" where
  "publish L st =
     bind (Commit (heads L) (NewNode (Some (headObject st)))) (\<lambda>(r, _).
     let st' = st\<lparr>root := Some r\<rparr>
     in bind (modify (\<lambda>s. s\<lparr>cur := st'\<rparr>)) (\<lambda>_. ret st'))"

definition emptyState :: "Params \<Rightarrow> 'd state" where
  "emptyState p = \<lparr>params = p, syncedTo = 0, covered = False, dirDepth = 0, dir = None, openSeg = None, root = None\<rparr>"

definition dirBase :: "'d state \<Rightarrow> u64" where
  "dirBase st = ord (pOriginSlot (params st)) (pSegBits (params st))"

definition openOrd :: "('b, 'd) lib \<Rightarrow> 'd state \<Rightarrow> ('b, 'd, u64) eng" where
  "openOrd L st = bind (GetNode (segs L) (openSeg st)) (\<lambda>seg. ret (ord (sSlot0 seg) (pSegBits (params st))))"

text \<open>The engine \<open>newHead\<close> returns; its \<open>cur\<close> is a nil pointer until \<open>New\<close> or \<open>Load\<close> stores into it, and neither
  hands the engine out before.\<close>

definition newHead :: "('b, 'd) blocks \<Rightarrow> ('d anyNode, 'd) nodeCache option \<Rightarrow> 'd structureCache \<Rightarrow> ('b, 'd) engine" where
  "newHead bs ca sc =
     \<lparr>enBlocks = bs, enCache = ca, enStructure = sc,
      cur = emptyState \<lparr>pName = [], pNet = [], pOriginSlot = 0, pSegBits = 0, pFanoutBits = 0\<rparr>,
      applyStats = None, lastApplyStats = zeroStats, segmentEncodeState = None, segmentEncodedBytes = 0\<rparr>"

definition New :: "('b, 'd) lib \<Rightarrow> Params \<Rightarrow> ('b, 'd, 'd state) eng" where
  "New L p =
     bind (check (pSegBits p \<le> 63) BadParams) (\<lambda>_.
     bind (check (\<not> (pFanoutBits p = 0 \<or> 32 < pFanoutBits p)) BadParams) (\<lambda>_.
     publish L (emptyState p)))"

definition Info :: "('b, 'd) engine \<Rightarrow> 'd Info" where
  "Info s = (let st = cur s in
     \<lparr>infoParams = params st, infoRoot = root st,
      infoSyncedTo = (if covered st then Some (syncedTo st) else None), infoDirDepth = dirDepth st\<rparr>)"

section \<open>Opening a root\<close>

abbreviation (input) MaxEnumerationOutputs :: nat where "MaxEnumerationOutputs \<equiv> 1048576"
abbreviation (input) MaxEnumerationPaths :: nat where "MaxEnumerationPaths \<equiv> 2097152"
abbreviation (input) MaxEnumerationUniqueNodes :: nat where "MaxEnumerationUniqueNodes \<equiv> 4194304"

definition validateIndexCID :: "'d link \<Rightarrow> string \<Rightarrow> 'd err + 'd cid" where
  "validateIndexCID l what = (case l of
     None \<Rightarrow> Inl UndefinedCID
   | Some c \<Rightarrow>
       if cidVersion c \<noteq> 1 \<or> cidCodec c \<noteq> codecDagCBOR \<or> cidMhType c \<noteq> SHA2_256 \<or> cidMhLen c \<noteq> 32
       then Inl (BadPrefix what) else Inr c)"

definition validateBlobCID :: "'d link \<Rightarrow> 'd err + unit" where
  "validateBlobCID l = (case l of
     None \<Rightarrow> Inl UndefinedCID
   | Some c \<Rightarrow>
       if cidVersion c \<noteq> 1 \<or> cidCodec c \<noteq> codecRaw \<or> cidMhType c \<noteq> SHA2_256 \<or> cidMhLen c \<noteq> 32
       then Inl (BadPrefix ''blob'') else Inr ())"

definition verifyBlockCID :: "('b, 'd) lib \<Rightarrow> 'd cid \<Rightarrow> 'b \<Rightarrow> 'd err + unit" where
  "verifyBlockCID L want data = (case prefixSum L (cidPrefix want) data of
     None \<Rightarrow> Inl RehashErr
   | Some got \<Rightarrow> if got \<noteq> want then Inl (CorruptBlock want got) else Inr ())"

definition validateDirectoryGeometry :: "'d state \<Rightarrow> 'd err + u64 \<times> u64" where
  "validateDirectoryGeometry st =
     (if \<not> covered st then
        (if dirDepth st \<noteq> 0 \<or> dir st \<noteq> None \<or> openSeg st \<noteq> None
         then Inl (BadGeometry ''uncovered'') else Inr (0, 0))
      else if syncedTo st = maxUint64 then Inl (BadGeometry ''synced_to'')
      else
        let open' = ord (syncedTo st + 1) (pSegBits (params st));
            base = dirBase st;
            sealedCount = open' - base
        in if open' < base then Inl (BadGeometry ''open window'')
           else if of_nat MaxEnumerationOutputs < sealedCount then Inl (BadGeometry ''outputs'')
           else if dirDepth st \<noteq> canonicalDepth sealedCount (pFanoutBits (params st))
           then Inl (BadGeometry ''dir_depth'')
           else case canonicalDirectoryPages sealedCount (pFanoutBits (params st)) of
             None \<Rightarrow> Inl NonTermination
           | Some paths \<Rightarrow>
               if of_nat MaxEnumerationPaths < paths then Inl (BadGeometry ''paths'')
               else if of_nat (MaxEnumerationUniqueNodes - 2) < paths \<or>
                       of_nat MaxEnumerationUniqueNodes - paths - 2 < sealedCount
               then Inl (BadGeometry ''unique nodes'')
               else Inr (open', sealedCount))"

definition stateOfHead :: "'d Head \<Rightarrow> 'd cid \<Rightarrow> 'd state" where
  "stateOfHead obj r =
     \<lparr>params = \<lparr>pName = hName obj, pNet = hNet obj, pOriginSlot = hOriginSlot obj,
                pSegBits = hSegBits obj, pFanoutBits = hFanoutBits obj\<rparr>,
      syncedTo = (case hSyncedTo obj of None \<Rightarrow> 0 | Some x \<Rightarrow> x), covered = (hSyncedTo obj \<noteq> None),
      dirDepth = hDirDepth obj, dir = hDir obj, openSeg = hOpen obj, root = Some r\<rparr>"

definition loadState :: "('b, 'd) lib \<Rightarrow> 'd link \<Rightarrow> ('b, 'd, 'd state) eng" where
  "loadState L rt =
     bind (liftE (validateIndexCID rt ''head root'')) (\<lambda>r.
     bind (blocksGet L r) (\<lambda>data.
     bind (check (blen L data \<le> MaxIndexNodeBytes) (BudgetExceeded ''head'')) (\<lambda>_.
     bind (liftE (verifyBlockCID L r data)) (\<lambda>_.
     bind (liftE (liftS (DecodeHead L data))) (\<lambda>obj.
     let st = stateOfHead obj r in
     bind (check (covered st = (openSeg st \<noteq> None)) (BadStructure ''open'')) (\<lambda>_.
     bind (check (\<not> (pFanoutBits (params st) = 0 \<or> 32 < pFanoutBits (params st) \<or> 63 < pSegBits (params st)))
       BadParams) (\<lambda>_.
     bind (liftE (validateDirectoryGeometry st)) (\<lambda>_.
     bind (if dir st = None then ret () else bind (liftE (validateIndexCID (dir st) ''directory root'')) (\<lambda>_. ret ())) (\<lambda>_.
     bind (if openSeg st = None then ret () else bind (liftE (validateIndexCID (openSeg st) ''open segment'')) (\<lambda>_. ret ())) (\<lambda>_.
     ret st))))))))))"

text \<open>\<open>Load\<close>, and \<open>CloneAt\<close>, which is \<open>Load\<close> over the configuration of an existing engine.\<close>

definition LoadHead :: "('b, 'd) lib \<Rightarrow> 'd link \<Rightarrow> ('b, 'd, unit) eng" where
  "LoadHead L rt = bind (loadState L rt) (\<lambda>st. modify (\<lambda>s. s\<lparr>cur := st\<rparr>))"

definition CloneAt :: "('b, 'd) lib \<Rightarrow> ('b, 'd) engine \<Rightarrow> 'd link \<Rightarrow> ('d err + unit) \<times> ('b, 'd) engine" where
  "CloneAt L h rt = LoadHead L rt (newHead (enBlocks h) (enCache h) (enStructure h))"

section \<open>What every step of the engine keeps\<close>

fun decodesAny :: "('b, 'd) lib \<Rightarrow> 'd anyNode \<Rightarrow> 'b \<Rightarrow> bool" where
  "decodesAny L (AnySegment x) b \<longleftrightarrow> DecodeSegment L b = Inr x"
| "decodesAny L (AnyDirNode x) b \<longleftrightarrow> DecodeDirNode L b = Inr x"
| "decodesAny L (AnyHead x) b \<longleftrightarrow> DecodeHead L b = Inr x"

definition held :: "('b, 'd) lib \<Rightarrow> ('b, 'd) engine \<Rightarrow> 'd cid \<Rightarrow> 'b \<Rightarrow> bool" where
  "held L s c b = has L (enBlocks s) c b"

text \<open>Every cached node is what its CID's block decodes to.\<close>

definition cacheOk :: "('b, 'd) lib \<Rightarrow> ('b, 'd) engine \<Rightarrow> bool" where
  "cacheOk L s \<longleftrightarrow> (\<forall>ca. enCache s = Some ca \<longrightarrow>
     cacheSound (\<lambda>c v. \<exists>b. held L s c b \<and> decodesAny L v b) ca)"

text \<open>A later state of the same engine: blocks are only added, the published state is the same and the
  cache stays sound.\<close>

definition grows :: "('b, 'd) lib \<Rightarrow> ('b, 'd) engine \<Rightarrow> ('b, 'd) engine \<Rightarrow> bool" where
  "grows L s t \<longleftrightarrow> extends L (enBlocks s) (enBlocks t) \<and> cur t = cur s \<and> enStructure t = enStructure s \<and>
     (cacheOk L s \<longrightarrow> cacheOk L t)"

text \<open>The failures that are not the program's.\<close>

definition envErr :: "('b, 'd) lib \<Rightarrow> bool \<Rightarrow> ('b, 'd) engine \<Rightarrow> 'd err \<Rightarrow> bool" where
  "envErr L big s e \<longleftrightarrow>
     e = IOErr \<and> (\<exists>c. getFault (enBlocks s) c \<or> putFault (enBlocks s) c) \<or>
     (\<exists>kind n st r f. e = IndexNodeTooLarge kind n st r f \<and> MaxIndexNodeBytes < n \<and> n \<in> range (blen L)) \<or>
     big \<and> (\<exists>obj field. e = SchemaErr (CborIntRange obj field))"

lemma grows_refl [simp]: "grows L s s"
  by (simp add: grows_def)

lemma grows_trans: "grows L s t \<Longrightarrow> grows L t u \<Longrightarrow> grows L s u"
  by (auto simp: grows_def intro: extends_trans)

lemma grows_held: "grows L s t \<Longrightarrow> held L s c b \<Longrightarrow> held L t c b"
  by (auto simp: grows_def held_def intro: extends_has)

lemma grows_env: "grows L s t \<Longrightarrow> envErr L big t = envErr L big s"
  by (auto simp: grows_def envErr_def extends_def fun_eq_iff)

lemma grows_scratch:
  assumes "enBlocks t = enBlocks s" "cur t = cur s" "enStructure t = enStructure s" "enCache t = enCache s"
  shows "grows L s t"
  using assms by (simp add: grows_def cacheOk_def held_def)

lemma grows_cur: "grows L s t \<Longrightarrow> cur t = cur s"
  by (simp add: grows_def)

section \<open>The node stores meet the contract\<close>

lemma cacheOk_mono:
  assumes "cacheOk L s" "extends L (enBlocks s) (enBlocks t)" "enCache t = enCache s"
  shows "cacheOk L t"
  unfolding cacheOk_def
proof (intro allI impI)
  fix ca assume "enCache t = Some ca"
  with assms(1,3) have "cacheSound (\<lambda>c v. \<exists>b. held L s c b \<and> decodesAny L v b) ca" by (simp add: cacheOk_def)
  then show "cacheSound (\<lambda>c v. \<exists>b. held L t c b \<and> decodesAny L v b) ca"
    by (rule cacheSound_mono) (auto simp: held_def intro: extends_has [OF assms(2)])
qed

lemma grows_blocks:
  assumes "extends L (enBlocks s) bs"
  shows "grows L s (s\<lparr>enBlocks := bs\<rparr>)"
  using assms cacheOk_mono [of L s "s\<lparr>enBlocks := bs\<rparr>"] by (simp add: grows_def)

lemma grows_cache:
  assumes "cacheOk L s \<Longrightarrow> cacheSound (\<lambda>c v. \<exists>b. held L s c b \<and> decodesAny L v b) ca"
  shows "grows L s (s\<lparr>enCache := Some ca\<rparr>)"
  using assms by (simp add: grows_def cacheOk_def held_def)

lemma grows_preorder: "reflp (grows L)" "transp (grows L)"
  by (auto intro!: reflpI transpI intro: grows_trans)

lemmas grows_intros [intro!, frame] = keeps_pure [OF grows_preorder(1)] keeps_bind [OF grows_preorder(2)]

lemma modify_grows: "(\<And>s. grows L s (f s)) \<Longrightarrow> keeps (grows L) (modify f)"
  by (simp add: keeps_def)

lemma blocksGet_same: "blocksGet L c s = (r, t) \<longleftrightarrow> t = s \<and> r = validatingGet L (enBlocks s) c"
  by (auto simp: blocksGet_def)

lemma blocksGet_held: "blocksGet L c s = (Inr b, t) \<Longrightarrow> held L t c b"
  by (auto simp: blocksGet_same held_def get_has)

lemma blocksGet_wp:
  "held L s c b \<Longrightarrow> wp (blocksGet L c) (envErr L big s) (\<lambda>x t. x = b \<and> t = s) s"
  by (auto simp: wp_def blocksGet_def held_def has_get envErr_def)

lemma blocksGet_grows [frame]: "keeps (grows L) (blocksGet L c)"
  by (rule keepsI) (simp add: blocksGet_same)

lemma blocksPut_grows: "lib_ok L \<Longrightarrow> NodeCID L b = Inr c \<Longrightarrow> keeps (grows L) (blocksPut c b)"
  using basePut_extends [of L b c] by (auto intro!: keepsI grows_blocks simp: blocksPut_def split: prod.splits)
    (metis snd_conv)

lemma blocksPut_wp:
  assumes "lib_ok L" "NodeCID L b = Inr c"
  shows "wp (blocksPut c b) (envErr L big s) (\<lambda>_ t. held L t c b) s"
proof (cases "putFault (enBlocks s) c")
  case False
  then obtain bs where "basePut (enBlocks s) c b = (Inr (), bs)" by (simp add: basePut_def)
  with basePut_has [OF assms this] show ?thesis by (simp add: wp_def blocksPut_def held_def)
qed (auto simp: wp_def blocksPut_def basePut_def envErr_def)

lemma admit_grows [frame]: "keeps (grows L) (admitEncodedIndex k n r f)"
  unfolding admitEncodedIndex_def by (intro frame modify_grows grows_scratch) simp_all

lemma admit_wp:
  "n \<in> range (blen L) \<Longrightarrow> Q () (s\<lparr>applyStats := map_option (\<lambda>st. st\<lparr>iaEncodedBytes := iaEncodedBytes st + of_nat n\<rparr>) (applyStats s)\<rparr>) \<Longrightarrow>
    wp (admitEncodedIndex k n r f) (envErr L big t) Q s"
  by (auto simp: admitEncodedIndex_def envErr_def)

subsection \<open>Encoders\<close>

lemma encodeSegment_grows [frame]: "keeps (grows L) (encodeSegment L v)"
  unfolding encodeSegment_def case_prod_unfold by (intro frame modify_grows grows_scratch) simp_all

lemma encodeDirNode_grows [frame]: "keeps (grows L) (encodeDirNode L v)"
  unfolding encodeDirNode_def case_prod_unfold by (intro frame)

lemma encodeHead_grows [frame]: "keeps (grows L) (encodeHead L v)"
  unfolding encodeHead_def case_prod_unfold by (intro frame)

lemma encode_result:
  "encodeSegment L seg s = (Inr (b, c), t) \<Longrightarrow> EncodeSegment L seg = Inr (b, c)"
  "encodeDirNode L d s = (Inr (b, c), t) \<Longrightarrow> EncodeDirNode L d = Inr (b, c)"
  "encodeHead L h s = (Inr (b, c), t) \<Longrightarrow> EncodeHead L h = Inr (b, c)"
  by (auto simp: encodeSegment_def encodeDirNode_def encodeHead_def bind_Inr_iff liftS_def map_sum_def
      split: sum.splits)

definition segmentFits :: "'d Segment \<Rightarrow> bool" where
  "segmentFits s \<longleftrightarrow> sSlot0 s \<le> maxInt64 \<and> (\<forall>r\<in>set (sRows s). rSlot r \<le> maxInt64)"

definition headFits :: "'d Head \<Rightarrow> bool" where
  "headFits h \<longleftrightarrow> hOriginSlot h \<le> maxInt64 \<and> hSegBits h \<le> maxInt64 \<and> hFanoutBits h \<le> maxInt64 \<and>
     hDirDepth h \<le> maxInt64 \<and> (\<forall>x. hSyncedTo h = Some x \<longrightarrow> x \<le> maxInt64)"

lemma checkCBORInts_Inl: "checkCBORInts obj fs = Inl e \<Longrightarrow> \<exists>field. e = CborIntRange obj field"
  by (induction fs) (auto simp: bindE_Inl_iff checkCBORInt_def split: if_splits)

lemma checks_Inl:
  assumes "bindE (checkCBORInts obj fs) g = Inl e"
  shows "(\<exists>field. e = CborIntRange obj field) \<or> (\<forall>f\<in>set fs. snd f \<le> maxInt64)"
proof (cases "checkCBORInts obj fs")
  case (Inl e')
  with assms checkCBORInts_Inl [OF Inl] show ?thesis by simp
next
  case (Inr u)
  then show ?thesis by (simp add: checkCBORInts_iff)
qed

lemma EncodeSegment_Inl:
  assumes "lib_ok L" "SegmentValidate s = Inr ()" "EncodeSegment L s = Inl e"
  shows "\<not> segmentFits s \<and> (\<exists>obj field. e = CborIntRange obj field)"
proof
  show "\<not> segmentFits s"
    using segmentEncodable_iff [OF assms(1), of s] assms(2,3) by (auto simp: segmentEncodable_def segmentFits_def)
  then show "\<exists>obj field. e = CborIntRange obj field"
    using assms by (auto simp: EncodeSegment_def bindE_Inl_iff segmentFits_def checkCBORInt_def split: if_splits
        dest!: checkCBORInts_Inl)
qed

lemma EncodeHead_Inl:
  assumes "lib_ok L" "HeadValidate h = Inr ()" "EncodeHead L h = Inl e"
  shows "\<not> headFits h \<and> (\<exists>obj field. e = CborIntRange obj field)"
proof
  show nf: "\<not> headFits h"
    using headEncodable_iff [OF assms(1), of h] assms(2,3) by (auto simp: headEncodable_def headFits_def)
  from assms(3) have "bindE (checkCBORInts ''head''
       ([(''origin_slot'', hOriginSlot h), (''seg_bits'', hSegBits h),
         (''fanout_bits'', hFanoutBits h), (''dir_depth'', hDirDepth h)] @
        (case hSyncedTo h of None \<Rightarrow> [] | Some s \<Rightarrow> [(''synced_to'', s)]))) (\<lambda>_. encodeNode L (headNode h)) = Inl e"
    unfolding EncodeHead_def assms(2) bindE_simps .
  from checks_Inl [OF this] nf show "\<exists>obj field. e = CborIntRange obj field"
    by (auto simp: headFits_def)
qed

lemma encodeSegment_wp:
  assumes "lib_ok L" "SegmentValidate v = Inr ()" "big \<or> segmentFits v"
  shows "wp (encodeSegment L v) (envErr L big s) (\<lambda>(b, c) t. EncodeSegment L v = Inr (b, c)) s"
proof (cases "EncodeSegment L v")
  case (Inl e)
  with EncodeSegment_Inl [OF assms(1,2)] assms(3) show ?thesis
    by (auto simp: encodeSegment_def wp_liftE envErr_def)
qed (auto simp: encodeSegment_def intro!: admit_wp)

lemma encodeHead_wp:
  assumes "lib_ok L" "HeadValidate v = Inr ()" "big \<or> headFits v"
  shows "wp (encodeHead L v) (envErr L big s) (\<lambda>(b, c) t. EncodeHead L v = Inr (b, c)) s"
proof (cases "EncodeHead L v")
  case (Inl e)
  with EncodeHead_Inl [OF assms(1,2)] assms(3) show ?thesis
    by (auto simp: encodeHead_def wp_liftE envErr_def)
qed (auto simp: encodeHead_def intro!: admit_wp)

lemma encodeDirNode_wp:
  assumes "lib_ok L"
  shows "wp (encodeDirNode L v) (envErr L big s) (\<lambda>(b, c) t. EncodeDirNode L v = Inr (b, c)) s"
  using EncodeDirNode_total [OF assms, of v] by (auto simp: encodeDirNode_def intro!: admit_wp)

subsection \<open>Cache and writes\<close>

lemma ns_sel [simp]:
  "nsGet (newNodeStore L enc dec box unbox) = blocksGet L"
  "nsPut (newNodeStore L enc dec box unbox) = blocksPut"
  "nsEncode (newNodeStore L enc dec box unbox) = enc"
  "nsDecode (newNodeStore L enc dec box unbox) = dec"
  "nsCache (newNodeStore L enc dec box unbox) = enCache"
  "nsSetCache (newNodeStore L enc dec box unbox) = (\<lambda>ca s. s\<lparr>enCache := Some ca\<rparr>)"
  "nsAny (newNodeStore L enc dec box unbox) = box"
  "nsAssert (newNodeStore L enc dec box unbox) = unbox"
  by (simp_all add: newNodeStore_def)

lemma lookup_grows: "keeps (grows L) (cacheLookup (newNodeStore L enc dec box unbox) c)"
proof (rule keepsI)
  fix s r t assume run: "cacheLookup (newNodeStore L enc dec box unbox) c s = (r, t)"
  show "grows L s t"
  proof (cases "enCache s")
    case (Some ca)
    obtain v ca' where g: "cacheGet ca c = (v, ca')" by fastforce
    then have "t = s\<lparr>enCache := Some ca'\<rparr>" using run Some by (simp add: cacheLookup_def)
    with Some cacheGet_sound(1) [OF _ g] show ?thesis by (auto intro: grows_cache simp: cacheOk_def)
  qed (use run in \<open>simp add: cacheLookup_def\<close>)
qed

lemma lookup_decodes:
  assumes "cacheOk L s" "held L s c b" "\<And>v y. unbox v = Some y \<Longrightarrow> decodesAny L v b \<Longrightarrow> dec b = Inr y"
    and run: "cacheLookup (newNodeStore L enc dec box unbox) c s = (Inr (Some x), t)"
  shows "dec b = Inr x"
proof -
  from run obtain ca v ca' where "enCache s = Some ca" and g: "cacheGet ca c = (Some v, ca')" and x: "unbox v = Some x"
    by (auto simp: cacheLookup_def split: option.splits prod.splits)
  with assms(1) have "cacheSound (\<lambda>c v. \<exists>b. held L s c b \<and> decodesAny L v b) ca" by (simp add: cacheOk_def)
  from cacheGet_sound(2) [OF this g] obtain b' where "held L s c b'" "decodesAny L v b'" by blast
  with assms(2,3) x show ?thesis by (metis held_def has_unique)
qed

lemma remember_grows:
  assumes "held L s c b" "decodesAny L (box x) b"
  shows "grows L s (cacheRemember (newNodeStore L enc dec box unbox) c x n s)"
proof (cases "enCache s")
  case (Some ca)
  have "grows L s (s\<lparr>enCache := Some (cacheAdd ca c (box x) n)\<rparr>)"
    using Some assms by (intro grows_cache cacheAdd_sound) (auto simp: cacheOk_def)
  with Some show ?thesis by (simp add: cacheRemember_def)
qed (simp add: cacheRemember_def)

lemma put_grows:
  assumes "lib_ok L" "keeps (grows L) (enc v)" "\<And>s b c t. enc v s = (Inr (b, c), t) \<Longrightarrow> NodeCID L b = Inr c"
  shows "keeps (grows L) (PutNode (newNodeStore L enc dec box unbox) v)"
proof (rule keepsI)
  fix s r t assume run: "PutNode (newNodeStore L enc dec box unbox) v s = (r, t)"
  obtain e u where e: "enc v s = (e, u)" by fastforce
  have su: "grows L s u" using assms(2) e by (rule keepsD)
  show "grows L s t"
  proof (cases e)
    case (Inr bc)
    obtain b c where bc: "bc = (b, c)" by (cases bc)
    obtain r' w where w: "blocksPut c b u = (r', w)" by fastforce
    have "grows L u w" using blocksPut_grows [OF assms(1) assms(3)] e Inr bc w by (blast dest: keepsD)
    with su run e Inr bc w show ?thesis by (cases r') (auto simp: PutNode_def bind_def intro: grows_trans)
  qed (use run e su in \<open>auto simp: PutNode_def bind_def\<close>)
qed

lemma put_wp:
  assumes L: "lib_ok L" and enc: "wp (enc v) (envErr L big s) (\<lambda>(b, c) t. P b c) s"
    and cid: "\<And>b c. P b c \<Longrightarrow> NodeCID L b = Inr c" and R: "keeps (grows L) (enc v)"
  shows "wp (PutNode (newNodeStore L enc dec box unbox) v) (envErr L big s) (\<lambda>c t. \<exists>b. P b c \<and> held L t c b) s"
proof -
  have put: "wp (blocksPut c b) (envErr L big s) (\<lambda>_ t. \<exists>b. P b c \<and> held L t c b) t"
    if "P b c" "grows L s t" for b c t
    by (rule wp_mono [OF blocksPut_wp [OF L cid [OF that(1)], of big t]]) (use that(1) grows_env [OF that(2)] in auto)
  from wp_conj_keeps [OF enc R] show ?thesis
    unfolding PutNode_def ns_sel wp_bind by (rule wp_mono) (auto intro: put)
qed

lemma put_keeps:
  assumes "lib_ok L"
  shows "keeps (grows L) (PutNode (segs L) x)" "keeps (grows L) (PutNode (dirs L) y)" "keeps (grows L) (PutNode (heads L) z)"
  unfolding segs_def dirs_def heads_def
  by (auto intro!: put_grows [OF assms] frame dest: encode_result encoders_cid)

lemma segs_put:
  assumes "lib_ok L" "SegmentValidate v = Inr ()" "big \<or> segmentFits v"
  shows "wp (PutNode (segs L) v) (envErr L big s) (\<lambda>c t. \<exists>b. EncodeSegment L v = Inr (b, c) \<and> held L t c b) s"
  unfolding segs_def
  by (rule put_wp [where P = "\<lambda>b c. EncodeSegment L v = Inr (b, c)"]) (use assms in \<open>auto intro: encodeSegment_wp frame encoders_cid\<close>)

lemma dirs_put:
  assumes "lib_ok L"
  shows "wp (PutNode (dirs L) v) (envErr L big s) (\<lambda>c t. \<exists>b. EncodeDirNode L v = Inr (b, c) \<and> held L t c b) s"
  unfolding dirs_def
  by (rule put_wp [where P = "\<lambda>b c. EncodeDirNode L v = Inr (b, c)"]) (use assms in \<open>auto intro: encodeDirNode_wp frame encoders_cid\<close>)

lemma heads_put:
  assumes "lib_ok L" "HeadValidate v = Inr ()" "big \<or> headFits v"
  shows "wp (PutNode (heads L) v) (envErr L big s) (\<lambda>c t. \<exists>b. EncodeHead L v = Inr (b, c) \<and> held L t c b) s"
  unfolding heads_def
  by (rule put_wp [where P = "\<lambda>b c. EncodeHead L v = Inr (b, c)"]) (use assms in \<open>auto intro: encodeHead_wp frame encoders_cid\<close>)

lemma segs_hit:
  fixes L :: "('b, 'd) lib"
  assumes "cacheOk L s" "held L s c b" "cacheLookup (segs L) c s = (Inr (Some x), t)"
  shows "DecodeSegment L b = Inr x"
proof -
  have "liftS (DecodeSegment L b) = (Inr x :: 'd err + 'd Segment)"
    by (rule lookup_decodes [OF assms(1,2) _ assms(3) [unfolded segs_def]]) (auto split: anyNode.splits)
  then show ?thesis by simp
qed

lemma dirs_hit:
  fixes L :: "('b, 'd) lib"
  assumes "cacheOk L s" "held L s c b" "cacheLookup (dirs L) c s = (Inr (Some x), t)"
  shows "DecodeDirNode L b = Inr x"
proof -
  have "liftS (DecodeDirNode L b) = (Inr x :: 'd err + 'd DirNode)"
    by (rule lookup_decodes [OF assms(1,2) _ assms(3) [unfolded dirs_def]]) (auto split: anyNode.splits)
  then show ?thesis by simp
qed

lemma heads_hit:
  fixes L :: "('b, 'd) lib"
  assumes "cacheOk L s" "held L s c b" "cacheLookup (heads L) c s = (Inr (Some x), t)"
  shows "DecodeHead L b = Inr x"
proof -
  have "liftS (DecodeHead L b) = (Inr x :: 'd err + 'd Head)"
    by (rule lookup_decodes [OF assms(1,2) _ assms(3) [unfolded heads_def]]) (auto split: anyNode.splits)
  then show ?thesis by simp
qed

lemma stores_remember:
  "held L s c b \<Longrightarrow> nsDecode (segs L) b = Inr x \<Longrightarrow> grows L s (cacheRemember (segs L) c x n s)"
  "held L s c b \<Longrightarrow> nsDecode (dirs L) b = Inr y \<Longrightarrow> grows L s (cacheRemember (dirs L) c y n s)"
  "held L s c b \<Longrightarrow> nsDecode (heads L) b = Inr z \<Longrightarrow> grows L s (cacheRemember (heads L) c z n s)"
  unfolding segs_def dirs_def heads_def ns_sel by (auto intro: remember_grows)

lemma stores_lookup:
  "keeps (grows L) (cacheLookup (segs L) c)" "keeps (grows L) (cacheLookup (dirs L) c)" "keeps (grows L) (cacheLookup (heads L) c)"
  unfolding segs_def dirs_def heads_def by (rule lookup_grows)+

lemma stores_sel:
  "nsGet (segs L) = blocksGet L" "nsGet (dirs L) = blocksGet L" "nsGet (heads L) = blocksGet L"
  "nsDecode (segs L) b = liftS (DecodeSegment L b)" "nsDecode (dirs L) b = liftS (DecodeDirNode L b)"
  "nsDecode (heads L) b = liftS (DecodeHead L b)"
  by (simp_all add: segs_def dirs_def heads_def)

lemma cacheOk_grows: "grows L s t \<Longrightarrow> cacheOk L s \<Longrightarrow> cacheOk L t"
  by (simp add: grows_def)

lemmas store_laws = grows_held grows_env cacheOk_grows blocksGet_wp blocksGet_held
  stores_lookup segs_hit dirs_hit heads_hit stores_remember segs_put dirs_put heads_put put_keeps

interpretation segS: cached_nodes lib_ok segs grows cacheOk held "\<lambda>L v b c. EncodeSegment L v = Inr (b, c)" envErr
    id "\<lambda>v. SegmentValidate v = Inr ()" segmentFits
  by unfold_locales (auto simp: stores_sel blocksGet_same segC.roundtrip intro: store_laws grows_trans)

interpretation dirS: cached_nodes lib_ok dirs grows cacheOk held "\<lambda>L v b c. EncodeDirNode L v = Inr (b, c)" envErr
    canonDirNode "\<lambda>_. True" "\<lambda>_. True"
  by unfold_locales (auto simp: stores_sel blocksGet_same dirC.roundtrip canonDirNode_def intro: store_laws grows_trans)

interpretation headS: cached_nodes lib_ok heads grows cacheOk held "\<lambda>L v b c. EncodeHead L v = Inr (b, c)" envErr
    id "\<lambda>v. HeadValidate v = Inr ()" headFits
  by unfold_locales (auto simp: stores_sel blocksGet_same headC.roundtrip intro: store_laws grows_trans)

end
