(* ===== verification/Dir.thy ===== *)
theory Dir
  imports Engine
begin

text \<open>
  The directory of sealed segments, \<open>archive/dir.go\<close>: an append-only vector of links kept as a radix tree of
  DirNode pages and addressed by the digits of an index. The operations are modelled as the source has
  them; the reference is \<open>dirRoot\<close>, the root of the one canonical tree that a vector of links has, so that
  appending, truncating and shrinking refine list append, \<open>take\<close> and the canonical depth.
\<close>

section \<open>The source's functions\<close>

definition growTo :: "'d link list \<Rightarrow> u64 \<Rightarrow> 'd link list" where
  "growTo kids n = kids @ replicate (unat n - length kids) None"

definition clampTo :: "'d link list \<Rightarrow> u64 \<Rightarrow> 'd link list" where
  "clampTo kids n = take (unat n) kids"

definition loadKids :: "('b, 'd) lib \<Rightarrow> 'd link \<Rightarrow> ('b, 'd, 'd link list) eng" where
  "loadKids L node = (if node = None then ret []
     else bind (GetNode (dirs L) node) (\<lambda>n. ret (dKids n)))"

definition commitDir :: "('b, 'd) lib \<Rightarrow> 'd link list \<Rightarrow> ('b, 'd, 'd link) eng" where
  "commitDir L kids = bind (Commit (dirs L) (NewNode (Some \<lparr>dKids = kids\<rparr>))) (\<lambda>(c, _). ret (Some c))"

primrec dirSet :: "('b, 'd) lib \<Rightarrow> 'd link \<Rightarrow> u64 list \<Rightarrow> 'd link \<Rightarrow> ('b, 'd, 'd link) eng" where
  "dirSet L node [] kid = ret kid"
| "dirSet L node (d # rest) kid =
     bind (loadKids L node) (\<lambda>kids.
     bind (dirSet L (kidAt kids (unat d)) rest kid) (\<lambda>newChild.
     commitDir L ((growTo kids (d + 1))[unat d := newChild])))"

definition dirAppend :: "('b, 'd) lib \<Rightarrow> 'd link \<Rightarrow> u64 \<Rightarrow> u64 \<Rightarrow> u64 \<Rightarrow> 'd link \<Rightarrow> ('b, 'd, 'd link \<times> u64) eng" where
  "dirAppend L dir0 depth fanoutBits i kid =
     (if depth = 0 then
        (if i \<noteq> 0 then fail (Internal ''first directory append'')
         else bind (commitDir L [kid]) (\<lambda>c. ret (c, 1)))
      else
        let full = capacity depth fanoutBits in
        bind (if i = full then bind (commitDir L [dir0]) (\<lambda>c. ret (c, depth + 1))
              else if full < i then fail (Internal ''past capacity'')
              else ret (dir0, depth)) (\<lambda>(dir1, depth1).
        case pathDigits i depth1 fanoutBits of
          None \<Rightarrow> fail (Internal ''index does not fit'')
        | Some digits \<Rightarrow> bind (dirSet L dir1 digits kid) (\<lambda>newDir. ret (newDir, depth1))))"

primrec dirTruncate :: "('b, 'd) lib \<Rightarrow> 'd link \<Rightarrow> u64 list \<Rightarrow> ('b, 'd, 'd link) eng" where
  "dirTruncate L node [] = fail (Internal ''index out of range'')"
| "dirTruncate L node (d # rest) =
     bind (loadKids L node) (\<lambda>kids.
     bind (if rest = [] then ret (clampTo kids d)
           else if allZero rest then ret (clampTo kids d)
           else if length kids \<le> unat d \<or> kids ! unat d = None then fail (Internal ''no child'')
           else bind (dirTruncate L (kids ! unat d) rest) (\<lambda>child.
             ret ((growTo (clampTo kids d) (d + 1))[unat d := child]))) (\<lambda>kids'.
     commitDir L kids'))"

function dirShrink :: "('b, 'd) lib \<Rightarrow> 'd link \<Rightarrow> u64 \<Rightarrow> ('b, 'd) engine \<Rightarrow> ('d err + 'd link \<times> u64) \<times> ('b, 'd) engine" where
  "dirShrink L dir0 depth s =
     (if 1 < depth then
        bind (GetNode (dirs L) dir0) (\<lambda>node.
        if length (dKids node) \<noteq> 1 \<or> dKids node ! 0 = None then ret (dir0, depth)
        else dirShrink L (dKids node ! 0) (depth - 1)) s
      else (Inr (dir0, depth), s))"
  by pat_completeness auto
termination
  by (relation "measure (\<lambda>(L, dir0, depth, s). unat depth)")
    (auto simp: word_less_nat_alt unat_sub_u64 word_le_nat_alt)

declare dirShrink.simps [simp del]

section \<open>Vectors and pages\<close>

definition ceilDiv :: "nat \<Rightarrow> nat \<Rightarrow> nat" where
  "ceilDiv n m = n div m + (if n mod m = 0 then 0 else 1)"

lemma less_ceilDiv:
  assumes "0 < m"
  shows "i < ceilDiv n m \<longleftrightarrow> i * m < n"
proof -
  have n: "n = n div m * m + n mod m" by simp
  show ?thesis
  proof (cases "n mod m = 0")
    case True
    with n assms show ?thesis by (metis ceilDiv_def add.right_neutral mult_less_cancel2)
  next
    case False
    have "i * m < n \<longleftrightarrow> i \<le> n div m"
    proof
      assume "i * m < n"
      also have "n < Suc (n div m) * m" using assms n mod_less_divisor [OF assms, of n] by (metis add.commute add_less_cancel_left mult_Suc)
      finally show "i \<le> n div m" by (simp only: mult_less_cancel2 less_Suc_eq_le)
    next
      assume "i \<le> n div m"
      then have "i * m \<le> n div m * m" by simp
      with n False show "i * m < n" by linarith
    qed
    with False show ?thesis by (auto simp: ceilDiv_def)
  qed
qed

lemma ceilDiv_eqI: "0 < m \<Longrightarrow> (\<And>i. i * m < n \<longleftrightarrow> i < k) \<Longrightarrow> ceilDiv n m = k"
  by (metis less_ceilDiv linorder_neqE_nat less_irrefl)

lemma ceilDiv_Suc: "0 < m \<Longrightarrow> ceilDiv (Suc n) m = Suc (n div m)"
  by (rule ceilDiv_eqI) (auto simp: less_Suc_eq_le less_eq_div_iff_mult_less_eq)

lemma ceilDiv_mono: "0 < m \<Longrightarrow> n \<le> n' \<Longrightarrow> ceilDiv n m \<le> ceilDiv n' m"
  by (metis less_ceilDiv less_le_trans not_le less_irrefl)

lemma ceilDiv_one: "0 < n \<Longrightarrow> n \<le> m \<Longrightarrow> ceilDiv n m = 1"
  using le_trans [of n m "i * m" for i] by (intro ceilDiv_eqI) (auto simp: not_less [symmetric])

text \<open>A vector cut into runs of \<open>m\<close> entries, the last one possibly shorter.\<close>

definition chunks :: "nat \<Rightarrow> 'a list \<Rightarrow> 'a list list" where
  "chunks m xs = map (\<lambda>i. take m (drop (i * m) xs)) [0..<ceilDiv (length xs) m]"

lemma length_chunks: "length (chunks m xs) = ceilDiv (length xs) m"
  by (simp add: chunks_def)

lemma nth_chunks: "i < length (chunks m xs) \<Longrightarrow> chunks m xs ! i = take m (drop (i * m) xs)"
  by (simp add: chunks_def)

lemma chunks_Nil [simp]: "0 < m \<Longrightarrow> chunks m [] = []"
  by (simp add: chunks_def ceilDiv_def)

lemma chunks_append1:
  assumes m: "0 < m"
  shows "chunks m (xs @ [x]) =
    take (length xs div m) (chunks m xs) @ [drop (length xs div m * m) xs @ [x]]"
proof (rule nth_equalityI)
  let ?n = "length xs" and ?q = "length xs div m"
  have q: "?q \<le> length (chunks m xs)" by (simp add: length_chunks ceilDiv_def)
  have len: "length (chunks m (xs @ [x])) = Suc ?q" using m by (simp add: length_chunks ceilDiv_Suc)
  then show "length (chunks m (xs @ [x])) = length (take ?q (chunks m xs) @ [drop (?q * m) xs @ [x]])"
    using q by simp
  fix i assume "i < length (chunks m (xs @ [x]))"
  then have i: "i \<le> ?q" and nth: "chunks m (xs @ [x]) ! i = take m (drop (i * m) (xs @ [x]))"
    using len nth_chunks [of i m "xs @ [x]"] by simp_all
  show "chunks m (xs @ [x]) ! i = (take ?q (chunks m xs) @ [drop (?q * m) xs @ [x]]) ! i"
  proof (cases "i = ?q")
    case True
    have "?n - ?q * m < m" using m by (simp add: minus_div_mult_eq_mod)
    with True nth q show ?thesis by (simp add: nth_append)
  next
    case False
    with i have "Suc i * m \<le> ?q * m" by (intro mult_le_mono1) simp
    then have "Suc i * m \<le> ?n" using div_times_less_eq_dividend le_trans by blast
    with False i nth q show ?thesis by (simp add: nth_append nth_chunks)
  qed
qed

lemma chunks_last:
  assumes "0 < m" "length xs mod m \<noteq> 0"
  shows "length (chunks m xs) = Suc (length xs div m)" "chunks m xs ! (length xs div m) = drop (length xs div m * m) xs"
proof -
  show len: "length (chunks m xs) = Suc (length xs div m)" using assms by (simp add: length_chunks ceilDiv_def)
  have "length xs - length xs div m * m < m" using assms(1) by (simp add: minus_div_mult_eq_mod)
  then show "chunks m xs ! (length xs div m) = drop (length xs div m * m) xs"
    using len by (simp add: nth_chunks)
qed

lemma chunks_exact: "length xs mod m = 0 \<Longrightarrow> length (chunks m xs) = length xs div m"
  by (simp add: length_chunks ceilDiv_def)

lemma chunks_take:
  assumes m: "0 < m" and k: "k \<le> length xs"
  shows "chunks m (take k xs) = take (k div m) (chunks m xs) @
    (if k mod m = 0 then [] else [take (k mod m) (chunks m xs ! (k div m))])"
proof (rule nth_equalityI)
  let ?q = "k div m"
  have "?q + (if k mod m = 0 then 0 else 1) \<le> length (chunks m xs)"
    using ceilDiv_mono [OF m k] by (simp only: length_chunks ceilDiv_def)
  then have q: "?q \<le> length (chunks m xs)" "k mod m \<noteq> 0 \<Longrightarrow> ?q < length (chunks m xs)" by (auto split: if_splits)
  have len: "length (chunks m (take k xs)) = ?q + (if k mod m = 0 then 0 else 1)"
    using k by (simp add: length_chunks ceilDiv_def)
  show "length (chunks m (take k xs)) = length (take ?q (chunks m xs) @ (if k mod m = 0 then [] else [take (k mod m) (chunks m xs ! ?q)]))"
    using len q by simp
  fix i assume "i < length (chunks m (take k xs))"
  then have nth: "chunks m (take k xs) ! i = take m (drop (i * m) (take k xs))" and i: "i \<le> ?q" "i = ?q \<Longrightarrow> k mod m \<noteq> 0"
    using len nth_chunks [of i m "take k xs"] by (auto split: if_splits)
  show "chunks m (take k xs) ! i = (take ?q (chunks m xs) @ (if k mod m = 0 then [] else [take (k mod m) (chunks m xs ! ?q)])) ! i"
  proof (cases "i = ?q")
    case True
    have "k - ?q * m = k mod m" "k mod m < m" using m by (simp_all add: minus_div_mult_eq_mod)
    with True i(2) q nth show ?thesis by (simp add: nth_append nth_chunks drop_take)
  next
    case False
    with i have "Suc i * m \<le> ?q * m" by (intro mult_le_mono1) simp
    then have "Suc i * m \<le> k" using div_times_less_eq_dividend le_trans by blast
    with False i q nth show ?thesis by (simp add: nth_append nth_chunks drop_take)
  qed
qed

lemma chunks_one: "0 < length xs \<Longrightarrow> length xs \<le> m \<Longrightarrow> chunks m xs = [xs]"
  by (simp add: chunks_def ceilDiv_one)

lemma chunks_facts:
  assumes "0 < m" "ch \<in> set (chunks m xs)"
  shows "ch \<noteq> []" "length ch \<le> m"
proof -
  obtain i where i: "i < ceilDiv (length xs) m" "ch = take m (drop (i * m) xs)" using assms by (auto simp: chunks_def)
  from i(1) have "i * m < length xs" using less_ceilDiv [OF assms(1)] by simp
  with assms(1) i(2) show "ch \<noteq> []" by auto
  from i(2) show "length ch \<le> m" by simp
qed

text \<open>Pages are compared after dropping their trailing nulls.\<close>

lemma trim_take_trim: "trimTrailingNulls (take q (trimTrailingNulls xs)) = trimTrailingNulls (take q xs)"
proof -
  have pad: "trimTrailingNulls (ys @ replicate n None) = trimTrailingNulls ys" for ys :: "'a link list" and n
    by (induction n) (simp_all flip: replicate_append_same append_assoc)
  obtain n where n: "xs = trimTrailingNulls xs @ replicate n None" using trim_padded by blast
  then have "take q xs = take q (trimTrailingNulls xs) @ replicate (min (q - length (trimTrailingNulls xs)) n) None"
    by (metis take_append take_replicate)
  then show ?thesis by (simp add: pad)
qed

lemma pad_set:
  assumes "q \<le> length xs" "length xs \<le> Suc q" "unat d = q" "q < 18446744073709551615"
  shows "(growTo (trimTrailingNulls xs) (d + 1))[unat d := v] = take q xs @ [v]"
proof (rule nth_equalityI)
  have d: "unat (d + 1) = Suc q" using assms(3,4) by (simp add: unat_Suc_u64)
  have t: "length (trimTrailingNulls xs) \<le> Suc q" using length_trim [of xs] assms(2) by simp
  then show len: "length ((growTo (trimTrailingNulls xs) (d + 1))[unat d := v]) = length (take q xs @ [v])"
    using assms(1) d by (simp add: growTo_def)
  fix i assume "i < length ((growTo (trimTrailingNulls xs) (d + 1))[unat d := v])"
  then have i: "i \<le> q" using len assms(1) by simp
  show "(growTo (trimTrailingNulls xs) (d + 1))[unat d := v] ! i = (take q xs @ [v]) ! i"
  proof (cases "i = q")
    case False
    with i assms(1) have "kidAt xs i = xs ! i" by (simp add: kidAt_def)
    with False i assms(1,3) d t kidAt_trim [of xs i] show ?thesis
      by (auto simp: growTo_def kidAt_def nth_append split: if_splits)
  qed (use assms(1,3) d t in \<open>simp add: growTo_def nth_append\<close>)
qed

lemma clamp_set:
  assumes "q < length ks" "unat d = q" "q < 18446744073709551615"
  shows "(growTo (clampTo ks d) (d + 1))[unat d := v] = take q ks @ [v]"
proof -
  have "unat (d + 1) = Suc q" using assms(2,3) by (simp add: unat_Suc_u64)
  then have "growTo (clampTo ks d) (d + 1) = take q ks @ [None]"
    using assms(1,2) by (simp add: growTo_def clampTo_def)
  with assms show ?thesis by (simp add: list_update_append)
qed

section \<open>The canonical tree of a vector\<close>

definition pageCid :: "('b, 'd) lib \<Rightarrow> 'd link list \<Rightarrow> 'd link" where
  "pageCid L kids = (case EncodeDirNode L \<lparr>dKids = kids\<rparr> of Inr (b, c) \<Rightarrow> Some c | Inl e \<Rightarrow> None)"

text \<open>The root of the canonical tree of depth \<open>d\<close> and fan-out \<open>F\<close>; the tree of depth zero is the one entry
  itself.\<close>

primrec dirRoot :: "('b, 'd) lib \<Rightarrow> nat \<Rightarrow> nat \<Rightarrow> 'd link list \<Rightarrow> 'd link" where
  "dirRoot L F 0 vec = (case vec of [] \<Rightarrow> None | l # _ \<Rightarrow> l)"
| "dirRoot L F (Suc d) vec = pageCid L (map (dirRoot L F d) (chunks (F ^ d) vec))"

definition pageStored :: "('b, 'd) lib \<Rightarrow> ('b, 'd) engine \<Rightarrow> 'd link list \<Rightarrow> bool" where
  "pageStored L s kids \<longleftrightarrow> (\<exists>b c. EncodeDirNode L \<lparr>dKids = kids\<rparr> = Inr (b, c) \<and> held L s c b)"

text \<open>Every page of that tree is in the store.\<close>

primrec dirStored :: "('b, 'd) lib \<Rightarrow> ('b, 'd) engine \<Rightarrow> nat \<Rightarrow> nat \<Rightarrow> 'd link list \<Rightarrow> bool" where
  "dirStored L s F 0 vec \<longleftrightarrow> True"
| "dirStored L s F (Suc d) vec \<longleftrightarrow> pageStored L s (map (dirRoot L F d) (chunks (F ^ d) vec)) \<and>
     (\<forall>ch\<in>set (chunks (F ^ d) vec). dirStored L s F d ch)"

lemma pageStored_grows: "grows L s t \<Longrightarrow> pageStored L s kids \<Longrightarrow> pageStored L t kids"
  by (auto simp: pageStored_def intro: grows_held)

lemma dirStored_grows: "grows L s t \<Longrightarrow> dirStored L s F d vec \<Longrightarrow> dirStored L t F d vec"
  by (induction d arbitrary: vec) (auto intro: pageStored_grows)

lemma EncodeDirNode_trim:
  "trimTrailingNulls xs = trimTrailingNulls ys \<Longrightarrow> EncodeDirNode L \<lparr>dKids = xs\<rparr> = EncodeDirNode L \<lparr>dKids = ys\<rparr>"
  by (simp add: EncodeDirNode_def DirNodeValidate_def)

lemma page_trim:
  assumes "trimTrailingNulls xs = trimTrailingNulls ys"
  shows "pageCid L xs = pageCid L ys" "pageStored L s xs = pageStored L s ys"
  using EncodeDirNode_trim [OF assms, of L] by (simp_all add: pageCid_def pageStored_def)

lemma pageCid_Some: "lib_ok L \<Longrightarrow> \<exists>c. pageCid L kids = Some c"
  using EncodeDirNode_total [of L "\<lparr>dKids = kids\<rparr>"] by (auto simp: pageCid_def)

lemma dirRoot_Some: "lib_ok L \<Longrightarrow> 0 < d \<Longrightarrow> \<exists>c. dirRoot L F d vec = Some c"
  by (cases d) (auto simp: pageCid_Some)

lemma commitDir_grows [frame]: "lib_ok L \<Longrightarrow> keeps (grows L) (commitDir L kids)"
  unfolding commitDir_def case_prod_unfold by (intro frame dirS.store.Commit_keeps)

lemma commitDir_wp:
  assumes "lib_ok L" and post: "\<And>t. grows L s t \<Longrightarrow> pageStored L t kids \<Longrightarrow> Q (pageCid L kids) t"
  shows "wp (commitDir L kids) (envErr L big s) Q s"
  unfolding commitDir_def wp_bind
  by (rule dirS.store.Commit_law [OF assms(1) dirS.store.denotes_NewNode])
    (use post in \<open>auto simp: pageStored_def pageCid_def\<close>)

lemma loadKids_grows [frame]: "keeps (grows L) (loadKids L node)"
  unfolding loadKids_def by (auto intro!: frame dirS.store.get_keeps)

lemma loadKids_wp:
  assumes "lib_ok L" "cacheOk L s" "node = None \<and> kids = [] \<or> pageStored L s kids \<and> node = pageCid L kids"
    and post: "\<And>t. grows L s t \<Longrightarrow> Q (trimTrailingNulls kids) t"
  shows "wp (loadKids L node) (envErr L big s) Q s"
proof (cases "node = None")
  case True
  with assms(3) pageCid_Some [OF assms(1), of kids] have "kids = []" by auto
  with True post [of s] show ?thesis by (simp add: loadKids_def)
next
  case False
  with assms(3) obtain b c where c: "EncodeDirNode L \<lparr>dKids = kids\<rparr> = Inr (b, c)" "held L s c b" "node = Some c"
    by (auto simp: pageStored_def pageCid_def)
  have "wp (GetNode (dirs L) (Some c)) (envErr L big s) (\<lambda>n t. Q (dKids n) t) s"
    by (rule wp_mono [OF dirS.store.get_law [OF assms(1,2)]]) (use c in \<open>auto simp: canonDirNode_def intro: post\<close>)
  with c show ?thesis by (simp add: loadKids_def)
qed

section \<open>Setting a path\<close>

lemma dirSet_grows [frame]: "lib_ok L \<Longrightarrow> keeps (grows L) (dirSet L node digits kid)"
  by (induction digits arbitrary: node) (auto intro!: frame)

lemma digit_small:
  assumes "fanoutOk fb" "n < fan fb ^ Suc d"
  shows "unat (of_nat (n div fan fb ^ d) :: u64) = n div fan fb ^ d" "n div fan fb ^ d < 4294967296"
proof -
  have "n div fan fb ^ d < fan fb" using assms(2) by (simp add: less_mult_imp_div_less)
  also have "fan fb \<le> 2 ^ 32" using fanoutOk_nat [OF assms(1)] by (intro power_increasing) auto
  finally show "n div fan fb ^ d < 4294967296" by simp
  then show "unat (of_nat (n div fan fb ^ d) :: u64) = n div fan fb ^ d" by (simp add: unat_of_nat_u64)
qed

lemma child_of_append:
  assumes "lib_ok L" "0 < m" "m = F ^ d" "vec = [] \<or> dirStored L s F (Suc d) vec"
  defines "q \<equiv> length vec div m" and "kids \<equiv> map (dirRoot L F d) (chunks m vec)"
  defines "sub \<equiv> drop (q * m) vec"
  shows "kidAt kids q = (if sub = [] then None else dirRoot L F d sub)"
    and "sub \<noteq> [] \<Longrightarrow> dirStored L s F d sub" and "length sub = length vec mod m"
    and "q \<le> length kids" and "length kids \<le> Suc q"
proof -
  show len: "length sub = length vec mod m" by (simp add: sub_def q_def minus_div_mult_eq_mod)
  have "length kids = ceilDiv (length vec) m" by (simp add: kids_def length_chunks)
  then show "q \<le> length kids" "length kids \<le> Suc q" by (simp_all add: ceilDiv_def q_def)
  show "kidAt kids q = (if sub = [] then None else dirRoot L F d sub)"
  proof (cases "sub = []")
    case True
    then have "length kids = q" using len chunks_exact [of vec m] by (simp add: kids_def q_def)
    with True show ?thesis by (simp add: kidAt_def)
  next
    case False
    then have "length vec mod m \<noteq> 0" using len by (metis length_0_conv)
    from chunks_last [OF assms(2) this] False show ?thesis by (simp add: kidAt_def kids_def q_def sub_def)
  qed
  assume "sub \<noteq> []"
  then have r: "length vec mod m \<noteq> 0" using len by (metis length_0_conv)
  then have "sub \<in> set (chunks m vec)"
    using chunks_last [OF assms(2) r] unfolding sub_def q_def by (metis lessI nth_mem)
  moreover have "vec \<noteq> []" using r by auto
  ultimately show "dirStored L s F d sub" using assms(3,4) by simp
qed

lemma dirStored_append:
  assumes "0 < m" "m = F ^ d" "vec = [] \<or> dirStored L s F (Suc d) vec" "grows L s t"
    and "dirStored L t F d (drop (length vec div m * m) vec @ [kid])"
    and "pageStored L t (take (length vec div m) (map (dirRoot L F d) (chunks m vec)) @
      [dirRoot L F d (drop (length vec div m * m) vec @ [kid])])"
  shows "dirStored L t F (Suc d) (vec @ [kid])"
proof -
  have "dirStored L t F d ch" if "ch \<in> set (take (length vec div m) (chunks m vec))" for ch
  proof -
    from that have "ch \<in> set (chunks m vec)" by (rule in_set_takeD)
    moreover from this assms(1) have "vec \<noteq> []" by auto
    ultimately have "dirStored L s F d ch" using assms(2,3) by simp
    with assms(4) show ?thesis by (rule dirStored_grows)
  qed
  with assms(1,2,5,6) show ?thesis by (auto simp: chunks_append1 take_map)
qed

lemma dirSet_wp:
  assumes L: "lib_ok L" and fb: "fanoutOk fb"
  shows "cacheOk L s \<Longrightarrow> length vec < fan fb ^ d \<Longrightarrow> (vec \<noteq> [] \<Longrightarrow> dirStored L s (fan fb) d vec) \<Longrightarrow>
    node = (if vec = [] then None else dirRoot L (fan fb) d vec) \<Longrightarrow>
    (\<And>t. grows L s t \<Longrightarrow> dirStored L t (fan fb) d (vec @ [kid]) \<Longrightarrow> Q (dirRoot L (fan fb) d (vec @ [kid])) t) \<Longrightarrow>
    wp (dirSet L node (map of_nat (digitsOf (fan fb) d (length vec))) kid) (envErr L big s) Q s"
proof (induction d arbitrary: s vec node Q)
  case 0
  then show ?case by (simp add: wp_def)
next
  case (Suc d)
  let ?F = "fan fb" and ?n = "length vec" and ?m = "fan fb ^ d"
  let ?q = "?n div ?m" and ?kids = "map (dirRoot L ?F d) (chunks ?m vec)" and ?sub = "drop (?n div ?m * ?m) vec"
  let ?d = "of_nat ?q :: u64"
  have m: "0 < ?m" by simp
  have stored0: "vec = [] \<or> dirStored L s ?F (Suc d) vec" using Suc.prems(3) by blast
  note ch = child_of_append [OF L m refl stored0]
  have q: "unat ?d = ?q" "?q < 18446744073709551615" using digit_small [OF fb Suc.prems(2)] by simp_all
  have page: "node = None \<and> ?kids = [] \<or> pageStored L s ?kids \<and> node = pageCid L ?kids"
    using Suc.prems(3,4) by auto
  have sub: "wp (dirSet L (kidAt ?kids ?q) (map of_nat (digitsOf ?F d (length ?sub))) kid) (envErr L big s)
    (\<lambda>new. wp (commitDir L ((growTo (trimTrailingNulls ?kids) (?d + 1))[unat ?d := new])) (envErr L big s) Q) t"
    if st: "grows L s t" for t
    unfolding grows_env [OF st, symmetric]
  proof (rule Suc.IH)
    show "cacheOk L t" using st Suc.prems(1) by (rule cacheOk_grows)
    show "length ?sub < ?F ^ d" using ch(3) m by simp
    show "dirStored L t ?F d ?sub" if "?sub \<noteq> []" using dirStored_grows [OF st ch(2)] that by blast
    show "kidAt ?kids ?q = (if ?sub = [] then None else dirRoot L ?F d ?sub)" by (rule ch(1))
    fix u assume tu: "grows L t u" and new: "dirStored L u ?F d (?sub @ [kid])"
    show "wp (commitDir L ((growTo (trimTrailingNulls ?kids) (?d + 1))[unat ?d := dirRoot L ?F d (?sub @ [kid])]))
      (envErr L big t) Q u"
      unfolding pad_set [OF ch(4,5) q] grows_env [OF tu, symmetric]
    proof (rule commitDir_wp [OF L])
      fix v assume uv: "grows L u v" and stored: "pageStored L v (take ?q ?kids @ [dirRoot L ?F d (?sub @ [kid])])"
      have sv: "grows L s v" using st tu uv by (blast intro: grows_trans)
      have "dirStored L v ?F (Suc d) (vec @ [kid])"
        using dirStored_append [OF m refl stored0 sv dirStored_grows [OF uv new] stored] .
      from Suc.prems(5) [OF sv this] show "Q (pageCid L (take ?q ?kids @ [dirRoot L ?F d (?sub @ [kid])])) v"
        using m by (simp add: chunks_append1 take_map)
    qed
  qed
  have "wp (loadKids L node) (envErr L big s) (\<lambda>kids t.
     wp (dirSet L (kidAt kids (unat ?d)) (map of_nat (digitsOf ?F d (?n mod ?m))) kid) (envErr L big s)
     (\<lambda>new. wp (commitDir L ((growTo kids (?d + 1))[unat ?d := new])) (envErr L big s) Q) t) s"
    by (rule loadKids_wp [OF L Suc.prems(1) page])
      (use sub q(1) ch(3) in simp)
  then show ?case by simp
qed

section \<open>Appending\<close>

text \<open>A directory of \<open>n\<close> entries: nothing for an empty vector, else the canonical tree of the canonical depth,
  with all its pages stored.\<close>

definition dirOk :: "('b, 'd) lib \<Rightarrow> ('b, 'd) engine \<Rightarrow> u64 \<Rightarrow> 'd link list \<Rightarrow> 'd link \<Rightarrow> u64 \<Rightarrow> bool" where
  "dirOk L s fb vec dir0 depth \<longleftrightarrow>
     length vec < 18446744073709551615 \<and> depth = canonicalDepth (of_nat (length vec)) fb \<and>
     (if vec = [] then dir0 = None
      else dir0 = dirRoot L (fan fb) (unat depth) vec \<and> dirStored L s (fan fb) (unat depth) vec)"

lemma dirOk_grows: "grows L s t \<Longrightarrow> dirOk L s fb vec dir0 depth \<Longrightarrow> dirOk L t fb vec dir0 depth"
  by (auto simp: dirOk_def dirStored_grows)

lemma dirOk_unique: "dirOk L s fb vec dir0 depth \<Longrightarrow> dirOk L t fb vec dir1 depth1 \<Longrightarrow> dir0 = dir1 \<and> depth = depth1"
  by (auto simp: dirOk_def split: if_splits)

lemma dirOk_depth:
  assumes "fanoutOk fb" "dirOk L s fb vec dir0 depth"
  shows "depthFor (fan fb) (length vec) (unat depth)" "unat depth \<le> 64"
  using canonicalDepth_depthFor [OF assms(1), of "of_nat (length vec)"] assms(2)
  by (simp_all add: dirOk_def unat_of_nat_u64)

lemma canonicalDepth_eqI:
  assumes "fanoutOk fb" "depthFor (fan fb) n d" "n < 18446744073709551616"
  shows "unat (canonicalDepth (of_nat n) fb) = d"
  using depthFor_unique [OF fan_ge2 [OF assms(1)] _ assms(2)] canonicalDepth_depthFor(1) [OF assms(1), of "of_nat n"] assms(3)
  by (simp add: unat_of_nat_u64)

lemma dirAppend_grows [frame]: "lib_ok L \<Longrightarrow> keeps (grows L) (dirAppend L dir0 depth fb i kid)"
  unfolding dirAppend_def case_prod_unfold Let_def by (auto split: option.splits intro!: frame)

lemma wrap_page:
  assumes "vec \<noteq> []" "length vec \<le> F ^ d"
  shows "dirRoot L F (Suc d) vec = pageCid L [dirRoot L F d vec]"
    and "dirStored L s F (Suc d) vec \<longleftrightarrow> pageStored L s [dirRoot L F d vec] \<and> dirStored L s F d vec"
  using assms chunks_one [of vec "F ^ d"] by simp_all

text \<open>The part after the tree is deep enough.\<close>

lemma dirSet_fits_wp:
  assumes L: "lib_ok L" and fb: "fanoutOk fb" and "cacheOk L s" "length vec + 1 < 18446744073709551615"
    and d: "unat depth \<le> 64" "length vec < fan fb ^ unat depth" "depthFor (fan fb) (Suc (length vec)) (unat depth)"
    and vec: "vec \<noteq> []" "dir0 = dirRoot L (fan fb) (unat depth) vec" "dirStored L s (fan fb) (unat depth) vec"
    and post: "\<And>t dir1. grows L s t \<Longrightarrow> dirOk L t fb (vec @ [kid]) dir1 depth \<Longrightarrow> Q (dir1, depth) t"
  shows "wp (case pathDigits (of_nat (length vec)) depth fb of
      None \<Rightarrow> fail (Internal ''index does not fit'')
    | Some digits \<Rightarrow> bind (dirSet L dir0 digits kid) (\<lambda>newDir. ret (newDir, depth))) (envErr L big s) Q s"
proof -
  have n: "unat (of_nat (length vec) :: u64) = length vec" using assms(4) by (simp add: unat_of_nat_u64)
  have "unat (canonicalDepth (of_nat (length (vec @ [kid]))) fb) = unat depth"
    using canonicalDepth_eqI [OF fb d(3)] assms(4) by simp
  then have depth: "depth = canonicalDepth (of_nat (length (vec @ [kid]))) fb" by (simp only: u64_eq_iff)
  have ok: "dirOk L t fb (vec @ [kid]) (dirRoot L (fan fb) (unat depth) (vec @ [kid])) depth"
    if "dirStored L t (fan fb) (unat depth) (vec @ [kid])" for t
    using that depth assms(4) by (simp add: dirOk_def)
  have "wp (dirSet L dir0 (map of_nat (digitsOf (fan fb) (unat depth) (length vec))) kid) (envErr L big s)
      (\<lambda>newDir t. Q (newDir, depth) t) s"
    by (rule dirSet_wp [OF L fb assms(3) d(2)])
      (use vec in \<open>auto intro!: post ok\<close>)
  then show ?thesis using pathDigits_eq [OF fb d(1), of "of_nat (length vec)"] d(2) n by simp
qed

lemma dirAppend_wp:
  assumes L: "lib_ok L" and fb: "fanoutOk fb" and ca: "cacheOk L s" and ok: "dirOk L s fb vec dir0 depth"
    and n: "length vec + 1 < 18446744073709551615" and i: "unat i = length vec"
    and post: "\<And>t dir1 depth1. grows L s t \<Longrightarrow> dirOk L t fb (vec @ [kid]) dir1 depth1 \<Longrightarrow> Q (dir1, depth1) t"
  shows "wp (dirAppend L dir0 depth fb i kid) (envErr L big s) Q s"
proof (cases "vec = []")
  case True
  have "canonicalDepth (of_nat 1) fb = 1" by (simp add: canonicalDepth_def)
  moreover have "depth = 0" "i = 0" using ok i True by (auto simp: dirOk_def canonicalDepth_def u64_eq_iff)
  ultimately show ?thesis
    by (auto simp: dirAppend_def intro!: commitDir_wp [OF L] post simp: True dirOk_def chunks_one)
next
  case False
  let ?F = "fan fb" and ?n = "length vec"
  have F: "2 \<le> ?F" using fb by (rule fan_ge2)
  note d = dirOk_depth [OF fb ok]
  have d1: "1 \<le> unat depth" "?n \<le> ?F ^ unat depth" using d(1) False by (auto simp: depthFor_def)
  have vec: "dir0 = dirRoot L ?F (unat depth) vec" "dirStored L s ?F (unat depth) vec"
    using ok False by (auto simp: dirOk_def)
  have ii: "i = of_nat ?n" using i by (metis unat_of_nat_u64 u64_eq_iff unat_u64_less)
  have cap: "unat (capacity depth fb) = min (?F ^ unat depth) 18446744073709551615"
    using d(2) by (rule unat_capacity [OF fb])
  have full: "i = capacity depth fb \<longleftrightarrow> ?n = ?F ^ unat depth" "\<not> capacity depth fb < i"
    using n d1(2) i by (auto simp: u64_eq_iff cap word_less_nat_alt)
  have depth0: "depth \<noteq> 0" using d1(1) by auto
  show ?thesis
  proof (cases "?n = ?F ^ unat depth")
    case True
    have "unat depth < 64"
    proof (rule ccontr)
      assume "\<not> unat depth < 64"
      then have "(2 :: nat) ^ 64 \<le> ?F ^ unat depth" using d(2) F power_mono [of 2 ?F 64] by simp
      with True n show False by simp
    qed
    then have s: "unat (depth + 1) = Suc (unat depth)" by (simp add: unat_Suc_u64)
    have "2 * ?F ^ unat depth \<le> ?F * ?F ^ unat depth" using F by (rule mult_le_mono1)
    moreover have "0 < ?F ^ unat depth" by simp
    ultimately have "Suc (?F ^ unat depth) \<le> ?F * ?F ^ unat depth" by linarith
    then have fit: "?n < ?F ^ unat (depth + 1)" "depthFor ?F (Suc ?n) (unat (depth + 1))"
      using True d1 F by (auto simp: s depthFor_def)
    have "wp (commitDir L [dir0]) (envErr L big s) (\<lambda>c t. wp (case pathDigits i (depth + 1) fb of
        None \<Rightarrow> fail (Internal ''index does not fit'')
      | Some digits \<Rightarrow> bind (dirSet L c digits kid) (\<lambda>newDir. ret (newDir, depth + 1))) (envErr L big s) Q t) s"
    proof (rule commitDir_wp [OF L])
      fix t assume st: "grows L s t" and page: "pageStored L t [dir0]"
      have r: "pageCid L [dir0] = dirRoot L ?F (unat (depth + 1)) vec" "dirStored L t ?F (unat (depth + 1)) vec"
        unfolding s wrap_page [OF False d1(2)] using vec page dirStored_grows [OF st] by simp_all
      show "wp (case pathDigits i (depth + 1) fb of
          None \<Rightarrow> fail (Internal ''index does not fit'')
        | Some digits \<Rightarrow> bind (dirSet L (pageCid L [dir0]) digits kid) (\<lambda>newDir. ret (newDir, depth + 1))) (envErr L big s) Q t"
        unfolding grows_env [OF st, symmetric] ii
        by (rule dirSet_fits_wp [OF L fb cacheOk_grows [OF st ca] n _ fit False r])
          (use s \<open>unat depth < 64\<close> in \<open>auto intro: post grows_trans [OF st]\<close>)
    qed
    with True full depth0 show ?thesis by (simp add: dirAppend_def)
  next
    case nf: False
    have dn: "?n < ?F ^ unat depth" using nf d1(2) by simp
    have df: "depthFor ?F (Suc ?n) (unat depth)" using d(1) nf False by (auto simp: depthFor_def)
    have "wp (case pathDigits (of_nat ?n) depth fb of
        None \<Rightarrow> fail (Internal ''index does not fit'')
      | Some digits \<Rightarrow> bind (dirSet L dir0 digits kid) (\<lambda>newDir. ret (newDir, depth))) (envErr L big s) Q s"
      by (rule dirSet_fits_wp [OF L fb ca n d(2) dn df False vec]) (rule post)
    with nf full depth0 ii show ?thesis by (simp add: dirAppend_def)
  qed
qed

section \<open>Truncating\<close>

lemma dirTruncate_grows [frame]: "lib_ok L \<Longrightarrow> keeps (grows L) (dirTruncate L node digits)"
  by (induction digits arbitrary: node) (auto intro!: frame)

lemma trim_all_Some: "(\<And>x. x \<in> set xs \<Longrightarrow> x \<noteq> None) \<Longrightarrow> trimTrailingNulls xs = xs"
  by (cases xs rule: rev_cases) (fastforce simp: trimTrailingNulls_def)+

lemma allZero_path:
  assumes "fanoutOk fb" "i < fan fb ^ d"
  shows "allZero (map of_nat (digitsOf (fan fb) d i)) \<longleftrightarrow> i = 0"
proof -
  have "fan fb \<le> 2 ^ 32" using fanoutOk_nat [OF assms(1)] by (intro power_increasing) auto
  then have "(of_nat x :: u64) = 0 \<longleftrightarrow> x = 0" if "x \<in> set (digitsOf (fan fb) d i)" for x
    using digitsOf_less [OF assms(2) that] by (simp add: u64_eq_iff unat_of_nat_u64)
  then have "allZero (map of_nat (digitsOf (fan fb) d i)) \<longleftrightarrow> list_all (\<lambda>x. x = 0) (digitsOf (fan fb) d i)"
    by (auto simp: allZero_def list_all_iff)
  with allZero_digits [OF assms(2)] show ?thesis by simp
qed

text \<open>What is left of a page whose cut falls on a child boundary, and of one whose cut falls inside a child.\<close>

lemma cut_at_boundary:
  assumes "0 < m" "m = F ^ d" "k \<le> length vec" "k mod m = 0" "dirStored L s F (Suc d) vec" "grows L s t"
    and "pageStored L t (take (k div m) (trimTrailingNulls (map (dirRoot L F d) (chunks m vec))))"
  shows "dirStored L t F (Suc d) (take k vec)"
    and "pageCid L (take (k div m) (trimTrailingNulls (map (dirRoot L F d) (chunks m vec)))) = dirRoot L F (Suc d) (take k vec)"
proof -
  let ?kids = "map (dirRoot L F d) (chunks m vec)"
  have ch: "chunks m (take k vec) = take (k div m) (chunks m vec)"
    using chunks_take [OF assms(1,3)] assms(4) by simp
  have eq: "trimTrailingNulls (take (k div m) (trimTrailingNulls ?kids)) = trimTrailingNulls (take (k div m) ?kids)"
    by (rule trim_take_trim)
  show "pageCid L (take (k div m) (trimTrailingNulls ?kids)) = dirRoot L F (Suc d) (take k vec)"
    using page_trim(1) [OF eq, of L] ch assms(2) by (simp add: take_map)
  have "dirStored L t F d c" if "c \<in> set (take (k div m) (chunks m vec))" for c
    using that assms(2,5) dirStored_grows [OF assms(6)] by (auto dest: in_set_takeD)
  then show "dirStored L t F (Suc d) (take k vec)"
    using page_trim(2) [OF eq, of L t] ch assms(2,7) by (simp add: take_map)
qed

lemma cut_inside_child:
  assumes "0 < m" "m = F ^ d" "k \<le> length vec" "k mod m \<noteq> 0" "dirStored L s F (Suc d) vec" "grows L s t"
    and "dirStored L t F d (take (k mod m) (chunks m vec ! (k div m)))"
    and "pageStored L t (take (k div m) (map (dirRoot L F d) (chunks m vec)) @
      [dirRoot L F d (take (k mod m) (chunks m vec ! (k div m)))])"
  shows "dirStored L t F (Suc d) (take k vec)"
    and "dirRoot L F (Suc d) (take k vec) = pageCid L (take (k div m) (map (dirRoot L F d) (chunks m vec)) @
      [dirRoot L F d (take (k mod m) (chunks m vec ! (k div m)))])"
proof -
  have ch: "chunks m (take k vec) = take (k div m) (chunks m vec) @ [take (k mod m) (chunks m vec ! (k div m))]"
    using chunks_take [OF assms(1,3)] assms(4) by simp
  have "dirStored L t F d c" if "c \<in> set (take (k div m) (chunks m vec))" for c
    using that assms(2,5) dirStored_grows [OF assms(6)] by (auto dest: in_set_takeD)
  with ch assms(2,7,8) show "dirStored L t F (Suc d) (take k vec)" by (auto simp: take_map)
  show "dirRoot L F (Suc d) (take k vec) = pageCid L (take (k div m) (map (dirRoot L F d) (chunks m vec)) @
      [dirRoot L F d (take (k mod m) (chunks m vec ! (k div m)))])"
    using ch assms(2) by (simp add: take_map)
qed

lemma chunk_at:
  assumes "0 < m" "k \<le> length vec" "k mod m \<noteq> 0"
  shows "k div m < length (chunks m vec)" "k mod m \<le> length (chunks m vec ! (k div m))"
proof -
  have lt: "k div m * m + k mod m \<le> length vec" using assms(2) by simp
  with assms(3) have "k div m * m < length vec" by linarith
  then show l: "k div m < length (chunks m vec)"
    using less_ceilDiv [OF assms(1), of "k div m" "length vec"] by (simp add: length_chunks)
  have "k mod m \<le> length vec - k div m * m" using lt by linarith
  then show "k mod m \<le> length (chunks m vec ! (k div m))"
    using mod_less_divisor [OF assms(1), of k] by (simp add: nth_chunks [OF l])
qed

lemma dirTruncate_wp:
  assumes L: "lib_ok L" and fb: "fanoutOk fb"
  shows "cacheOk L s \<Longrightarrow> 0 < k \<Longrightarrow> k \<le> length vec \<Longrightarrow> length vec \<le> fan fb ^ d \<Longrightarrow> k < fan fb ^ d \<Longrightarrow> 0 < d \<Longrightarrow>
    dirStored L s (fan fb) d vec \<Longrightarrow>
    (\<And>t. grows L s t \<Longrightarrow> dirStored L t (fan fb) d (take k vec) \<Longrightarrow> Q (dirRoot L (fan fb) d (take k vec)) t) \<Longrightarrow>
    wp (dirTruncate L (dirRoot L (fan fb) d vec) (map of_nat (digitsOf (fan fb) d k))) (envErr L big s) Q s"
proof (induction d arbitrary: s vec k Q)
  case (Suc d)
  let ?F = "fan fb" and ?m = "fan fb ^ d"
  let ?q = "k div ?m" and ?r = "k mod ?m" and ?kids = "map (dirRoot L ?F d) (chunks ?m vec)"
  let ?d = "of_nat ?q :: u64"
  have m: "0 < ?m" by simp
  have q: "unat ?d = ?q" "?q < 18446744073709551615" using digit_small [OF fb Suc.prems(5)] by simp_all
  have page: "dirRoot L ?F (Suc d) vec = None \<and> ?kids = [] \<or> pageStored L s ?kids \<and> dirRoot L ?F (Suc d) vec = pageCid L ?kids"
    using Suc.prems(7) by simp
  let ?rest = "map of_nat (digitsOf ?F d ?r) :: u64 list"
  have zero: "allZero ?rest \<longleftrightarrow> ?r = 0" using allZero_path [OF fb, of ?r d] m by simp
  have step: "wp (dirTruncate L (dirRoot L ?F (Suc d) vec) (?d # ?rest)) (envErr L big s) Q s"
  proof (cases "?r = 0")
    case True
    have "wp (commitDir L (take ?q (trimTrailingNulls ?kids))) (envErr L big s) Q t" if st: "grows L s t" for t
      unfolding grows_env [OF st, symmetric]
      by (rule commitDir_wp [OF L])
        (use cut_at_boundary [OF m refl Suc.prems(3) True Suc.prems(7)] grows_trans [OF st] Suc.prems(8) in metis)
    then show ?thesis
      unfolding dirTruncate.simps wp_bind
      by (intro loadKids_wp [OF L Suc.prems(1) page]) (use True zero q(1) in \<open>simp add: clampTo_def\<close>)
  next
    case False
    let ?c = "chunks ?m vec ! ?q"
    have d: "0 < d" using False by (cases d) auto
    note at = chunk_at [OF m Suc.prems(3) False]
    have c: "?c \<in> set (chunks ?m vec)" using at(1) by simp
    have trim: "trimTrailingNulls ?kids = ?kids"
      using dirRoot_Some [OF L d] by (intro trim_all_Some) force
    have kid: "?kids ! ?q = dirRoot L ?F d ?c" "?q < length ?kids" using at(1) by simp_all
    have "wp (dirTruncate L (dirRoot L ?F d ?c) ?rest) (envErr L big s)
      (\<lambda>child. wp (commitDir L ((growTo (clampTo ?kids ?d) (?d + 1))[unat ?d := child])) (envErr L big s) Q) t"
      if st: "grows L s t" for t
      unfolding grows_env [OF st, symmetric]
    proof (rule Suc.IH)
      show "cacheOk L t" using st Suc.prems(1) by (rule cacheOk_grows)
      show "dirStored L t ?F d ?c" using dirStored_grows [OF st] Suc.prems(7) c by simp
      fix u assume tu: "grows L t u" and new: "dirStored L u ?F d (take ?r ?c)"
      have su: "grows L s u" using st tu by (rule grows_trans)
      show "wp (commitDir L ((growTo (clampTo ?kids ?d) (?d + 1))[unat ?d := dirRoot L ?F d (take ?r ?c)])) (envErr L big t) Q u"
        unfolding clamp_set [OF kid(2) q] grows_env [OF tu, symmetric]
        by (rule commitDir_wp [OF L])
          (use cut_inside_child [OF m refl Suc.prems(3) False Suc.prems(7)] grows_trans [OF su] dirStored_grows [OF _ new] Suc.prems(8) in metis)
    qed (use False d at(2) m chunks_facts(2) [OF m c] in auto)
    moreover have "?rest \<noteq> []" using d by (metis length_digitsOf length_map length_greater_0_conv)
    ultimately show ?thesis
      unfolding dirTruncate.simps wp_bind
      by (intro loadKids_wp [OF L Suc.prems(1) page])
        (use False zero q(1) kid dirRoot_Some [OF L d, of ?F ?c] trim in auto)
  qed
  then show ?case by simp
qed simp

section \<open>Shrinking\<close>

lemma dirShrink_grows [frame]: "keeps (grows L) (dirShrink L dir0 depth)"
proof (rule keepsI)
  fix s r t show "dirShrink L dir0 depth s = (r, t) \<Longrightarrow> grows L s t"
  proof (induction L dir0 depth s arbitrary: r t rule: dirShrink.induct)
    case (1 L dir0 depth s)
    obtain n u where g: "GetNode (dirs L) dir0 s = (n, u)" by fastforce
    have su: "grows L s u" using dirS.store.get_keeps g by (rule keepsD)
    show ?case
    proof (cases "1 < depth")
      case True
      show ?thesis
      proof (cases n)
        case (Inr node)
        with g have g': "GetNode (dirs L) dir0 s = (Inr node, u)" by simp
        show ?thesis
        proof (cases "length (dKids node) \<noteq> 1 \<or> dKids node ! 0 = None")
          case stop: True
          with "1.prems" True g' su show ?thesis by (auto simp: dirShrink.simps [of L dir0])
        next
          case go: False
          with "1.prems" True g' have "dirShrink L (dKids node ! 0) (depth - 1) u = (r, t)"
            by (auto simp: dirShrink.simps [of L dir0])
          from "1.IH" [OF True g' go this] su show ?thesis by (rule grows_trans [rotated])
        qed
      qed (use "1.prems" True g su in \<open>simp add: dirShrink.simps [of L dir0]\<close>)
    qed (use "1.prems" in \<open>simp add: dirShrink.simps [of L dir0]\<close>)
  qed
qed

lemma wp_dirShrink:
  "wp (dirShrink L dir0 depth) E Q s =
    (if 1 < depth then wp (GetNode (dirs L) dir0) E (\<lambda>node.
       if length (dKids node) \<noteq> 1 \<or> dKids node ! 0 = None then Q (dir0, depth)
       else wp (dirShrink L (dKids node ! 0) (depth - 1)) E Q) s
     else Q (dir0, depth) s)"
  by (subst wp_def, subst dirShrink.simps)
    (auto simp: wp_def bind_def split: prod.splits sum.splits)

lemma dirShrink_wp:
  assumes L: "lib_ok L" and fb: "fanoutOk fb"
  shows "cacheOk L s \<Longrightarrow> vec \<noteq> [] \<Longrightarrow> length vec \<le> fan fb ^ d \<Longrightarrow> unat depth = d \<Longrightarrow> 0 < d \<Longrightarrow>
    dirStored L s (fan fb) d vec \<Longrightarrow>
    (\<And>t d1. grows L s t \<Longrightarrow> depthFor (fan fb) (length vec) (unat d1) \<Longrightarrow> dirStored L t (fan fb) (unat d1) vec \<Longrightarrow>
      Q (dirRoot L (fan fb) (unat d1) vec, d1) t) \<Longrightarrow>
    wp (dirShrink L (dirRoot L (fan fb) d vec) depth) (envErr L big s) Q s"
proof (induction d arbitrary: s depth Q)
  case (Suc d)
  let ?F = "fan fb" and ?kids = "map (dirRoot L (fan fb) d) (chunks (fan fb ^ d) vec)"
  show ?case
  proof (cases "d = 0")
    case True
    with Suc.prems(4) have "\<not> 1 < depth" by (simp add: word_less_nat_alt)
    moreover have "Q (dirRoot L ?F (Suc d) vec, depth) s"
      using Suc.prems(7) [OF grows_refl, of depth] Suc.prems(2,3,4,6) True by (simp add: depthFor_def)
    ultimately show ?thesis by (subst wp_dirShrink) simp
  next
    case False
    then have deep: "1 < depth" "unat (depth - 1) = d"
      using Suc.prems(4) by (simp_all add: word_less_nat_alt unat_sub_u64 word_le_nat_alt)
    have trim: "trimTrailingNulls ?kids = ?kids"
      using dirRoot_Some [OF L, of d] False by (intro trim_all_Some) force
    obtain b c where c: "EncodeDirNode L \<lparr>dKids = ?kids\<rparr> = Inr (b, c)" "held L s c b" "dirRoot L ?F (Suc d) vec = Some c"
      using Suc.prems(6) by (auto simp: pageStored_def pageCid_def)
    have step: "(if length (dKids node) \<noteq> 1 \<or> dKids node ! 0 = None then Q (Some c, depth)
       else wp (dirShrink L (dKids node ! 0) (depth - 1)) (envErr L big s) Q) t"
      if st: "grows L s t" and node: "dKids node = ?kids" for node t
    proof (cases "length vec \<le> ?F ^ d")
      case True
      note w = wrap_page [OF Suc.prems(2) True]
      have "chunks (?F ^ d) vec = [vec]" using True Suc.prems(2) by (intro chunks_one) auto
      with node have kid: "dKids node = [dirRoot L ?F d vec]" by simp
      have "wp (dirShrink L (dirRoot L ?F d vec) (depth - 1)) (envErr L big t) Q t"
        by (rule Suc.IH [OF cacheOk_grows [OF st Suc.prems(1)] Suc.prems(2) True deep(2)])
          (use False Suc.prems(6,7) w(2) [of L s] dirStored_grows [OF st] grows_trans [OF st] in auto)
      then show ?thesis using kid dirRoot_Some [OF L, of d ?F vec] False grows_env [OF st] by auto
    next
      case far: False
      have "length ?kids \<noteq> 1"
        using less_ceilDiv [of "?F ^ d" 1 "length vec"] far by (simp add: length_chunks)
      moreover have "depthFor ?F (length vec) (unat depth)"
        using far Suc.prems(2,3,4) False by (auto simp: depthFor_def)
      ultimately show ?thesis
        using node Suc.prems(7) [OF st, of depth] dirStored_grows [OF st Suc.prems(6)] Suc.prems(4) c(3) by simp
    qed
    have "wp (GetNode (dirs L) (Some c)) (envErr L big s) (\<lambda>node.
       if length (dKids node) \<noteq> 1 \<or> dKids node ! 0 = None then Q (Some c, depth)
       else wp (dirShrink L (dKids node ! 0) (depth - 1)) (envErr L big s) Q) s"
    proof (rule wp_mono [OF dirS.store.get_law [OF L Suc.prems(1)]])
      show "\<exists>b. EncodeDirNode L \<lparr>dKids = ?kids\<rparr> = Inr (b, c) \<and> held L s c b" using c by blast
    qed (intro step; simp add: canonDirNode_def trim)
    then show ?thesis unfolding c(3) by (subst wp_dirShrink) (simp add: deep)
  qed
qed simp

text \<open>Truncating and shrinking together: the canonical directory of the first \<open>k\<close> entries.\<close>

lemma dirCut_wp:
  assumes L: "lib_ok L" and fb: "fanoutOk fb" and ca: "cacheOk L s" and ok: "dirOk L s fb vec dir0 depth"
    and k: "0 < unat k" "unat k < length vec"
    and post: "\<And>t dir1 depth1. grows L s t \<Longrightarrow> dirOk L t fb (take (unat k) vec) dir1 depth1 \<Longrightarrow> Q (dir1, depth1) t"
  shows "\<exists>digits. pathDigits k depth fb = Some digits \<and>
    wp (bind (dirTruncate L dir0 digits) (\<lambda>d1. dirShrink L d1 depth)) (envErr L big s) Q s"
proof -
  let ?F = "fan fb" and ?d = "unat depth" and ?vec = "take (unat k) vec"
  note d = dirOk_depth [OF fb ok]
  have vec: "vec \<noteq> []" using k by auto
  then have d1: "0 < ?d" "length vec \<le> ?F ^ ?d" using d(1) by (auto simp: depthFor_def)
  have st: "dir0 = dirRoot L ?F ?d vec" "dirStored L s ?F ?d vec" and len: "length vec < 18446744073709551615"
    using ok vec by (auto simp: dirOk_def)
  have kd: "unat k < ?F ^ ?d" using k d1 by simp
  have "wp (dirTruncate L dir0 (map of_nat (digitsOf ?F ?d (unat k)))) (envErr L big s)
    (\<lambda>d1. wp (dirShrink L d1 depth) (envErr L big s) Q) s"
    unfolding st(1)
  proof (rule dirTruncate_wp [OF L fb ca k(1) _ d1(2) kd d1(1) st(2)])
    fix t assume t: "grows L s t" and stored: "dirStored L t ?F ?d ?vec"
    show "wp (dirShrink L (dirRoot L ?F ?d ?vec) depth) (envErr L big s) Q t"
      unfolding grows_env [OF t, symmetric]
    proof (rule dirShrink_wp [OF L fb cacheOk_grows [OF t ca] _ _ refl d1(1) stored])
      fix u and e :: u64 assume u: "grows L t u" "depthFor ?F (length ?vec) (unat e)" "dirStored L u ?F (unat e) ?vec"
      have "unat (canonicalDepth (of_nat (length ?vec)) fb) = unat e"
        using len by (intro canonicalDepth_eqI [OF fb u(2)]) simp
      then have e: "e = canonicalDepth (of_nat (length ?vec)) fb" by (simp only: u64_eq_iff)
      have "?vec \<noteq> []" using vec k by auto
      then have "dirOk L u fb ?vec (dirRoot L ?F (unat e) ?vec) e"
        unfolding dirOk_def using e [symmetric] u(3) len by simp
      then show "Q (dirRoot L ?F (unat e) ?vec, e) u" using post grows_trans [OF t u(1)] by blast
    qed (use vec k d1 in auto)
  qed (use k in simp)
  with pathDigits_eq [OF fb d(2), of k] kd show ?thesis by simp
qed

end
