(* ===== verification/Lookup.thy ===== *)
theory Lookup
  imports Dir
begin

text \<open>
  The read path, \<open>archive/lookup.go\<close>, and what a published state means: \<open>headOk\<close> relates an engine state to
  the rows it covers and the slot it is synced to. Reads return what a linear search through those rows
  returns.
\<close>

section \<open>The source's functions\<close>

datatype Status = StatusFound | StatusBeforeOrigin | StatusNotYetCovered | StatusAbsent

record 'd Result =
  resStatus :: Status
  resSlot :: u64
  resEntries :: "'d RefEntry list"
  resMissingVH :: "vhash option"

definition plainResult :: "Status \<Rightarrow> u64 \<Rightarrow> 'd Result" where
  "plainResult status slot = \<lparr>resStatus = status, resSlot = slot, resEntries = [], resMissingVH = None\<rparr>"

text \<open>\<open>sort.Search\<close>, on the half-open range \<open>[i, j)\<close>.\<close>

function sortSearch :: "(nat \<Rightarrow> bool) \<Rightarrow> nat \<Rightarrow> nat \<Rightarrow> nat" where
  "sortSearch f i j =
     (if i < j then (let h = (i + j) div 2 in if \<not> f h then sortSearch f (h + 1) j else sortSearch f i h) else i)"
  by pat_completeness auto
termination
  by (relation "measure (\<lambda>(f, i, j). j - i)") auto

declare sortSearch.simps [simp del]

definition searchRows :: "'d Row list \<Rightarrow> u64 \<Rightarrow> 'd Row option" where
  "searchRows rows slot =
     (let i = sortSearch (\<lambda>i. slot \<le> rSlot (rows ! i)) 0 (length rows)
      in if i < length rows \<and> rSlot (rows ! i) = slot then Some (rows ! i) else None)"

definition findVH :: "'d Row option \<Rightarrow> vhash \<Rightarrow> 'd RefEntry option" where
  "findVH row vh = (case row of None \<Rightarrow> None | Some r \<Rightarrow> find (\<lambda>e. eVH e = vh) (rEntries r))"

primrec walkDigits :: "('b, 'd) lib \<Rightarrow> 'd link \<Rightarrow> u64 list \<Rightarrow> ('b, 'd, 'd link) eng" where
  "walkDigits L c [] = ret c"
| "walkDigits L c (d # ds) =
     bind (GetNode (dirs L) c) (\<lambda>node.
     if length (dKids node) \<le> unat d then ret None
     else if dKids node ! unat d = None then ret None
     else walkDigits L (dKids node ! unat d) ds)"

definition sealedSegment :: "('b, 'd) lib \<Rightarrow> 'd state \<Rightarrow> u64 \<Rightarrow> ('b, 'd, 'd link) eng" where
  "sealedSegment L st w =
     (if dirDepth st = 0 \<or> w < dirBase st then ret None
      else case pathDigits (w - dirBase st) (dirDepth st) (pFanoutBits (params st)) of
        None \<Rightarrow> ret None
      | Some digits \<Rightarrow> walkDigits L (dir st) digits)"

text \<open>\<open>(cid, ok)\<close> is the link itself: it is defined exactly when \<open>ok\<close>.\<close>

definition segmentFor :: "('b, 'd) lib \<Rightarrow> 'd state \<Rightarrow> u64 \<Rightarrow> ('b, 'd, 'd link) eng" where
  "segmentFor L st w =
     (if \<not> covered st then ret None
      else bind (openOrd L st) (\<lambda>openW.
        if w = openW then ret (openSeg st) else sealedSegment L st w))"

definition lookupRow :: "('b, 'd) lib \<Rightarrow> 'd state \<Rightarrow> u64 \<Rightarrow> ('b, 'd, 'd Result \<times> 'd Row option) eng" where
  "lookupRow L st slot =
     (if slot < pOriginSlot (params st) then ret (plainResult StatusBeforeOrigin slot, None)
      else if \<not> covered st \<or> syncedTo st < slot then ret (plainResult StatusNotYetCovered slot, None)
      else bind (segmentFor L st (ord slot (pSegBits (params st)))) (\<lambda>segCID.
        if segCID = None then ret (plainResult StatusFound slot, None)
        else bind (GetNode (segs L) segCID) (\<lambda>seg.
          ret (plainResult StatusFound slot, searchRows (sRows seg) slot))))"

definition LookupSlot :: "('b, 'd) lib \<Rightarrow> u64 \<Rightarrow> ('b, 'd, 'd Result) eng" where
  "LookupSlot L slot =
     bind (gets cur) (\<lambda>st.
     bind (lookupRow L st slot) (\<lambda>(res, row).
     if resStatus res \<noteq> StatusFound then ret res
     else ret (case row of None \<Rightarrow> res | Some r \<Rightarrow> res\<lparr>resEntries := rEntries r\<rparr>)))"

fun collectVHs :: "u64 \<Rightarrow> 'd Row option \<Rightarrow> 'd Result \<Rightarrow> vhash list \<Rightarrow> 'd RefEntry list \<Rightarrow> 'd Result" where
  "collectVHs slot row res [] entries = res\<lparr>resEntries := entries\<rparr>"
| "collectVHs slot row res (vh # vhs) entries = (case findVH row vh of
     None \<Rightarrow> \<lparr>resStatus = StatusAbsent, resSlot = slot, resEntries = [], resMissingVH = Some vh\<rparr>
   | Some e \<Rightarrow> collectVHs slot row res vhs (entries @ [e]))"

definition LookupVHs :: "('b, 'd) lib \<Rightarrow> u64 \<Rightarrow> vhash list \<Rightarrow> ('b, 'd, 'd Result) eng" where
  "LookupVHs L slot vhs =
     bind (gets cur) (\<lambda>st.
     bind (lookupRow L st slot) (\<lambda>(res, row).
     if resStatus res \<noteq> StatusFound then ret res else ret (collectVHs slot row res vhs [])))"

section \<open>Searching rows\<close>

lemma sortSearch_spec:
  "\<forall>a b. a \<le> b \<longrightarrow> b < n \<longrightarrow> f a \<longrightarrow> f b \<Longrightarrow> i \<le> j \<Longrightarrow> j \<le> n \<Longrightarrow> \<forall>a < i. \<not> f a \<Longrightarrow> \<forall>a. j \<le> a \<longrightarrow> a < n \<longrightarrow> f a \<Longrightarrow>
    (\<forall>a < sortSearch f i j. \<not> f a) \<and> (\<forall>a. sortSearch f i j \<le> a \<longrightarrow> a < n \<longrightarrow> f a)"
proof (induction f i j rule: sortSearch.induct)
  case (1 f i j)
  show ?case
  proof (cases "i < j")
    case True
    let ?h = "(i + j) div 2"
    have h: "i \<le> ?h" "?h < j" "?h < n" using True "1.prems"(3) by auto
    note mono = "1.prems"(1)
    show ?thesis
    proof (cases "f ?h")
      case fh: True
      then have "\<forall>a. ?h \<le> a \<longrightarrow> a < n \<longrightarrow> f a" using mono by blast
      with 1(2) [OF True refl] fh h "1.prems" have "(\<forall>a < sortSearch f i ?h. \<not> f a) \<and> (\<forall>a. sortSearch f i ?h \<le> a \<longrightarrow> a < n \<longrightarrow> f a)"
        by simp
      with True fh show ?thesis by (simp add: sortSearch.simps [of f i j] Let_def)
    next
      case fh: False
      then have "\<forall>a < ?h + 1. \<not> f a" using mono h(3) by (auto simp: less_Suc_eq_le)
      with 1(1) [OF True refl] fh h "1.prems" have "(\<forall>a < sortSearch f (?h + 1) j. \<not> f a) \<and> (\<forall>a. sortSearch f (?h + 1) j \<le> a \<longrightarrow> a < n \<longrightarrow> f a)"
        by simp
      with True fh show ?thesis by (simp add: sortSearch.simps [of f i j] Let_def)
    qed
  next
    case False
    then have "sortSearch f i j = i" by (subst sortSearch.simps) simp
    moreover have "i = j" using False "1.prems"(2) by simp
    ultimately show ?thesis using "1.prems" by simp
  qed
qed

lemma searchRows_find:
  assumes sorted: "sorted_wrt (<) (map rSlot rows)"
  shows "searchRows rows slot = find (\<lambda>r. rSlot r = slot) rows"
proof -
  let ?n = "length rows" and ?f = "\<lambda>i. slot \<le> rSlot (rows ! i)"
  have lt: "rSlot (rows ! a) < rSlot (rows ! b)" if "a < b" "b < ?n" for a b
    using sorted that by (simp add: sorted_wrt_iff_nth_less)
  have "?f a \<longrightarrow> ?f b" if "a \<le> b" "b < ?n" for a b
    using lt [of a b] that by (cases "a = b") auto
  then have "(\<forall>a < sortSearch ?f 0 ?n. \<not> ?f a) \<and> (\<forall>a. sortSearch ?f 0 ?n \<le> a \<longrightarrow> a < ?n \<longrightarrow> ?f a)"
    by (intro sortSearch_spec) auto
  then have s: "\<forall>a < sortSearch ?f 0 ?n. \<not> ?f a" "\<forall>a. sortSearch ?f 0 ?n \<le> a \<longrightarrow> a < ?n \<longrightarrow> ?f a" by blast+
  let ?i = "sortSearch ?f 0 ?n"
  show ?thesis
  proof (cases "?i < ?n \<and> rSlot (rows ! ?i) = slot")
    case True
    have "rSlot (rows ! a) \<noteq> slot" if "a < ?i" for a using lt [OF that] True by auto
    then have "find (\<lambda>r. rSlot r = slot) rows = Some (rows ! ?i)"
      using True by (auto simp: find_Some_iff)
    with True show ?thesis by (simp add: searchRows_def)
  next
    case False
    have "rSlot (rows ! a) \<noteq> slot" if "a < ?n" for a
    proof
      assume eq: "rSlot (rows ! a) = slot"
      then have "?i \<le> a" using s(1) by (auto simp: not_less [symmetric])
      then have "rSlot (rows ! ?i) = slot"
        using eq lt [of ?i a] s(2) that by (cases "?i = a") auto
      with False \<open>?i \<le> a\<close> that show False by simp
    qed
    then have "find (\<lambda>r. rSlot r = slot) rows = None" by (auto simp: find_None_iff in_set_conv_nth)
    with False show ?thesis by (auto simp: searchRows_def Let_def)
  qed
qed

lemma collectVHs_spec:
  "collectVHs slot row res vhs acc =
    (case find (\<lambda>vh. findVH row vh = None) vhs of
       Some vh \<Rightarrow> \<lparr>resStatus = StatusAbsent, resSlot = slot, resEntries = [], resMissingVH = Some vh\<rparr>
     | None \<Rightarrow> res\<lparr>resEntries := acc @ map (\<lambda>vh. the (findVH row vh)) vhs\<rparr>)"
  by (induction vhs arbitrary: acc) (auto split: option.splits)

section \<open>What a state stands for\<close>

definition winRows :: "u64 \<Rightarrow> u64 \<Rightarrow> 'd Row list \<Rightarrow> 'd Row list" where
  "winRows k w rows = filter (\<lambda>r. ord (rSlot r) k = w) rows"

definition segOf :: "Params \<Rightarrow> 'd Row list \<Rightarrow> u64 \<Rightarrow> 'd Segment" where
  "segOf p rows w = \<lparr>sSlot0 = windowStart w (pSegBits p), sRows = winRows (pSegBits p) w rows\<rparr>"

definition segCid :: "('b, 'd) lib \<Rightarrow> 'd Segment \<Rightarrow> 'd link" where
  "segCid L seg = (case EncodeSegment L seg of Inr (b, c) \<Rightarrow> Some c | Inl e \<Rightarrow> None)"

definition segStored :: "('b, 'd) lib \<Rightarrow> ('b, 'd) engine \<Rightarrow> 'd Segment \<Rightarrow> bool" where
  "segStored L s seg \<longleftrightarrow> (\<exists>b c. EncodeSegment L seg = Inr (b, c) \<and> held L s c b)"

text \<open>The directory entry of a window: its segment, or null if the window has no rows.\<close>

definition segLink :: "('b, 'd) lib \<Rightarrow> Params \<Rightarrow> 'd Row list \<Rightarrow> u64 \<Rightarrow> 'd link" where
  "segLink L p rows w = (if winRows (pSegBits p) w rows = [] then None else segCid L (segOf p rows w))"

abbreviation baseOf :: "Params \<Rightarrow> u64" where
  "baseOf p \<equiv> ord (pOriginSlot p) (pSegBits p)"

definition sealedVec :: "('b, 'd) lib \<Rightarrow> Params \<Rightarrow> 'd Row list \<Rightarrow> nat \<Rightarrow> 'd link list" where
  "sealedVec L p rows n = map (\<lambda>i. segLink L p rows (baseOf p + of_nat i)) [0..<n]"

definition segsStored :: "('b, 'd) lib \<Rightarrow> ('b, 'd) engine \<Rightarrow> Params \<Rightarrow> 'd Row list \<Rightarrow> nat \<Rightarrow> bool" where
  "segsStored L s p rows n \<longleftrightarrow> (\<forall>i < n. winRows (pSegBits p) (baseOf p + of_nat i) rows \<noteq> [] \<longrightarrow>
     segStored L s (segOf p rows (baseOf p + of_nat i)))"

definition paramsOk :: "Params \<Rightarrow> bool" where
  "paramsOk p \<longleftrightarrow> pSegBits p \<le> 63 \<and> fanoutOk (pFanoutBits p) \<and> headNameRE (pName p)"

definition rowsIn :: "Params \<Rightarrow> 'd Row list \<Rightarrow> u64 \<Rightarrow> bool" where
  "rowsIn p rows x \<longleftrightarrow> rowsOk rows \<and> (\<forall>r\<in>set rows. pOriginSlot p \<le> rSlot r \<and> rSlot r \<le> x)"

text \<open>The sealed part of a state whose open window is \<open>w\<close>: a directory of one entry per window below it.\<close>

definition sealedOk :: "('b, 'd) lib \<Rightarrow> ('b, 'd) engine \<Rightarrow> 'd state \<Rightarrow> Params \<Rightarrow> 'd Row list \<Rightarrow> u64 \<Rightarrow> bool" where
  "sealedOk L s st p rows w \<longleftrightarrow> params st = p \<and> baseOf p \<le> w \<and>
     dirOk L s (pFanoutBits p) (sealedVec L p rows (unat w - unat (baseOf p))) (dir st) (dirDepth st) \<and>
     segsStored L s p rows (unat w - unat (baseOf p))"

definition bodyOk :: "('b, 'd) lib \<Rightarrow> ('b, 'd) engine \<Rightarrow> 'd state \<Rightarrow> Params \<Rightarrow> 'd Row list \<Rightarrow> u64 option \<Rightarrow> bool" where
  "bodyOk L s st p rows syn \<longleftrightarrow> params st = p \<and> paramsOk p \<and>
     (case syn of
        None \<Rightarrow> rows = [] \<and> \<not> covered st \<and> syncedTo st = 0 \<and> dirDepth st = 0 \<and> dir st = None \<and> openSeg st = None
      | Some x \<Rightarrow> covered st \<and> syncedTo st = x \<and> pOriginSlot p \<le> x \<and> x < maxUint64 \<and> rowsIn p rows x \<and>
          sealedOk L s st p rows (ord (x + 1) (pSegBits p)) \<and>
          segStored L s (segOf p rows (ord (x + 1) (pSegBits p))) \<and>
          openSeg st = segCid L (segOf p rows (ord (x + 1) (pSegBits p))))"

text \<open>\<open>st\<close> is the state of a head with parameters \<open>p\<close> that holds exactly \<open>rows\<close> and is synced to \<open>syn\<close>, and
  every index block of it is stored.\<close>

definition headOk :: "('b, 'd) lib \<Rightarrow> ('b, 'd) engine \<Rightarrow> 'd state \<Rightarrow> Params \<Rightarrow> 'd Row list \<Rightarrow> u64 option \<Rightarrow> bool" where
  "headOk L s st p rows syn \<longleftrightarrow> bodyOk L s st p rows syn \<and>
     (\<exists>b c. EncodeHead L (headObject st) = Inr (b, c) \<and> held L s c b \<and> root st = Some c)"

text \<open>What the lookups answer about a head.\<close>

definition specRow :: "'d Row list \<Rightarrow> u64 \<Rightarrow> 'd Row option" where
  "specRow rows slot = find (\<lambda>r. rSlot r = slot) rows"

definition specStatus :: "Params \<Rightarrow> u64 option \<Rightarrow> u64 \<Rightarrow> Status" where
  "specStatus p syn slot =
     (if slot < pOriginSlot p then StatusBeforeOrigin
      else case syn of None \<Rightarrow> StatusNotYetCovered
        | Some x \<Rightarrow> if x < slot then StatusNotYetCovered else StatusFound)"

definition specLookup :: "Params \<Rightarrow> 'd Row list \<Rightarrow> u64 option \<Rightarrow> u64 \<Rightarrow> 'd Result" where
  "specLookup p rows syn slot =
     (plainResult (specStatus p syn slot) slot)\<lparr>resEntries :=
        (if specStatus p syn slot = StatusFound then (case specRow rows slot of None \<Rightarrow> [] | Some r \<Rightarrow> rEntries r) else [])\<rparr>"

definition specEntry :: "'d Row list \<Rightarrow> u64 \<Rightarrow> vhash \<Rightarrow> 'd RefEntry option" where
  "specEntry rows slot vh =
     (case filter (\<lambda>e. eVH e = vh) (concat (map rEntries (filter (\<lambda>r. rSlot r = slot) rows))) of
        [] \<Rightarrow> None
      | e # _ \<Rightarrow> Some e)"

definition specLookupVHs :: "Params \<Rightarrow> 'd Row list \<Rightarrow> u64 option \<Rightarrow> u64 \<Rightarrow> vhash list \<Rightarrow> 'd Result" where
  "specLookupVHs p rows syn slot vhs =
     (if specStatus p syn slot \<noteq> StatusFound then plainResult (specStatus p syn slot) slot
      else case find (\<lambda>vh. specEntry rows slot vh = None) vhs of
        Some vh \<Rightarrow> \<lparr>resStatus = StatusAbsent, resSlot = slot, resEntries = [], resMissingVH = Some vh\<rparr>
      | None \<Rightarrow> (plainResult StatusFound slot)\<lparr>resEntries := map (\<lambda>vh. the (specEntry rows slot vh)) vhs\<rparr>)"

lemma find_filter: "find P xs = (case filter P xs of [] \<Rightarrow> None | x # _ \<Rightarrow> Some x)"
  by (induction xs) auto

lemma findVH_specRow:
  assumes "sorted_wrt (<) (map rSlot rows)"
  shows "findVH (specRow rows slot) vh = specEntry rows slot vh"
  using assms
proof (induction rows)
  case (Cons r rows)
  show ?case
  proof (cases "rSlot r = slot")
    case True
    with Cons.prems have "filter (\<lambda>r. rSlot r = slot) rows = []" by (fastforce simp: filter_empty_conv)
    with True show ?thesis by (auto simp: specRow_def specEntry_def findVH_def find_filter)
  next
    case False
    with Cons show ?thesis by (simp add: specRow_def specEntry_def)
  qed
qed (simp add: specRow_def specEntry_def findVH_def)

lemma segStored_grows: "grows L s t \<Longrightarrow> segStored L s seg \<Longrightarrow> segStored L t seg"
  by (auto simp: segStored_def intro: grows_held)

lemma segsStored_grows: "grows L s t \<Longrightarrow> segsStored L s p rows n \<Longrightarrow> segsStored L t p rows n"
  by (auto simp: segsStored_def intro: segStored_grows)

lemma sealedOk_grows: "grows L s t \<Longrightarrow> sealedOk L s st p rows w \<Longrightarrow> sealedOk L t st p rows w"
  by (auto simp: sealedOk_def intro: dirOk_grows segsStored_grows)

lemma bodyOk_grows: "grows L s t \<Longrightarrow> bodyOk L s st p rows syn \<Longrightarrow> bodyOk L t st p rows syn"
  by (auto simp: bodyOk_def intro: sealedOk_grows segStored_grows split: option.splits)

lemma headOk_grows: "grows L s t \<Longrightarrow> headOk L s st p rows syn \<Longrightarrow> headOk L t st p rows syn"
  by (auto simp: headOk_def intro: bodyOk_grows grows_held)

text \<open>The rows and the coverage determine the state, whatever store it is in and whatever led to it.\<close>

lemma bodyOk_unique:
  assumes "bodyOk L s st p rows syn" "bodyOk L t st' p rows syn" "root st = root st'"
  shows "st = st'"
proof (cases syn)
  case (Some x)
  let ?v = "sealedVec L p rows (unat (ord (x + 1) (pSegBits p)) - unat (baseOf p))"
  have "dirOk L s (pFanoutBits p) ?v (dir st) (dirDepth st)" "dirOk L t (pFanoutBits p) ?v (dir st') (dirDepth st')"
    using assms Some by (simp_all add: bodyOk_def sealedOk_def)
  from dirOk_unique [OF this] assms Some show ?thesis by (simp add: bodyOk_def)
qed (use assms in \<open>cases st; cases st'; auto simp: bodyOk_def\<close>)

lemma headOk_unique:
  assumes "headOk L s st p rows syn" "headOk L t st' p rows syn"
  shows "st = st'"
proof -
  have "st\<lparr>root := None\<rparr> = st'\<lparr>root := None\<rparr>"
  proof (rule bodyOk_unique)
    show "bodyOk L s (st\<lparr>root := None\<rparr>) p rows syn" "bodyOk L t (st'\<lparr>root := None\<rparr>) p rows syn"
      using assms by (auto simp: headOk_def bodyOk_def sealedOk_def split: option.splits)
  qed simp
  moreover have "headObject (x\<lparr>root := None\<rparr>) = headObject x" for x :: "'b state" by (simp add: headObject_def)
  ultimately have "headObject st = headObject st'" by metis
  then have "root st = root st'" using assms by (auto simp: headOk_def)
  then show ?thesis using bodyOk_unique [of L s st p rows syn t st'] assms by (simp add: headOk_def)
qed

section \<open>Reading a stored segment\<close>

lemma getSegment_wp:
  assumes "lib_ok L" "cacheOk L s" "segStored L s seg" "l = segCid L seg"
    and post: "\<And>t. grows L s t \<Longrightarrow> Q seg t"
  shows "wp (GetNode (segs L) l) (envErr L big s) Q s"
proof -
  obtain b c where c: "EncodeSegment L seg = Inr (b, c)" "held L s c b" "l = Some c"
    using assms(3,4) by (auto simp: segStored_def segCid_def)
  show ?thesis unfolding c(3)
    by (rule wp_mono [OF segS.store.get_law [OF assms(1,2)]]) (use c post in auto)
qed

lemma segCid_Some: "segStored L s seg \<Longrightarrow> \<exists>c. segCid L seg = Some c"
  by (auto simp: segStored_def segCid_def)

lemma read_grows [frame]:
  "keeps (grows L) (GetNode (segs L) l)" "keeps (grows L) (GetNode (dirs L) l)" "keeps (grows L) (openOrd L st)"
  unfolding openOrd_def by (auto intro!: frame segS.store.get_keeps dirS.store.get_keeps)

lemma walkDigits_grows [frame]: "keeps (grows L) (walkDigits L c ds)"
  by (induction ds arbitrary: c) (auto intro!: frame)

lemma lookup_frame [frame]:
  "keeps (grows L) (sealedSegment L st w)" "keeps (grows L) (segmentFor L st w)" "keeps (grows L) (lookupRow L st slot)"
proof -
  show a: "keeps (grows L) (sealedSegment L st w)" for w
    unfolding sealedSegment_def by (auto split: option.splits intro!: frame)
  show b: "keeps (grows L) (segmentFor L st w)" for w
    unfolding segmentFor_def by (auto intro!: frame a)
  show "keeps (grows L) (lookupRow L st slot)"
    unfolding lookupRow_def by (auto intro!: frame b)
qed

lemma openOrd_wp:
  assumes "lib_ok L" "cacheOk L s" "bodyOk L s st p rows (Some x)"
    and post: "\<And>t. grows L s t \<Longrightarrow> Q (ord (x + 1) (pSegBits p)) t"
  shows "wp (openOrd L st) (envErr L big s) Q s"
proof -
  have p: "params st = p" "pSegBits p \<le> 63"
    and seg: "segStored L s (segOf p rows (ord (x + 1) (pSegBits p)))" "openSeg st = segCid L (segOf p rows (ord (x + 1) (pSegBits p)))"
    using assms(3) by (simp_all add: bodyOk_def paramsOk_def)
  show ?thesis
    unfolding openOrd_def wp_bind
    by (rule getSegment_wp [OF assms(1,2) seg])
      (use p post in \<open>simp add: segOf_def ord_windowStart windowOk_ord\<close>)
qed

section \<open>Walking the directory\<close>

lemma chunk_entry:
  assumes "0 < m" "i < length vec"
  shows "i div m < length (chunks m vec)" "chunks m vec ! (i div m) ! (i mod m) = vec ! i"
    "i mod m < length (chunks m vec ! (i div m))"
proof -
  have lt: "i div m * m < length vec" using assms(2) div_times_less_eq_dividend le_less_trans by blast
  then show l: "i div m < length (chunks m vec)" using less_ceilDiv [OF assms(1)] by (simp add: length_chunks)
  have "i mod m < m" using assms(1) by simp
  moreover have i: "i div m * m + i mod m = i" by simp
  ultimately show "chunks m vec ! (i div m) ! (i mod m) = vec ! i"
    using lt nth_drop [of "i div m * m" vec "i mod m"] by (simp add: nth_chunks [OF l])
  have "i mod m < length vec - i div m * m" using assms(2) i by linarith
  with \<open>i mod m < m\<close> show "i mod m < length (chunks m vec ! (i div m))" by (simp add: nth_chunks [OF l])
qed

lemma walkDigits_wp:
  assumes L: "lib_ok L" and fb: "fanoutOk fb"
  shows "cacheOk L s \<Longrightarrow> i < length vec \<Longrightarrow> i < fan fb ^ d \<Longrightarrow> length vec \<le> fan fb ^ d \<Longrightarrow>
    dirStored L s (fan fb) d vec \<Longrightarrow> (d = 0 \<Longrightarrow> vec ! 0 \<noteq> None) \<Longrightarrow> (\<And>t. grows L s t \<Longrightarrow> Q (vec ! i) t) \<Longrightarrow>
    wp (walkDigits L (dirRoot L (fan fb) d vec) (map of_nat (digitsOf (fan fb) d i))) (envErr L big s) Q s"
proof (induction d arbitrary: s vec i Q)
  case 0
  then show ?case by (cases vec) (auto simp: wp_def)
next
  case (Suc d)
  let ?F = "fan fb" and ?m = "fan fb ^ d"
  let ?q = "i div ?m" and ?kids = "map (dirRoot L ?F d) (chunks ?m vec)"
  let ?d = "of_nat ?q :: u64" and ?c = "chunks ?m vec ! ?q"
  have m: "0 < ?m" by simp
  have q: "unat ?d = ?q" using digit_small [OF fb Suc.prems(3)] by simp
  note ch = chunk_entry [OF m Suc.prems(2)]
  obtain b c where c: "EncodeDirNode L \<lparr>dKids = ?kids\<rparr> = Inr (b, c)" "held L s c b" "dirRoot L ?F (Suc d) vec = Some c"
    using Suc.prems(5) by (auto simp: pageStored_def pageCid_def)
  let ?next = "\<lambda>node. if length (dKids node) \<le> unat ?d then ret None
     else if dKids node ! unat ?d = None then ret None
     else walkDigits L (dKids node ! unat ?d) (map of_nat (digitsOf ?F d (i mod ?m)))"
  have step: "wp (?next node) (envErr L big s) Q t" if st: "grows L s t" and node: "dKids node = trimTrailingNulls ?kids" for node t
  proof -
    have "kidAt (dKids node) ?q = kidAt ?kids ?q" by (simp only: node kidAt_trim)
    then have kid: "kidAt (dKids node) ?q = dirRoot L ?F d ?c" using ch(1) by (simp add: kidAt_def [of ?kids])
    show ?thesis
    proof (cases "dirRoot L ?F d ?c")
      case None
      have "d = 0" using dirRoot_Some [OF L] None by (metis neq0_conv option.distinct(1))
      then have "vec ! i = None" using None ch(2,3) by (cases ?c) auto
      then have "Q None t" using Suc.prems(7) [OF st] by simp
      with None kid q show ?thesis by (auto simp: kidAt_def split: if_splits)
    next
      case (Some l)
      have "wp (walkDigits L (dirRoot L ?F d ?c) (map of_nat (digitsOf ?F d (i mod ?m)))) (envErr L big s) Q t"
        unfolding grows_env [OF st, symmetric]
      proof (rule Suc.IH [OF cacheOk_grows [OF st Suc.prems(1)] ch(3)])
        show "dirStored L t ?F d ?c" using Suc.prems(5) ch(1) dirStored_grows [OF st] by simp
        show "length ?c \<le> ?F ^ d" using chunks_facts(2) [OF m nth_mem [OF ch(1)]] .
        show "?c ! 0 \<noteq> None" if "d = 0" using that Some ch(3) by (cases ?c) auto
        show "Q (?c ! (i mod ?m)) u" if "grows L t u" for u using Suc.prems(7) grows_trans [OF st that] ch(2) by simp
      qed (use m in simp)
      with Some kid q show ?thesis by (auto simp: kidAt_def split: if_splits)
    qed
  qed
  have "wp (GetNode (dirs L) (Some c)) (envErr L big s) (\<lambda>node. wp (?next node) (envErr L big s) Q) s"
  proof (rule wp_mono [OF dirS.store.get_law [OF L Suc.prems(1)]])
    show "\<exists>b. EncodeDirNode L \<lparr>dKids = ?kids\<rparr> = Inr (b, c) \<and> held L s c b" using c by blast
  qed (intro step; simp add: canonDirNode_def)
  with c(3) show ?case by simp
qed

section \<open>Lookups\<close>

lemma u64_offset: "b \<le> w \<Longrightarrow> b + of_nat (unat w - unat b) = (w :: u64)"
  using unat_u64_less [of w] by (simp add: u64_eq_iff word_le_nat_alt unat_add_u64 unat_of_nat_u64)

lemma length_sealedVec [simp]: "length (sealedVec L p rows n) = n"
  by (simp add: sealedVec_def)

lemma sealedSegment_wp:
  assumes L: "lib_ok L" and ca: "cacheOk L s" and p: "paramsOk p" and ok: "sealedOk L s st p rows openW"
    and w: "baseOf p \<le> w" "w < openW"
    and post: "\<And>t. grows L s t \<Longrightarrow> Q (segLink L p rows w) t"
  shows "wp (sealedSegment L st w) (envErr L big s) Q s"
proof -
  let ?fb = "pFanoutBits p" and ?n = "unat openW - unat (baseOf p)" and ?i = "unat (w - baseOf p)"
  have fb: "fanoutOk ?fb" using p by (simp add: paramsOk_def)
  have dir: "dirOk L s ?fb (sealedVec L p rows ?n) (dir st) (dirDepth st)" and st: "params st = p"
    using ok by (simp_all add: sealedOk_def)
  note d = dirOk_depth [OF fb dir]
  have i: "?i = unat w - unat (baseOf p)" "?i < ?n"
    using w by (auto simp: unat_sub_u64 word_le_nat_alt word_less_nat_alt)
  have vec: "sealedVec L p rows ?n \<noteq> []" using i(2) by (simp flip: length_greater_0_conv)
  then have tree: "dir st = dirRoot L (fan ?fb) (unat (dirDepth st)) (sealedVec L p rows ?n)"
    "dirStored L s (fan ?fb) (unat (dirDepth st)) (sealedVec L p rows ?n)" using dir by (auto simp: dirOk_def)
  have deep: "0 < unat (dirDepth st)" "?n \<le> fan ?fb ^ unat (dirDepth st)" using d(1) i(2) by (auto simp: depthFor_def split: if_splits)
  have "sealedVec L p rows ?n ! ?i = segLink L p rows w"
    using i u64_offset [OF w(1)] by (simp add: sealedVec_def)
  then have "wp (walkDigits L (dir st) (map of_nat (digitsOf (fan ?fb) (unat (dirDepth st)) ?i))) (envErr L big s) Q s"
    unfolding tree(1) using i deep post
    by (intro walkDigits_wp [OF L fb ca _ _ _ tree(2)]) auto
  then show ?thesis
    using pathDigits_eq [OF fb d(2), of "w - baseOf p"] i deep w(1) st
    by (auto simp: sealedSegment_def dirBase_def not_less)
qed

lemma segmentFor_wp:
  assumes L: "lib_ok L" and ca: "cacheOk L s" and ok: "bodyOk L s st p rows (Some x)"
    and w: "baseOf p \<le> w" "w \<le> ord (x + 1) (pSegBits p)"
    and none: "\<And>t. grows L s t \<Longrightarrow> winRows (pSegBits p) w rows = [] \<Longrightarrow> Q None t"
    and some: "\<And>t. grows L s t \<Longrightarrow> segStored L t (segOf p rows w) \<Longrightarrow> Q (segCid L (segOf p rows w)) t"
  shows "wp (segmentFor L st w) (envErr L big s) Q s"
proof -
  let ?o = "ord (x + 1) (pSegBits p)"
  have st: "covered st" "paramsOk p" "sealedOk L s st p rows ?o" "segStored L s (segOf p rows ?o)"
    "openSeg st = segCid L (segOf p rows ?o)"
    using ok by (simp_all add: bodyOk_def)
  have "wp (if w = ?o then ret (openSeg st) else sealedSegment L st w) (envErr L big s) Q t" if t: "grows L s t" for t
  proof (cases "w = ?o")
    case True
    then show ?thesis using some [OF t] segStored_grows [OF t st(4)] st(5) by simp
  next
    case False
    have "wp (sealedSegment L st w) (envErr L big t) Q t"
    proof (rule sealedSegment_wp [OF L cacheOk_grows [OF t ca] st(2) sealedOk_grows [OF t st(3)] w(1)])
      show "w < ?o" using w(2) False by simp
      fix u assume u: "grows L t u"
      have su: "grows L s u" using t u by (rule grows_trans)
      let ?i = "unat w - unat (baseOf p)"
      have i: "baseOf p + of_nat ?i = w" "?i < unat ?o - unat (baseOf p)"
        using w(1) \<open>w < ?o\<close> u64_offset [OF w(1)] by (simp_all add: word_le_nat_alt word_less_nat_alt)
      show "Q (segLink L p rows w) u"
      proof (cases "winRows (pSegBits p) w rows = []")
        case True
        then show ?thesis using none [OF su] by (simp add: segLink_def)
      next
        case nonempty: False
        then have "segStored L s (segOf p rows w)" using st(3) i by (fastforce simp: sealedOk_def segsStored_def)
        then show ?thesis using some [OF su segStored_grows [OF su]] nonempty by (simp add: segLink_def)
      qed
    qed
    with False grows_env [OF t] show ?thesis by simp
  qed
  then show ?thesis
    using st(1) unfolding segmentFor_def by (simp add: openOrd_wp [OF L ca ok])
qed

lemma find_winRows: "ord slot k = w \<Longrightarrow> find (\<lambda>r. rSlot r = slot) (winRows k w rows) = specRow rows slot"
  by (induction rows) (auto simp: winRows_def specRow_def)

lemma sorted_winRows: "rowsOk rows \<Longrightarrow> sorted_wrt (<) (map rSlot (winRows k w rows))"
  by (simp add: rowsOk_def winRows_def sorted_wrt_map sorted_wrt_filter)

lemma lookupRow_wp:
  assumes L: "lib_ok L" and ca: "cacheOk L s" and ok: "bodyOk L s st p rows syn"
    and post: "\<And>t. grows L s t \<Longrightarrow> Q (plainResult (specStatus p syn slot) slot,
      if specStatus p syn slot = StatusFound then specRow rows slot else None) t"
  shows "wp (lookupRow L st slot) (envErr L big s) Q s"
proof (cases "specStatus p syn slot = StatusFound")
  case False
  have "lookupRow L st slot = ret (plainResult (specStatus p syn slot) slot, None)"
    using False ok by (auto simp: lookupRow_def specStatus_def bodyOk_def split: option.splits if_splits)
  with post [of s] False show ?thesis by simp
next
  case True
  then obtain x where x: "syn = Some x" "slot \<le> x" "pOriginSlot p \<le> slot"
    by (auto simp: specStatus_def not_less split: option.splits if_splits)
  let ?k = "pSegBits p" and ?w = "ord slot (pSegBits p)"
  have body: "bodyOk L s st p rows (Some x)" using ok x by simp
  have st: "params st = p" "covered st" "syncedTo st = x" "rowsOk rows" "x < maxUint64"
    using body by (simp_all add: bodyOk_def rowsIn_def)
  have xs: "x \<le> x + 1" using st(5) by (simp add: word_le_nat_alt unat_less_Suc_u64)
  have w: "baseOf p \<le> ?w" "?w \<le> ord (x + 1) ?k"
    using ord_mono [OF x(3)] ord_mono [OF order_trans [OF x(2) xs]] by simp_all
  let ?res = "plainResult StatusFound slot"
  let ?read = "\<lambda>segCID. if segCID = None then ret (?res, None)
    else bind (GetNode (segs L) segCID) (\<lambda>seg. ret (?res, searchRows (sRows seg) slot))"
  have "wp (segmentFor L st ?w) (envErr L big s) (\<lambda>segCID t. wp (?read segCID) (envErr L big s) Q t) s"
  proof (rule segmentFor_wp [OF L ca body w])
    fix t assume t: "grows L s t" "winRows ?k ?w rows = []"
    then have "specRow rows slot = None" using find_winRows [of slot ?k ?w rows] by simp
    with post [OF t(1)] True show "wp (?read None) (envErr L big s) Q t" by simp
  next
    fix t assume t: "grows L s t" "segStored L t (segOf p rows ?w)"
    have q: "Q (?res, searchRows (sRows (segOf p rows ?w)) slot) u" if u: "grows L t u" for u
      using post [OF grows_trans [OF t(1) u]] True searchRows_find [OF sorted_winRows [OF st(4)], of ?k ?w slot]
      by (simp add: segOf_def find_winRows)
    have "wp (GetNode (segs L) (segCid L (segOf p rows ?w))) (envErr L big t) (\<lambda>seg. Q (?res, searchRows (sRows seg) slot)) t"
      by (rule getSegment_wp [OF L cacheOk_grows [OF t(1) ca] t(2) refl]) (rule q)
    with segCid_Some [OF t(2)] grows_env [OF t(1)] show "wp (?read (segCid L (segOf p rows ?w))) (envErr L big s) Q t" by auto
  qed
  with st leD [OF x(2)] leD [OF x(3)] show ?thesis by (simp add: lookupRow_def)
qed

lemma LookupSlot_wp:
  assumes L: "lib_ok L" and ca: "cacheOk L s" and ok: "bodyOk L s (cur s) p rows syn"
    and post: "\<And>t. grows L s t \<Longrightarrow> Q (specLookup p rows syn slot) t"
  shows "wp (LookupSlot L slot) (envErr L big s) Q s"
  unfolding LookupSlot_def wp_bind wp_gets
  by (rule lookupRow_wp [OF L ca ok], drule post)
    (auto simp: specLookup_def plainResult_def split: option.splits)

lemma bodyOk_sorted: "bodyOk L s st p rows syn \<Longrightarrow> sorted_wrt (<) (map rSlot rows)"
  by (auto simp: bodyOk_def rowsIn_def rowsOk_def sorted_wrt_map split: option.splits)

lemma LookupVHs_wp:
  assumes L: "lib_ok L" and ca: "cacheOk L s" and ok: "bodyOk L s (cur s) p rows syn"
    and post: "\<And>t. grows L s t \<Longrightarrow> Q (specLookupVHs p rows syn slot vhs) t"
  shows "wp (LookupVHs L slot vhs) (envErr L big s) Q s"
  unfolding LookupVHs_def wp_bind wp_gets
  by (rule lookupRow_wp [OF L ca ok], drule post)
    (auto simp: specLookupVHs_def plainResult_def collectVHs_spec findVH_specRow [OF bodyOk_sorted [OF ok]] split: option.splits)

lemma Lookup_grows [frame]: "keeps (grows L) (LookupSlot L slot)" "keeps (grows L) (LookupVHs L slot vhs)"
  unfolding LookupSlot_def LookupVHs_def case_prod_unfold by (auto intro!: frame)

end
