(* ===== verification/Apply.thy ===== *)
theory Apply
  imports Lookup
begin

text \<open>
  Mutation by \<open>ApplyRefs\<close>, \<open>archive/apply.go\<close>: validation of the batch, idempotent replay, resolution of the
  referenced blobs, the loop over windows that fills and seals segments, and publication of the new root.
\<close>

section \<open>The source's functions\<close>

record RefRow =
  rrSlot :: u64
  rrVHs :: "vhash list"

record 'd ApplyResult =
  arSyncedTo :: u64
  arRoot :: "'d link"
  arNoOp :: bool
  arIndex :: IndexApplyStats

text \<open>The blob catalog as the engine sees it: \<open>ResolveBlob\<close> returns a CID and whether it was found, or an
  error.\<close>

type_synonym 'd resolver = "vhash \<Rightarrow> 'd err + 'd link \<times> bool"

fun shapeRows :: "'d state \<Rightarrow> u64 \<Rightarrow> nat \<Rightarrow> u64 option \<Rightarrow> RefRow list \<Rightarrow> 'd err + unit" where
  "shapeRows st newSyncedTo i prev [] = Inr ()"
| "shapeRows st newSyncedTo i prev (r # rows) =
     (if (case prev of None \<Rightarrow> False | Some p \<Rightarrow> rrSlot r \<le> p) then Inl (Conflict (CNotAscending i))
      else if rrSlot r < pOriginSlot (params st) then Inl (Conflict (CBeforeOrigin i))
      else if newSyncedTo < rrSlot r then Inl (Conflict (CPastSynced i))
      else if rrVHs r = [] then Inl (Conflict (CNoVHs i))
      else if MaxBlobsPerSlotCeiling < length (rrVHs r) then Inl (Conflict (COverCeiling i))
      else shapeRows st newSyncedTo (Suc i) (Some (rrSlot r)) rows)"

definition validateShape :: "'d state \<Rightarrow> RefRow list \<Rightarrow> u64 \<Rightarrow> 'd err + unit" where
  "validateShape st rows newSyncedTo =
     (if newSyncedTo < pOriginSlot (params st) then Inl (Conflict CSyncedPrecedesOrigin)
      else shapeRows st newSyncedTo 0 None rows)"

definition lastSlot :: "RefRow list \<Rightarrow> u64" where
  "lastSlot rows = (if rows = [] then 0 else rrSlot (last rows))"

fun diffVHs :: "u64 \<Rightarrow> nat \<Rightarrow> 'd RefEntry list \<Rightarrow> vhash list \<Rightarrow> 'd err + unit" where
  "diffVHs slot i (e # es) (vh # vhs) =
     (if eVH e \<noteq> vh then Inl (Conflict (CReplayDiffers slot i)) else diffVHs slot (Suc i) es vhs)"
| "diffVHs slot i es vhs = Inr ()"

primrec verifyReplay :: "('b, 'd) lib \<Rightarrow> 'd state \<Rightarrow> RefRow list \<Rightarrow> ('b, 'd, unit) eng" where
  "verifyReplay L st [] = ret ()"
| "verifyReplay L st (r # rows) =
     bind (lookupRow L st (rrSlot r)) (\<lambda>(res, stored).
     case stored of
       None \<Rightarrow> fail (Conflict (CReplayAbsent (rrSlot r)))
     | Some row \<Rightarrow>
         if resStatus res \<noteq> StatusFound then fail (Conflict (CReplayAbsent (rrSlot r)))
         else if length (rEntries row) \<noteq> length (rrVHs r) then fail (Conflict (CReplayCount (rrSlot r)))
         else bind (liftE (diffVHs (rrSlot r) 0 (rEntries row) (rrVHs r))) (\<lambda>_. verifyReplay L st rows))"

fun overlapCheck :: "'d state \<Rightarrow> nat \<Rightarrow> RefRow list \<Rightarrow> 'd err + unit" where
  "overlapCheck st i [] = Inr ()"
| "overlapCheck st i (r # rows) =
     (if rrSlot r \<le> syncedTo st then Inl (Conflict (CPartialOverlap i)) else overlapCheck st (Suc i) rows)"

primrec resolveVHs :: "('b, 'd) lib \<Rightarrow> 'd resolver \<Rightarrow> vhash list \<Rightarrow> 'd RefEntry list \<Rightarrow> vhash list \<Rightarrow>
    ('b, 'd, 'd RefEntry list \<times> vhash list) eng" where
  "resolveVHs L resolver [] entries missing = ret (entries, missing)"
| "resolveVHs L resolver (vh # vhs) entries missing = (case resolver vh of
     Inl e \<Rightarrow> fail ResolverErr
   | Inr (c, ok) \<Rightarrow>
       if \<not> ok \<or> c = None then resolveVHs L resolver vhs entries (missing @ [vh])
       else bind (attempt (blocksGet L (the c))) (\<lambda>r. case r of
           Inl (NotFound _) \<Rightarrow> resolveVHs L resolver vhs entries (missing @ [vh])
         | Inl e \<Rightarrow> fail e
         | Inr _ \<Rightarrow> resolveVHs L resolver vhs (entries @ [RefEntry vh c]) missing))"

primrec resolveLoop :: "('b, 'd) lib \<Rightarrow> 'd resolver \<Rightarrow> RefRow list \<Rightarrow> 'd Row list \<Rightarrow> vhash list \<Rightarrow>
    ('b, 'd, 'd Row list \<times> vhash list) eng" where
  "resolveLoop L resolver [] out missing = ret (out, missing)"
| "resolveLoop L resolver (r # rows) out missing =
     bind (resolveVHs L resolver (rrVHs r) [] missing) (\<lambda>(entries, missing').
     resolveLoop L resolver rows (out @ [Row (rrSlot r) entries]) missing')"

definition resolveRows :: "('b, 'd) lib \<Rightarrow> 'd resolver option \<Rightarrow> RefRow list \<Rightarrow> ('b, 'd, 'd Row list) eng" where
  "resolveRows L cfgResolver rows = (case cfgResolver of
     None \<Rightarrow> fail NoResolver
   | Some resolver \<Rightarrow>
       bind (resolveLoop L resolver rows [] []) (\<lambda>(out, missing).
       if missing \<noteq> [] then fail (Conflict (CMissingBlobs missing)) else ret out))"

definition commitSegment :: "('b, 'd) lib \<Rightarrow> ('d Segment, 'd) pointer \<Rightarrow> SegmentState \<Rightarrow>
    ('b, 'd, 'd cid \<times> ('d Segment, 'd) pointer) eng" where
  "commitSegment L segment state =
     bind (Load (segs L) segment) (\<lambda>(val, p).
     let dirty = IsDirty p in
     bind (modify (\<lambda>s. s\<lparr>segmentEncodeState := Some state, segmentEncodedBytes := 0\<rparr>)) (\<lambda>_.
     bind (attempt (Commit (segs L) p)) (\<lambda>r.
     bind (modify (\<lambda>s. s\<lparr>segmentEncodeState := None\<rparr>)) (\<lambda>_.
     bind (liftE r) (\<lambda>(id', p').
     bind (gets segmentEncodedBytes) (\<lambda>n.
     bind (if \<not> dirty then bind (blocksGet L id') (\<lambda>block. ret (blen L block)) else ret n) (\<lambda>encodedBytes.
     bind (modify (\<lambda>s. s\<lparr>applyStats := map_option (\<lambda>st. st\<lparr>iaSegments := iaSegments st @
         [\<lparr>ssState = state, ssEncodedBytes = encodedBytes, ssRows = length (sRows val),
           ssRefs = countRefs (sRows val)\<rparr>]\<rparr>) (applyStats s)\<rparr>)) (\<lambda>_.
     ret (id', p')))))))))"

definition seal :: "('b, 'd) lib \<Rightarrow> 'd state \<Rightarrow> ('d Segment, 'd) pointer \<Rightarrow> u64 \<Rightarrow>
    ('b, 'd, 'd state \<times> ('d Segment, 'd) pointer) eng" where
  "seal L st open' w =
     bind (Load (segs L) open') (\<lambda>(seg, p).
     bind (if sRows seg \<noteq> [] then bind (commitSegment L p SegmentSealed) (\<lambda>(c, _). ret (Some c)) else ret None) (\<lambda>sealed.
     bind (dirAppend L (dir st) (dirDepth st) (pFanoutBits (params st)) (w - dirBase st) sealed) (\<lambda>(d, depth).
     ret (st\<lparr>dir := d, dirDepth := depth\<rparr>,
          NewNode (Some \<lparr>sSlot0 = windowStart (w + 1) (pSegBits (params st)), sRows = []\<rparr>)))))"

text \<open>One iteration of the window loop: the batch of rows that lie in window \<open>w\<close>, and the seal if the window is
  complete.\<close>

definition applyWindow :: "('b, 'd) lib \<Rightarrow> u64 \<Rightarrow> u64 \<Rightarrow> 'd state \<Rightarrow> ('d Segment, 'd) pointer \<Rightarrow> 'd Row list \<Rightarrow>
    ('b, 'd, 'd state \<times> ('d Segment, 'd) pointer \<times> 'd Row list) eng" where
  "applyWindow L newSyncedTo w st open' resolved =
     (let k = pSegBits (params st);
          batch = takeWhile (\<lambda>r. ord (rSlot r) k = w) resolved;
          rest = dropWhile (\<lambda>r. ord (rSlot r) k = w) resolved in
      bind (if batch \<noteq> [] then
              bind (Mutate (segs L) open') (\<lambda>(v, p). case v of
                None \<Rightarrow> fail ErrEmpty
              | Some seg \<Rightarrow> ret (Assign (seg\<lparr>sRows := sRows seg @ batch\<rparr>) p))
            else ret open') (\<lambda>p.
      bind (if windowEnd w k \<le> newSyncedTo then seal L st p w else ret (st, p)) (\<lambda>(st', p').
      ret (st', p', rest))))"

lemma counter_step:
  fixes w w1 :: u64
  assumes "w \<le> w1" "w \<noteq> maxUint64"
  shows "Suc (unat w1) - unat (w + 1) < Suc (unat w1) - unat w"
proof -
  have "unat (w + 1) = Suc (unat w)" using assms(2) by (metis unat_less_Suc_u64 order_le_less u64_less_eq_max)
  with assms(1) show ?thesis by (simp add: word_le_nat_alt)
qed

text \<open>The window loop. Its counter is a \<open>uint64\<close>: if the last window is the largest one, incrementing it wraps
  around and the loop starts over, which is the error \<open>NonTermination\<close> here.\<close>

function applyWindows :: "('b, 'd) lib \<Rightarrow> u64 \<Rightarrow> u64 \<Rightarrow> u64 \<Rightarrow> 'd state \<Rightarrow> ('d Segment, 'd) pointer \<Rightarrow> 'd Row list \<Rightarrow>
    ('b, 'd) engine \<Rightarrow> ('d err + 'd state \<times> ('d Segment, 'd) pointer \<times> 'd Row list) \<times> ('b, 'd) engine" where
  "applyWindows L newSyncedTo w1 w st open' resolved s =
     (if w \<le> w1 then
        bind (applyWindow L newSyncedTo w st open' resolved) (\<lambda>r.
        if w = maxUint64 then fail NonTermination
        else applyWindows L newSyncedTo w1 (w + 1) (fst r) (fst (snd r)) (snd (snd r))) s
      else (Inr (st, open', resolved), s))"
  by pat_completeness auto
termination
  by (relation "measure (\<lambda>(L, n, w1, w, st, p, rs, s). Suc (unat w1) - unat w)") (simp_all add: counter_step)

declare applyWindows.simps [simp del]

definition applyBody :: "('b, 'd) lib \<Rightarrow> 'd state \<Rightarrow> 'd Row list \<Rightarrow> u64 \<Rightarrow> ('b, 'd, 'd ApplyResult) eng" where
  "applyBody L st resolved newSyncedTo =
     (let k = pSegBits (params st);
          next0 = st\<lparr>root := None\<rparr>;
          startSlot = (if covered st then syncedTo st + 1 else pOriginSlot (params st));
          w0 = ord startSlot k;
          w1 = ord newSyncedTo k in
      bind (if covered st then
              bind (openOrd L st) (\<lambda>openW.
              if openW \<noteq> w0 then fail (Internal ''open segment window'') else ret (Pointer (openSeg st)))
            else ret (NewNode (Some \<lparr>sSlot0 = windowStart w0 k, sRows = []\<rparr>))) (\<lambda>open'.
      bind (applyWindows L newSyncedTo w1 w0 next0 open' resolved) (\<lambda>(next1, p, rest).
      bind (check (rest = []) (Internal ''rows outside the windows'')) (\<lambda>_.
      bind (commitSegment L p SegmentOpen) (\<lambda>(c, _).
      bind (publish L (next1\<lparr>openSeg := Some c, syncedTo := newSyncedTo, covered := True\<rparr>)) (\<lambda>st'.
      bind (gets applyStats) (\<lambda>stats.
      let ix = (case stats of None \<Rightarrow> zeroStats | Some x \<Rightarrow> x) in
      bind (modify (\<lambda>s. s\<lparr>lastApplyStats := ix\<rparr>)) (\<lambda>_.
      ret \<lparr>arSyncedTo = syncedTo st', arRoot = root st', arNoOp = False, arIndex = ix\<rparr>))))))))"

definition ApplyRefs :: "('b, 'd) lib \<Rightarrow> 'd resolver option \<Rightarrow> RefRow list \<Rightarrow> u64 \<Rightarrow> ('b, 'd, 'd ApplyResult) eng" where
  "ApplyRefs L resolver rows newSyncedTo =
     bind (gets cur) (\<lambda>st.
     bind (liftE (validateShape st rows newSyncedTo)) (\<lambda>_.
     if covered st \<and> newSyncedTo \<le> syncedTo st \<and> lastSlot rows \<le> syncedTo st then
       bind (verifyReplay L st rows) (\<lambda>_.
       ret \<lparr>arSyncedTo = syncedTo st, arRoot = root st, arNoOp = True, arIndex = zeroStats\<rparr>)
     else
       bind (liftE (if covered st then overlapCheck st 0 rows else Inr ())) (\<lambda>_.
       bind (resolveRows L resolver rows) (\<lambda>resolved.
       deferred (\<lambda>s. s\<lparr>applyStats := None\<rparr>)
         (bind (modify (\<lambda>s. s\<lparr>applyStats := Some zeroStats\<rparr>)) (\<lambda>_.
          applyBody L st resolved newSyncedTo))))))"

section \<open>Validation\<close>

lemma shapeRows_iff:
  "shapeRows st n i prev rows = Inr () \<longleftrightarrow> sorted_wrt (<) (map rrSlot rows) \<and>
    (\<forall>r\<in>set rows. pOriginSlot (params st) \<le> rrSlot r \<and> rrSlot r \<le> n \<and> rrVHs r \<noteq> [] \<and>
      length (rrVHs r) \<le> MaxBlobsPerSlotCeiling) \<and>
    (\<forall>q. prev = Some q \<longrightarrow> (\<forall>r\<in>set rows. q < rrSlot r))"
proof (induction rows arbitrary: i prev)
  case (Cons r rows)
  show ?case by (auto simp: Cons.IH not_less not_le split: option.splits intro: less_trans)
qed simp

lemma validateShape_iff:
  "validateShape st rows n = Inr () \<longleftrightarrow> pOriginSlot (params st) \<le> n \<and> sorted_wrt (<) (map rrSlot rows) \<and>
    (\<forall>r\<in>set rows. pOriginSlot (params st) \<le> rrSlot r \<and> rrSlot r \<le> n \<and> rrVHs r \<noteq> [] \<and>
      length (rrVHs r) \<le> MaxBlobsPerSlotCeiling)"
  by (auto simp: validateShape_def shapeRows_iff)

lemma overlapCheck_iff: "overlapCheck st i rows = Inr () \<longleftrightarrow> (\<forall>r\<in>set rows. syncedTo st < rrSlot r)"
  by (induction rows arbitrary: i) (auto simp: not_le)

lemma lastSlot_le: "sorted_wrt (<) (map rrSlot rows) \<Longrightarrow> rows \<noteq> [] \<Longrightarrow> r \<in> set rows \<Longrightarrow> rrSlot r \<le> lastSlot rows"
  by (cases rows rule: rev_cases) (auto simp: lastSlot_def sorted_wrt_append)

lemma lastSlot_mem: "rows \<noteq> [] \<Longrightarrow> \<exists>r\<in>set rows. lastSlot rows = rrSlot r"
  by (simp add: lastSlot_def) (metis last_in_set)

section \<open>Resolution\<close>

definition entryOf :: "'d resolver \<Rightarrow> vhash \<Rightarrow> 'd RefEntry" where
  "entryOf resolver vh = RefEntry vh (case resolver vh of Inr (c, _) \<Rightarrow> c | Inl _ \<Rightarrow> None)"

definition rowOf :: "'d resolver \<Rightarrow> RefRow \<Rightarrow> 'd Row" where
  "rowOf resolver r = Row (rrSlot r) (map (entryOf resolver) (rrVHs r))"

text \<open>The blob of a versioned hash is in the catalog and its block is held.\<close>

definition available :: "('b, 'd) lib \<Rightarrow> ('b, 'd) engine \<Rightarrow> 'd resolver \<Rightarrow> vhash \<Rightarrow> bool" where
  "available L s resolver vh \<longleftrightarrow> (\<exists>c b. resolver vh = Inr (Some c, True) \<and> held L s c b)"

lemma resolveVHs_Inr:
  "resolveVHs L rs vhs es ms s = (Inr (es', ms'), t) \<Longrightarrow>
    t = s \<and> (ms' = [] \<longrightarrow> ms = [] \<and> es' = es @ map (entryOf rs) vhs \<and> (\<forall>vh\<in>set vhs. available L s rs vh))"
proof (induction vhs arbitrary: es ms s)
  case (Cons vh vhs)
  have skip: ?case if "resolveVHs L rs vhs es (ms @ [vh]) s = (Inr (es', ms'), t)"
    using Cons.IH [OF that] by simp
  obtain c ok where r: "rs vh = Inr (c, ok)" using Cons.prems by (auto split: sum.splits)
  show ?case
  proof (cases "\<not> ok \<or> c = None")
    case True
    then show ?thesis using skip Cons.prems r by simp
  next
    case False
    then obtain c' where c': "c = Some c'" "ok" by auto
    obtain g u where g: "blocksGet L c' s = (g, u)" by fastforce
    have u: "u = s" using g by (simp add: blocksGet_same)
    show ?thesis
    proof (cases g)
      case (Inl e)
      then show ?thesis
        using skip Cons.prems r c' g u by (cases e) (auto simp: bind_def attempt_def)
    next
      case (Inr b)
      then have run: "resolveVHs L rs vhs (es @ [RefEntry vh c]) ms s = (Inr (es', ms'), t)"
        using Cons.prems r c' g u by (simp add: bind_def attempt_def)
      have "held L s c' b" using blocksGet_held [of L c' s b u] g u Inr by simp
      with Cons.IH [OF run] r c' show ?thesis by (auto simp: entryOf_def available_def)
    qed
  qed
qed simp

lemma resolveLoop_Inr:
  "resolveLoop L rs rows out ms s = (Inr (out', ms'), t) \<Longrightarrow>
    t = s \<and> (ms' = [] \<longrightarrow> ms = [] \<and> out' = out @ map (rowOf rs) rows \<and>
      (\<forall>r\<in>set rows. \<forall>vh\<in>set (rrVHs r). available L s rs vh))"
proof (induction rows arbitrary: out ms s)
  case (Cons r rows)
  then obtain es ms1 u where 1: "resolveVHs L rs (rrVHs r) [] ms s = (Inr (es, ms1), u)"
    and 2: "resolveLoop L rs rows (out @ [Row (rrSlot r) es]) ms1 u = (Inr (out', ms'), t)"
    by (auto simp: bind_Inr_iff)
  from resolveVHs_Inr [OF 1] Cons.IH [OF 2] show ?case by (auto simp: rowOf_def)
qed simp

lemma resolveRows_Inr:
  assumes "resolveRows L cfg rows s = (Inr out, t)"
  obtains rs where "cfg = Some rs" "t = s" "out = map (rowOf rs) rows"
    "\<forall>r\<in>set rows. \<forall>vh\<in>set (rrVHs r). available L s rs vh"
proof (cases cfg)
  case (Some rs)
  then obtain ms where "resolveLoop L rs rows [] [] s = (Inr (out, ms), t)" "ms = []"
    using assms by (auto simp: resolveRows_def bind_Inr_iff split: if_splits)
  with resolveLoop_Inr [of L rs rows "[]" "[]" s out "[]" t] Some that show ?thesis by auto
qed (use assms in \<open>simp add: resolveRows_def\<close>)

lemma resolveVHs_wp:
  "\<forall>vh\<in>set vhs. available L s rs vh \<Longrightarrow> Q (es @ map (entryOf rs) vhs, ms) s \<Longrightarrow>
    wp (resolveVHs L rs vhs es ms) (envErr L big s) Q s"
proof (induction vhs arbitrary: es)
  case (Cons vh vhs)
  obtain c b where c: "rs vh = Inr (Some c, True)" "has L (enBlocks s) c b"
    using Cons.prems(1) by (auto simp: available_def held_def)
  have e: "entryOf rs vh = RefEntry vh (Some c)" using c(1) by (simp add: entryOf_def)
  then have IH: "wp (resolveVHs L rs vhs (es @ [RefEntry vh (Some c)]) ms) (envErr L big s) Q s"
    using Cons.prems by (intro Cons.IH) simp_all
  show ?case
  proof (cases "getFault (enBlocks s) c")
    case True
    then have "envErr L big s IOErr" by (auto simp: envErr_def)
    with True show ?thesis by (simp add: c(1) wp_def bind_def attempt_def blocksGet_def has_get [OF c(2)])
  next
    case False
    with IH show ?thesis by (simp add: c(1) wp_def bind_def attempt_def blocksGet_def has_get [OF c(2)])
  qed
qed (simp add: wp_def)

lemma resolveLoop_wp:
  "\<forall>r\<in>set rows. \<forall>vh\<in>set (rrVHs r). available L s rs vh \<Longrightarrow> Q (out @ map (rowOf rs) rows, ms) s \<Longrightarrow>
    wp (resolveLoop L rs rows out ms) (envErr L big s) Q s"
proof (induction rows arbitrary: out)
  case (Cons r rows)
  then show ?case by (auto intro!: resolveVHs_wp simp: rowOf_def)
qed (simp add: wp_def)

lemma resolveRows_wp:
  assumes "\<forall>r\<in>set rows. \<forall>vh\<in>set (rrVHs r). available L s rs vh" "Q (map (rowOf rs) rows) s"
  shows "wp (resolveRows L (Some rs) rows) (envErr L big s) Q s"
  using assms by (auto simp: resolveRows_def intro!: resolveLoop_wp)

section \<open>Committing a segment\<close>

abbreviation "denotesSeg \<equiv> segS.store.denotes"

lemma wp_at: "grows L s0 s \<Longrightarrow> wp m (envErr L big s) Q s \<Longrightarrow> wp m (envErr L big s0) Q s"
  by (simp add: grows_env)

lemma segS_names: "(\<exists>b. EncodeSegment L v = Inr (b, c) \<and> held L s c b) \<longleftrightarrow> segStored L s v \<and> segCid L v = Some c"
  by (auto simp: segStored_def segCid_def)

lemma scratch_grows:
  "grows L s (s\<lparr>segmentEncodeState := a, segmentEncodedBytes := n\<rparr>)" "grows L s (s\<lparr>segmentEncodeState := a\<rparr>)"
  "grows L s (s\<lparr>applyStats := st\<rparr>)" "grows L s (s\<lparr>lastApplyStats := ls\<rparr>)"
  by (auto intro!: grows_scratch)

lemma commitSegment_grows [frame]: "lib_ok L \<Longrightarrow> keeps (grows L) (commitSegment L p st)"
  unfolding commitSegment_def case_prod_unfold Let_def
  by (auto intro!: frame modify_grows scratch_grows keeps_attempt segS.store.Load_keeps segS.store.Commit_keeps)

lemma commitSegment_wp:
  fixes L :: "('b, 'd) lib"
  assumes L: "lib_ok L" and ca: "cacheOk L s" and p: "denotesSeg L s p seg"
    and ok: "pDirty p \<Longrightarrow> SegmentValidate seg = Inr ()" "pDirty p \<Longrightarrow> big \<or> segmentFits seg"
    and post: "\<And>c q t. grows L s t \<Longrightarrow> segStored L t seg \<Longrightarrow> segCid L seg = Some c \<Longrightarrow> Q (c, q) t"
  shows "wp (commitSegment L p st) (envErr L big s) Q s"
proof -
  let ?rest = "\<lambda>val dirty r. bind (modify (\<lambda>s. s\<lparr>segmentEncodeState := None\<rparr>)) (\<lambda>_.
     bind (liftE r) (\<lambda>(id', p').
     bind (gets segmentEncodedBytes) (\<lambda>n.
     bind (if \<not> dirty then bind (blocksGet L id') (\<lambda>block. ret (blen L block)) else ret n) (\<lambda>encodedBytes.
     bind (modify (\<lambda>s. s\<lparr>applyStats := map_option (\<lambda>stats. stats\<lparr>iaSegments := iaSegments stats @
         [\<lparr>ssState = st, ssEncodedBytes = encodedBytes, ssRows = length (sRows val),
           ssRefs = countRefs (sRows val)\<rparr>]\<rparr>) (applyStats s)\<rparr>)) (\<lambda>_.
     ret (id', p'))))))"
  have rest: "wp (?rest val dirty (Inr (c, q'))) (envErr L big s) Q u"
    if u: "grows L s u" "segStored L u seg" "segCid L seg = Some c" for val :: "'d Segment" and dirty c q' u
  proof -
    let ?u = "u\<lparr>segmentEncodeState := None\<rparr>"
    have su: "grows L s ?u" using u(1) scratch_grows(2) by (rule grows_trans)
    have Q: "Q (c, q') (?u\<lparr>applyStats := x\<rparr>)" for x
    proof (rule post)
      show g: "grows L s (?u\<lparr>applyStats := x\<rparr>)" using su scratch_grows(3) by (rule grows_trans)
      show "segStored L (?u\<lparr>applyStats := x\<rparr>) seg"
        using u(2) scratch_grows(2,3) by (blast intro: segStored_grows grows_trans)
    qed (rule u(3))
    obtain b where b: "held L ?u c b"
      using segStored_grows [OF scratch_grows(2) u(2), of None] u(3) segS_names [of L seg c ?u] by blast
    have "wp (blocksGet L c) (envErr L big s) (\<lambda>blk t. \<forall>x. Q (c, q') (t\<lparr>applyStats := x\<rparr>)) ?u"
      by (rule wp_at [OF su], rule wp_mono [OF blocksGet_wp [OF b]]) (use Q in auto)
    then have "wp (blocksGet L c) (envErr L big s) (\<lambda>blk t. Q (c, q') (t\<lparr>applyStats := f blk t\<rparr>)) ?u" for f
      by (rule wp_mono) auto
    with Q show ?thesis by simp
  qed
  have commit: "wp (bind (attempt (Commit (segs L) q)) (?rest val dirty)) (envErr L big s) Q u"
    if u: "grows L s u" "denotesSeg L u q seg" "pDirty q = pDirty p" for val :: "'d Segment" and dirty q u
  proof -
    have "wp (Commit (segs L) q) (envErr L big s) (\<lambda>(c, q') t. grows L s t \<and> segStored L t seg \<and> segCid L seg = Some c) u"
      by (rule wp_at [OF u(1)], rule segS.store.Commit_law [OF L u(2)])
        (use ok u(3) grows_trans [OF u(1)] in \<open>auto simp: segS_names\<close>)
    from wp_attempt [OF this] show ?thesis
      unfolding wp_bind [of "attempt _"]
    proof (rule wp_mono)
      fix r :: "'d err + 'd cid \<times> ('d Segment, 'd) pointer" and t
      assume r: "case r of Inl e \<Rightarrow> envErr L big s e
        | Inr a \<Rightarrow> (case a of (c, q') \<Rightarrow> \<lambda>t. grows L s t \<and> segStored L t seg \<and> segCid L seg = Some c) t"
      show "wp (?rest val dirty r) (envErr L big s) Q t"
      proof (cases r)
        case (Inr a)
        have "wp (?rest val dirty (Inr (fst a, snd a))) (envErr L big s) Q t"
          by (rule rest) (use r Inr in \<open>simp_all add: case_prod_unfold\<close>)
        with Inr show ?thesis by (simp only: prod.collapse)
      qed (use r in \<open>simp add: wp_liftE\<close>)
    qed
  qed
  show ?thesis
    unfolding commitSegment_def wp_bind [of "Load _ _"]
    by (rule segS.store.Load_law [OF L ca p])
      (simp only: prod.case id_apply Let_def wp_bind [of "modify _"] wp_simps(3), rule commit,
        auto intro: grows_trans [OF _ scratch_grows(1)] segS.store.denotes_R [OF scratch_grows(1)])
qed

section \<open>Sealing a window\<close>

lemma seal_grows [frame]: "lib_ok L \<Longrightarrow> keeps (grows L) (seal L st p w)"
  unfolding seal_def case_prod_unfold by (auto intro!: frame segS.store.Load_keeps)

lemma sealedVec_Suc: "sealedVec L p rows (Suc n) = sealedVec L p rows n @ [segLink L p rows (baseOf p + of_nat n)]"
  by (simp add: sealedVec_def)

lemma sealedOk_extend:
  assumes "sealedOk L s st p rows w" "grows L s t" "w < maxUint64"
    and dir: "dirOk L t (pFanoutBits p) (sealedVec L p rows (unat w - unat (baseOf p)) @ [segLink L p rows w]) d depth"
    and seg: "winRows (pSegBits p) w rows \<noteq> [] \<longrightarrow> segStored L t (segOf p rows w)"
  shows "sealedOk L t (st\<lparr>dir := d, dirDepth := depth\<rparr>) p rows (w + 1)"
proof -
  have w: "params st = p" "baseOf p \<le> w" "segsStored L t p rows (unat w - unat (baseOf p))"
    using assms(1,2) by (auto simp: sealedOk_def intro: segsStored_grows)
  have s: "unat (w + 1) = Suc (unat w)" using assms(3) by (rule unat_less_Suc_u64)
  then have n: "unat (w + 1) - unat (baseOf p) = Suc (unat w - unat (baseOf p))" "baseOf p \<le> w + 1"
    using w(2) by (simp_all add: word_le_nat_alt Suc_diff_le)
  have "segsStored L t p rows (Suc (unat w - unat (baseOf p)))"
    using w(3) seg u64_offset [OF w(2)] by (auto simp: segsStored_def less_Suc_eq)
  with dir n w(1) u64_offset [OF w(2)] show ?thesis by (simp add: sealedOk_def sealedVec_Suc)
qed

lemma seal_wp:
  assumes L: "lib_ok L" and ca: "cacheOk L s" and p: "paramsOk p" and sealed: "sealedOk L s st p rows w"
    and ptr: "denotesSeg L s open' (segOf p rows w)"
    and w: "unat w < 18446744073709551614"
    and ok: "winRows (pSegBits p) w rows \<noteq> [] \<Longrightarrow> SegmentValidate (segOf p rows w) = Inr () \<and> segmentFits (segOf p rows w)"
    and post: "\<And>t st'. grows L s t \<Longrightarrow> sealedOk L t st' p rows (w + 1) \<Longrightarrow>
      Q (st', NewNode (Some \<lparr>sSlot0 = windowStart (w + 1) (pSegBits p), sRows = []\<rparr>)) t"
  shows "wp (seal L st open' w) (envErr L big s) Q s"
proof -
  let ?seg = "segOf p rows w" and ?n = "unat w - unat (baseOf p)"
  have st: "params st = p" "baseOf p \<le> w" "dirBase st = baseOf p" using sealed by (simp_all add: sealedOk_def dirBase_def)
  have fb: "fanoutOk (pFanoutBits p)" using p by (simp add: paramsOk_def)
  have rows: "sRows ?seg = winRows (pSegBits p) w rows" by (simp add: segOf_def)
  let ?fin = "\<lambda>link. bind (dirAppend L (dir st) (dirDepth st) (pFanoutBits (params st)) (w - dirBase st) link) (\<lambda>(d, depth).
     ret (st\<lparr>dir := d, dirDepth := depth\<rparr>,
          NewNode (Some \<lparr>sSlot0 = windowStart (w + 1) (pSegBits (params st)), sRows = []\<rparr>)))"
  have fin: "wp (?fin (segLink L p rows w)) (envErr L big s) Q t"
    if t: "grows L s t" and seg: "winRows (pSegBits p) w rows \<noteq> [] \<longrightarrow> segStored L t ?seg" for t
  proof -
    have ok: "sealedOk L t st p rows w" using t sealed by (rule sealedOk_grows)
    have "wp (dirAppend L (dir st) (dirDepth st) (pFanoutBits p) (w - baseOf p) (segLink L p rows w)) (envErr L big t)
        (\<lambda>r u. Q (st\<lparr>dir := fst r, dirDepth := snd r\<rparr>,
          NewNode (Some \<lparr>sSlot0 = windowStart (w + 1) (pSegBits p), sRows = []\<rparr>)) u) t"
    proof (rule dirAppend_wp [OF L fb cacheOk_grows [OF t ca]])
      show "dirOk L t (pFanoutBits p) (sealedVec L p rows ?n) (dir st) (dirDepth st)" using ok by (simp add: sealedOk_def)
      show "unat (w - baseOf p) = length (sealedVec L p rows ?n)" using st(2) by (simp add: unat_sub_u64)
      fix u d depth
      assume u: "grows L t u" and dir: "dirOk L u (pFanoutBits p) (sealedVec L p rows ?n @ [segLink L p rows w]) d depth"
      have "sealedOk L u (st\<lparr>dir := d, dirDepth := depth\<rparr>) p rows (w + 1)"
        using w seg segStored_grows [OF u] by (intro sealedOk_extend [OF ok u _ dir]) (auto simp: word_less_nat_alt)
      then show "Q (st\<lparr>dir := fst (d, depth), dirDepth := snd (d, depth)\<rparr>,
          NewNode (Some \<lparr>sSlot0 = windowStart (w + 1) (pSegBits p), sRows = []\<rparr>)) u"
        using post [OF grows_trans [OF t u]] by simp
    qed (use w in simp)
    then show ?thesis using st grows_env [OF t] by (simp add: case_prod_unfold)
  qed
  have commit: "wp (bind (if sRows ?seg \<noteq> [] then bind (commitSegment L q SegmentSealed) (\<lambda>(c, _). ret (Some c)) else ret None)
      ?fin) (envErr L big s) Q t"
    if t: "grows L s t" "denotesSeg L t q ?seg" for q t
  proof (cases "winRows (pSegBits p) w rows = []")
    case True
    then show ?thesis using fin [OF t(1)] rows by (simp add: segLink_def)
  next
    case False
    have "wp (commitSegment L q SegmentSealed) (envErr L big t) (\<lambda>(c, _) u. wp (?fin (Some c)) (envErr L big s) Q u) t"
      by (rule commitSegment_wp [OF L cacheOk_grows [OF t(1) ca] t(2)])
        (use ok [OF False] fin [OF grows_trans [OF t(1)]] False in \<open>auto simp: segLink_def\<close>)
    then show ?thesis using rows False grows_env [OF t(1)] by (simp add: case_prod_unfold)
  qed
  show ?thesis
    unfolding seal_def wp_bind [of "Load _ _"]
    by (rule segS.store.Load_law [OF L ca ptr]) (simp only: prod.case id_apply, rule commit)
qed

section \<open>One window\<close>

lemma SegmentValidate_segOf: "paramsOk p \<Longrightarrow> rowsOk rows \<Longrightarrow> SegmentValidate (segOf p rows w) = Inr ()"
  by (auto simp: SegmentValidate_iff segOf_def winRows_def rowsOk_def sorted_wrt_map sorted_wrt_filter paramsOk_def
      windowStart_le)

lemma segmentFits_segOf:
  assumes "paramsOk p" "\<forall>r\<in>set rows. rSlot r \<le> n" "n \<le> maxInt64" "windowStart w (pSegBits p) \<le> maxInt64"
  shows "segmentFits (segOf p rows w)"
  using assms by (auto simp: segmentFits_def segOf_def winRows_def intro: order_trans)

lemma windowStart_le_End: "windowOk k w \<Longrightarrow> windowStart w k \<le> windowEnd w k"
  using ord_eq_iff [of k w "windowStart w k"] by (simp add: ord_windowStart)

lemma denotesSeg_Assign:
  "pDirty q \<Longrightarrow> pCid q = None \<Longrightarrow> denotesSeg L s (Assign seg q) seg"
  by (simp add: segS.store.denotes_def Assign_def)

lemma Pair_grows: "keeps (grows L) (Pair r)"
  by (simp add: keeps_def)

lemma applyWindow_grows [frame]: "lib_ok L \<Longrightarrow> keeps (grows L) (applyWindow L n w st p rows)"
  unfolding applyWindow_def case_prod_unfold Let_def
  by (auto intro!: frame segS.store.Mutate_keeps Pair_grows split: option.splits)

lemma applyWindow_wp:
  assumes L: "lib_ok L" and ca: "cacheOk L s" and p: "paramsOk p" and sealed: "sealedOk L s st p rows w"
    and ptr: "denotesSeg L s open' \<lparr>sSlot0 = windowStart w (pSegBits p), sRows = pre\<rparr>"
    and split: "winRows (pSegBits p) w rows = pre @ takeWhile (\<lambda>r. ord (rSlot r) (pSegBits p) = w) resolved"
    and w: "windowOk (pSegBits p) w" and rows: "rowsOk rows" "\<forall>r\<in>set rows. rSlot r \<le> n" and n: "n \<le> maxInt64"
    and more: "\<And>t st'. windowEnd w (pSegBits p) \<le> n \<Longrightarrow> grows L s t \<Longrightarrow> sealedOk L t st' p rows (w + 1) \<Longrightarrow>
      Q (st', NewNode (Some \<lparr>sSlot0 = windowStart (w + 1) (pSegBits p), sRows = []\<rparr>),
        dropWhile (\<lambda>r. ord (rSlot r) (pSegBits p) = w) resolved) t"
    and last: "\<And>t q. n < windowEnd w (pSegBits p) \<Longrightarrow> grows L s t \<Longrightarrow> denotesSeg L t q (segOf p rows w) \<Longrightarrow>
      Q (st, q, dropWhile (\<lambda>r. ord (rSlot r) (pSegBits p) = w) resolved) t"
  shows "wp (applyWindow L n w st open' resolved) (envErr L big s) Q s"
proof -
  let ?k = "pSegBits p" and ?in = "\<lambda>r. ord (rSlot r) (pSegBits p) = w"
  have st: "params st = p" using sealed by (simp add: sealedOk_def)
  let ?fin = "\<lambda>q. bind (if windowEnd w ?k \<le> n then seal L st q w else ret (st, q)) (\<lambda>(st', p'). ret (st', p', dropWhile ?in resolved))"
  have fin: "wp (?fin q) (envErr L big s) Q t" if t: "grows L s t" "denotesSeg L t q (segOf p rows w)" for q t
  proof (cases "windowEnd w ?k \<le> n")
    case True
    have "windowStart w ?k \<le> maxInt64" using windowStart_le_End [OF w] True n by (blast intro: order_trans)
    then have ok: "SegmentValidate (segOf p rows w) = Inr ()" "segmentFits (segOf p rows w)"
      using SegmentValidate_segOf [OF p rows(1)] segmentFits_segOf [OF p rows(2) n] by blast+
    have "unat w \<le> unat (windowStart w ?k)" by (simp add: unat_windowStart [OF w])
    with \<open>windowStart w ?k \<le> maxInt64\<close> have "unat w < 18446744073709551614" by (simp add: word_le_nat_alt)
    then have "wp (seal L st q w) (envErr L big t) (\<lambda>(st', p'). Q (st', p', dropWhile ?in resolved)) t"
      by (rule seal_wp [OF L cacheOk_grows [OF t(1) ca] p sealedOk_grows [OF t(1) sealed] t(2)])
        (use ok more [OF True grows_trans [OF t(1)]] in auto)
    with True grows_env [OF t(1)] show ?thesis by (simp add: case_prod_unfold)
  next
    case False
    with last [OF _ t] show ?thesis by simp
  qed
  show ?thesis
  proof (cases "takeWhile ?in resolved = []")
    case True
    then have "denotesSeg L s open' (segOf p rows w)" using ptr split by (simp add: segOf_def)
    with True fin [of s open'] st show ?thesis by (simp add: applyWindow_def Let_def)
  next
    case False
    let ?put = "\<lambda>(v, q). bind (case v of None \<Rightarrow> fail ErrEmpty
      | Some seg \<Rightarrow> ret (Assign (seg\<lparr>sRows := sRows seg @ takeWhile ?in resolved\<rparr>) q)) ?fin"
    have "wp (Mutate (segs L) open') (envErr L big s) (\<lambda>r. wp (?put r) (envErr L big s) Q) s"
      by (rule segS.store.Mutate_law [OF L ptr])
        (simp only: prod.case option.case bind_ret id_apply, rule fin, use split in \<open>auto simp: segOf_def intro: denotesSeg_Assign\<close>)
    with False st show ?thesis by (simp add: applyWindow_def Let_def case_prod_unfold wp_bind_fun)
  qed
qed

section \<open>The window loop\<close>

lemma applyWindows_step:
  "w \<le> w1 \<Longrightarrow> applyWindows L n w1 w st p rs = bind (applyWindow L n w st p rs) (\<lambda>r.
     if w = maxUint64 then fail NonTermination
     else applyWindows L n w1 (w + 1) (fst r) (fst (snd r)) (snd (snd r)))"
  "w1 < w \<Longrightarrow> applyWindows L n w1 w st p rs = ret (st, p, rs)"
proof -
  show "w \<le> w1 \<Longrightarrow> applyWindows L n w1 w st p rs = bind (applyWindow L n w st p rs) (\<lambda>r.
     if w = maxUint64 then fail NonTermination
     else applyWindows L n w1 (w + 1) (fst r) (fst (snd r)) (snd (snd r)))"
    by (rule ext) (simp add: applyWindows.simps)
  show "w1 < w \<Longrightarrow> applyWindows L n w1 w st p rs = ret (st, p, rs)"
    by (rule ext, subst applyWindows.simps) (simp only: not_le [symmetric] if_False op_apply)
qed

lemma applyWindows_grows [frame]:
  assumes L: "lib_ok L"
  shows "keeps (grows L) (applyWindows L n w1 w st p rs)"
proof (induction "Suc (unat w1) - unat w" arbitrary: w st p rs rule: less_induct)
  case less
  show ?case
  proof (cases "w \<le> w1")
    case True
    have "keeps (grows L) (applyWindows L n w1 (w + 1) st p rs)" if "w \<noteq> maxUint64" for st p rs
      using less counter_step [OF True that] by blast
    then show ?thesis unfolding applyWindows_step(1) [OF True] by (auto intro!: frame L)
  qed (auto simp: applyWindows_step intro!: frame)
qed

lemma sorted_batch:
  assumes "sorted_wrt (<) (map rSlot rows)"
  shows "takeWhile (\<lambda>r. ord (rSlot r) k = w) (filter (\<lambda>r. w \<le> ord (rSlot r) k) rows) = winRows k w rows"
    "dropWhile (\<lambda>r. ord (rSlot r) k = w) (filter (\<lambda>r. w \<le> ord (rSlot r) k) rows) = filter (\<lambda>r. w < ord (rSlot r) k) rows"
proof -
  have "takeWhile (\<lambda>r. ord (rSlot r) k = w) (filter (\<lambda>r. w \<le> ord (rSlot r) k) rows) = winRows k w rows \<and>
    dropWhile (\<lambda>r. ord (rSlot r) k = w) (filter (\<lambda>r. w \<le> ord (rSlot r) k) rows) = filter (\<lambda>r. w < ord (rSlot r) k) rows"
    using assms
  proof (induction rows)
    case (Cons r rows)
    have later: "ord (rSlot r) k \<le> ord (rSlot x) k" if "x \<in> set rows" for x
      using Cons.prems that by (intro ord_mono) auto
    consider "ord (rSlot r) k < w" | "ord (rSlot r) k = w" | "w < ord (rSlot r) k" by fastforce
    then show ?case
    proof cases
      case 3
      then have "w < ord (rSlot x) k" if "x \<in> set rows" for x using later [OF that] by simp
      then have "winRows k w rows = []" "filter (\<lambda>r. w < ord (rSlot r) k) rows = rows" "filter (\<lambda>r. w \<le> ord (rSlot r) k) rows = rows"
        by (auto simp: winRows_def filter_empty_conv filter_id_conv intro: order_less_imp_le)
      with 3 show ?thesis by (auto simp: winRows_def)
    qed (use Cons in \<open>auto simp: winRows_def\<close>)
  qed (simp add: winRows_def)
  then show "takeWhile (\<lambda>r. ord (rSlot r) k = w) (filter (\<lambda>r. w \<le> ord (rSlot r) k) rows) = winRows k w rows"
    "dropWhile (\<lambda>r. ord (rSlot r) k = w) (filter (\<lambda>r. w \<le> ord (rSlot r) k) rows) = filter (\<lambda>r. w < ord (rSlot r) k) rows"
    by blast+
qed

lemma winRows_append: "winRows k w (xs @ ys) = winRows k w xs @ winRows k w ys"
  by (simp add: winRows_def)

lemma winRows_empty: "\<forall>r\<in>set rows. ord (rSlot r) k \<noteq> w \<Longrightarrow> winRows k w rows = []"
  by (simp add: winRows_def filter_empty_conv)

text \<open>Rows that extend a head synced to the slot before \<open>w0\<close>'s first new one: the old rows end in window \<open>w0\<close>, the new
  ones begin there.\<close>

definition extendsAt :: "Params \<Rightarrow> 'd Row list \<Rightarrow> 'd Row list \<Rightarrow> u64 \<Rightarrow> u64 \<Rightarrow> bool" where
  "extendsAt p old new w0 n \<longleftrightarrow> rowsOk (old @ new) \<and>
     (\<forall>r\<in>set old. ord (rSlot r) (pSegBits p) \<le> w0) \<and> (\<forall>r\<in>set new. w0 \<le> ord (rSlot r) (pSegBits p)) \<and>
     (\<forall>r\<in>set (old @ new). rSlot r \<le> n)"

lemma applyWindows_wp:
  assumes L: "lib_ok L" and p: "paramsOk p" and rows: "extendsAt p old new w0 n" and n: "n \<le> maxInt64"
  shows "cacheOk L s \<Longrightarrow> sealedOk L s st p (old @ new) w \<Longrightarrow> denotesSeg L s open' (segOf p old w) \<Longrightarrow>
    w0 \<le> w \<Longrightarrow> w \<le> ord n (pSegBits p) \<Longrightarrow>
    (\<And>t st' q. grows L s t \<Longrightarrow> sealedOk L t st' p (old @ new) (ord (n + 1) (pSegBits p)) \<Longrightarrow>
      denotesSeg L t q (segOf p (old @ new) (ord (n + 1) (pSegBits p))) \<Longrightarrow> Q (st', q, []) t) \<Longrightarrow>
    wp (applyWindows L n (ord n (pSegBits p)) w st open' (filter (\<lambda>r. w \<le> ord (rSlot r) (pSegBits p)) new)) (envErr L big s) Q s"
proof (induction "Suc (unat (ord n (pSegBits p))) - unat w" arbitrary: w s st open' rule: less_induct)
  case less
  let ?k = "pSegBits p" and ?w1 = "ord n (pSegBits p)" and ?R = "old @ new"
  have k: "?k \<le> 63" using p by (simp add: paramsOk_def)
  have nmax: "n < maxUint64" using n by (simp add: word_less_nat_alt word_le_nat_alt)
  have w: "windowOk ?k w" using windowOk_le [OF windowOk_ord [OF k] less.prems(5)] .
  have sorted: "sorted_wrt (<) (map rSlot new)" using rows by (simp add: extendsAt_def rowsOk_def sorted_wrt_append)
  have in_n: "\<forall>r\<in>set ?R. rSlot r \<le> n" and ok: "rowsOk ?R" using rows by (simp_all add: extendsAt_def)
  have wmax: "w \<noteq> maxUint64" using less.prems(5) ord_le [of n ?k] nmax by auto
  have split: "winRows ?k w ?R = winRows ?k w old @ takeWhile (\<lambda>r. ord (rSlot r) ?k = w) (filter (\<lambda>r. w \<le> ord (rSlot r) ?k) new)"
    by (simp add: sorted_batch(1) [OF sorted] winRows_append)
  have rest: "dropWhile (\<lambda>r. ord (rSlot r) ?k = w) (filter (\<lambda>r. w \<le> ord (rSlot r) ?k) new) = filter (\<lambda>r. w + 1 \<le> ord (rSlot r) ?k) new"
    by (simp add: sorted_batch(2) [OF sorted] u64_less_iff_Suc_le [OF wmax])
  have none: "filter (\<lambda>r. w + 1 \<le> ord (rSlot r) ?k) new = []" if "?w1 \<le> w"
  proof -
    have "ord (rSlot r) ?k \<le> w" if "r \<in> set new" for r
      using that in_n \<open>?w1 \<le> w\<close> by (auto intro: order_trans [OF ord_mono])
    then show ?thesis by (auto simp: filter_empty_conv u64_less_iff_Suc_le [OF wmax, symmetric] dest: leD)
  qed
  have "wp (applyWindow L n w st open' (filter (\<lambda>r. w \<le> ord (rSlot r) ?k) new)) (envErr L big s)
     (\<lambda>r. wp (applyWindows L n ?w1 (w + 1) (fst r) (fst (snd r)) (snd (snd r))) (envErr L big s) Q) s"
  proof (rule applyWindow_wp [OF L less.prems(1) p less.prems(2) less.prems(3) [unfolded segOf_def] split w ok in_n n], unfold rest fst_conv snd_conv)
    fix t st' assume full: "windowEnd w ?k \<le> n" and t: "grows L s t" and sealed: "sealedOk L t st' p ?R (w + 1)"
    let ?q = "NewNode (Some \<lparr>sSlot0 = windowStart (w + 1) ?k, sRows = []\<rparr>)"
    have fresh: "denotesSeg L t ?q (segOf p X (w + 1))" if "winRows ?k (w + 1) X = []" for X :: "'b Row list"
      using that segS.store.denotes_NewNode by (simp add: segOf_def)
    show "wp (applyWindows L n ?w1 (w + 1) st' ?q (filter (\<lambda>r. w + 1 \<le> ord (rSlot r) ?k) new)) (envErr L big s) Q t"
    proof (cases "w < ?w1")
      case True
      have "winRows ?k (w + 1) old = []"
        using rows less.prems(4) u64_less_iff_Suc_le [OF wmax] by (fastforce simp: extendsAt_def intro: winRows_empty)
      moreover have "w0 \<le> w + 1" using less.prems(4) u64_less_iff_Suc_le [OF wmax, of "w + 1"] by simp
      ultimately show ?thesis using True
        unfolding grows_env [OF t, symmetric]
        by (intro less.hyps counter_step wmax less.prems cacheOk_grows [OF t] sealed fresh grows_trans [OF t])
          (auto simp: u64_less_iff_Suc_le [OF wmax])
    next
      case False
      then have eq: "?w1 = w" using less.prems(5) by simp
      then have "ord (rSlot r) ?k \<le> w" if "r \<in> set ?R" for r
        using that in_n ord_mono [of "rSlot r" n ?k] by auto
      then have "winRows ?k (w + 1) ?R = []"
        using u64_less_iff_Suc_le [OF wmax] by (fastforce intro: winRows_empty)
      then show ?thesis
        using less.prems(6) [OF t] sealed fresh none eq window_full [OF w nmax eq full] u64_less_iff_Suc_le [OF wmax]
        by (auto simp: applyWindows_step(2))
    qed
  next
    fix t q assume part: "n < windowEnd w ?k" and t: "grows L s t" and q: "denotesSeg L t q (segOf p ?R w)"
    show "wp (applyWindows L n ?w1 (w + 1) st q (filter (\<lambda>r. w + 1 \<le> ord (rSlot r) ?k) new)) (envErr L big s) Q t"
      using window_last [OF w nmax less.prems(5) part] less.prems(6) [OF t] sealedOk_grows [OF t less.prems(2)] q none u64_less_iff_Suc_le [OF wmax]
      by (auto simp: applyWindows_step(2))
  qed
  with wmax show ?case by (simp add: applyWindows_step(1) [OF less.prems(5)])
qed

section \<open>Publishing\<close>

text \<open>A later state of the same engine whose published state may be a new one.\<close>

definition moves :: "('b, 'd) lib \<Rightarrow> ('b, 'd) engine \<Rightarrow> ('b, 'd) engine \<Rightarrow> bool" where
  "moves L s t \<longleftrightarrow> grows L s (t\<lparr>cur := cur s\<rparr>)"

lemma held_cur [simp]: "held L (s\<lparr>cur := x\<rparr>) = held L s"
  by (simp add: held_def fun_eq_iff)

lemma cur_simps [simp]:
  "cacheOk L (s\<lparr>cur := x\<rparr>) = cacheOk L s"
  "segStored L (s\<lparr>cur := x\<rparr>) seg = segStored L s seg"
  "segsStored L (s\<lparr>cur := x\<rparr>) p rows n = segsStored L s p rows n"
  "pageStored L (s\<lparr>cur := x\<rparr>) kids = pageStored L s kids"
  by (simp_all add: cacheOk_def segStored_def segsStored_def pageStored_def)

lemma dirStored_cur [simp]: "dirStored L (s\<lparr>cur := x\<rparr>) F d vec = dirStored L s F d vec"
  by (induction d arbitrary: vec) simp_all

lemma headOk_cur [simp]:
  "bodyOk L (s\<lparr>cur := x\<rparr>) st p rows syn = bodyOk L s st p rows syn"
  "headOk L (s\<lparr>cur := x\<rparr>) st p rows syn = headOk L s st p rows syn"
  by (auto simp: headOk_def bodyOk_def sealedOk_def dirOk_def split: option.splits)

lemma grows_moves: "grows L s t \<Longrightarrow> moves L s t"
  unfolding moves_def by (simp flip: grows_cur)

lemma headObject_root [simp]: "headObject (st\<lparr>root := r\<rparr>) = headObject st"
  by (simp add: headObject_def)

lemma moves_held: "moves L s t \<Longrightarrow> held L s c b \<Longrightarrow> held L t c b"
  using grows_held [of L s "t\<lparr>cur := cur s\<rparr>"] by (simp add: moves_def)

lemma moves_cacheOk: "moves L s t \<Longrightarrow> cacheOk L s \<Longrightarrow> cacheOk L t"
  using cacheOk_grows [of L s "t\<lparr>cur := cur s\<rparr>"] by (simp add: moves_def)

lemma moves_headOk: "moves L s t \<Longrightarrow> headOk L s st p rows syn \<Longrightarrow> headOk L t st p rows syn"
  using headOk_grows [of L s "t\<lparr>cur := cur s\<rparr>"] by (simp add: moves_def)

lemma grows_cur_update: "grows L s t \<Longrightarrow> grows L (s\<lparr>cur := x\<rparr>) (t\<lparr>cur := x\<rparr>)"
  by (simp add: grows_def)

lemma moves_trans: "moves L s t \<Longrightarrow> moves L t u \<Longrightarrow> moves L s u"
  using grows_cur_update [of L t "u\<lparr>cur := cur t\<rparr>" "cur s"] by (auto simp: moves_def intro: grows_trans)

lemma moves_preorder: "reflp (moves L)" "transp (moves L)"
  by (auto intro!: reflpI transpI intro: moves_trans grows_moves)

lemma bodyOk_valid:
  assumes L: "lib_ok L" and ok: "bodyOk L s st p rows syn"
  shows "HeadValidate (headObject st) = Inr ()"
proof (cases syn)
  case (Some x)
  obtain v where fb: "fanoutOk (pFanoutBits p)" and dir: "dirOk L s (pFanoutBits p) v (dir st) (dirDepth st)"
    using ok Some by (auto simp: bodyOk_def paramsOk_def sealedOk_def)
  have "(dirDepth st = 0) = (dir st = None)"
    using dirOk_depth(1) [OF fb dir] dir dirRoot_Some [OF L, of "unat (dirDepth st)" "fan (pFanoutBits p)" v]
    by (cases "v = []") (auto simp: dirOk_def depthFor_def u64_eq_iff split: if_splits)
  then show ?thesis using ok Some
    by (auto simp: HeadValidate_def headObject_def bodyOk_def paramsOk_def ValidateHeadName_def not_less)
qed (use ok in \<open>auto simp: HeadValidate_def headObject_def bodyOk_def paramsOk_def ValidateHeadName_def\<close>)

lemma bodyOk_fits:
  assumes ok: "bodyOk L s st p rows syn" and "case syn of None \<Rightarrow> pOriginSlot p \<le> maxInt64 | Some x \<Rightarrow> x \<le> maxInt64"
  shows "headFits (headObject st)"
proof -
  have p: "params st = p" "unat (pSegBits p) \<le> 63" "unat (pFanoutBits p) \<le> 32"
    using ok by (auto simp: bodyOk_def paramsOk_def fanoutOk_def word_le_nat_alt)
  have "unat (dirDepth st) \<le> 64"
    using ok dirOk_depth(2) by (cases syn) (fastforce simp: bodyOk_def sealedOk_def paramsOk_def)+
  with p show ?thesis using ok assms(2)
    by (cases syn) (auto simp: headFits_def headObject_def bodyOk_def word_le_nat_alt)
qed

lemma publish_wp:
  assumes L: "lib_ok L" and ok: "bodyOk L s st p rows syn"
    and fits: "big \<or> (case syn of None \<Rightarrow> pOriginSlot p \<le> maxInt64 | Some x \<Rightarrow> x \<le> maxInt64)"
    and post: "\<And>t. moves L s t \<Longrightarrow> headOk L t (cur t) p rows syn \<Longrightarrow> Q (cur t) t"
  shows "wp (publish L st) (envErr L big s) Q s"
proof -
  have fin: "Q (st\<lparr>root := Some c\<rparr>) (t\<lparr>cur := st\<lparr>root := Some c\<rparr>\<rparr>)"
    if t: "grows L s t" "EncodeHead L (headObject st) = Inr (b, c)" "held L t c b" for t b c
  proof -
    let ?t = "t\<lparr>cur := st\<lparr>root := Some c\<rparr>\<rparr>"
    have "bodyOk L t (st\<lparr>root := Some c\<rparr>) p rows syn"
      using bodyOk_grows [OF t(1) ok] by (auto simp: bodyOk_def sealedOk_def split: option.splits)
    then have "headOk L ?t (cur ?t) p rows syn" using t(2,3) by (simp add: headOk_def)
    moreover have "moves L s ?t" using grows_moves [OF t(1)] by (simp add: moves_def)
    ultimately show ?thesis using post [of ?t] by simp
  qed
  have "wp (Commit (heads L) (NewNode (Some (headObject st)))) (envErr L big s)
    (\<lambda>(c, q) t. Q (st\<lparr>root := Some c\<rparr>) (t\<lparr>cur := st\<lparr>root := Some c\<rparr>\<rparr>)) s"
    by (rule headS.store.Commit_law [OF L headS.store.denotes_NewNode])
      (use fin fits bodyOk_valid [OF L ok] bodyOk_fits [OF ok] in auto)
  then show ?thesis by (simp add: publish_def case_prod_unfold Let_def wp_bind_fun)
qed

lemma New_wp:
  assumes L: "lib_ok L" and p: "paramsOk p" and fits: "big \<or> pOriginSlot p \<le> maxInt64"
    and post: "\<And>t. moves L s t \<Longrightarrow> headOk L t (cur t) p [] None \<Longrightarrow> Q (cur t) t"
  shows "wp (New L p) (envErr L big s) Q s"
proof -
  have "bodyOk L s (emptyState p) p [] None" using p by (simp add: bodyOk_def emptyState_def)
  from publish_wp [OF L this, of big Q] fits post have "wp (publish L (emptyState p)) (envErr L big s) Q s" by simp
  then show ?thesis using p by (simp add: New_def paramsOk_def fanoutOk_def word_le_nat_alt u64_eq_iff word_less_nat_alt)
qed

section \<open>Applying a batch\<close>

lemma sealedOk_cong:
  assumes "\<And>v. baseOf p \<le> v \<Longrightarrow> v < w \<Longrightarrow> winRows (pSegBits p) v rows = winRows (pSegBits p) v rows'"
    and "sealedOk L s st p rows w"
  shows "sealedOk L s st p rows' w"
proof -
  let ?n = "unat w - unat (baseOf p)"
  have "winRows (pSegBits p) (baseOf p + of_nat i) rows = winRows (pSegBits p) (baseOf p + of_nat i) rows'" if "i < ?n" for i
  proof (rule assms(1))
    have "unat (baseOf p + of_nat i) = unat (baseOf p) + i"
      using that unat_u64_less [of w] by (simp add: unat_add_u64 unat_of_nat_u64)
    then show "baseOf p \<le> baseOf p + of_nat i" "baseOf p + of_nat i < w"
      using that by (simp_all add: word_le_nat_alt word_less_nat_alt)
  qed
  then have "sealedVec L p rows ?n = sealedVec L p rows' ?n" "segsStored L s p rows ?n = segsStored L s p rows' ?n"
    by (auto simp: sealedVec_def segsStored_def segLink_def segOf_def)
  with assms(2) show ?thesis by (simp add: sealedOk_def)
qed

lemma sealedOk_root [simp]: "sealedOk L s (st\<lparr>root := r\<rparr>) p rows w = sealedOk L s st p rows w"
  by (simp add: sealedOk_def)

text \<open>The window coverage resumes in, and that an extension of the rows leaves the sealed part alone.\<close>

definition resumeSlot :: "Params \<Rightarrow> u64 option \<Rightarrow> u64" where
  "resumeSlot p syn = (case syn of None \<Rightarrow> pOriginSlot p | Some x \<Rightarrow> x + 1)"

lemma sealedOk_resume:
  assumes L: "lib_ok L" and ok: "bodyOk L s st p old syn" and new: "\<forall>r\<in>set new. resumeSlot p syn \<le> rSlot r"
  shows "sealedOk L s st p (old @ new) (ord (resumeSlot p syn) (pSegBits p))"
proof (cases syn)
  case None
  then show ?thesis using ok canonicalDepth_depthFor(1) [of "pFanoutBits p" 0]
    by (auto simp: bodyOk_def sealedOk_def resumeSlot_def dirOk_def sealedVec_def segsStored_def canonicalDepth_def)
next
  case (Some x)
  have "winRows (pSegBits p) v (old @ new) = winRows (pSegBits p) v old" if "v < ord (x + 1) (pSegBits p)" for v
  proof -
    have "ord (rSlot r) (pSegBits p) \<noteq> v" if "r \<in> set new" for r
      using new Some that ord_mono [of "x + 1" "rSlot r" "pSegBits p"] \<open>v < _\<close> by (auto simp: resumeSlot_def)
    then show ?thesis by (simp add: winRows_append winRows_empty)
  qed
  then have "winRows (pSegBits p) v old = winRows (pSegBits p) v (old @ new)" if "v < ord (x + 1) (pSegBits p)" for v
    using that by simp
  moreover have "sealedOk L s st p old (ord (x + 1) (pSegBits p))" using ok Some by (simp add: bodyOk_def)
  ultimately have "sealedOk L s st p (old @ new) (ord (x + 1) (pSegBits p))" by (rule sealedOk_cong)
  with Some show ?thesis by (simp add: resumeSlot_def)
qed

lemma openPointer_wp:
  assumes L: "lib_ok L" and ca: "cacheOk L s" and ok: "bodyOk L s st p old syn" and w: "w = ord (resumeSlot p syn) (pSegBits p)"
    and post: "\<And>t q. grows L s t \<Longrightarrow> denotesSeg L t q (segOf p old w) \<Longrightarrow> Q q t"
  shows "wp (if covered st then
              bind (openOrd L st) (\<lambda>openW.
              if openW \<noteq> w then fail (Internal ''open segment window'') else ret (Pointer (openSeg st)))
            else ret (NewNode (Some \<lparr>sSlot0 = windowStart w (pSegBits p), sRows = []\<rparr>))) (envErr L big s) Q s"
proof (cases syn)
  case None
  then have "\<not> covered st" "segOf p old w = \<lparr>sSlot0 = windowStart w (pSegBits p), sRows = []\<rparr>"
    using ok by (auto simp: bodyOk_def segOf_def winRows_def)
  with post [of s, OF _ segS.store.denotes_NewNode] show ?thesis by simp
next
  case (Some x)
  have body: "bodyOk L s st p old (Some x)" using ok Some by simp
  have seg: "segStored L s (segOf p old w)" "openSeg st = segCid L (segOf p old w)" "covered st"
    using body w Some by (simp_all add: bodyOk_def resumeSlot_def)
  have "Q (Pointer (openSeg st)) t" if t: "grows L s t" for t
    using segStored_grows [OF t seg(1)] seg(2)
    by (intro post t) (auto simp: segStored_def segCid_def intro!: segS.store.denotes_Pointer)
  then have "wp (openOrd L st) (envErr L big s) (\<lambda>openW. wp (if openW \<noteq> w then fail (Internal ''open segment window'')
      else ret (Pointer (openSeg st))) (envErr L big s) Q) s"
    by (intro openOrd_wp [OF L ca body]) (simp add: w Some resumeSlot_def)
  with seg(3) show ?thesis by simp
qed

lemma commit_publish_wp:
  assumes L: "lib_ok L" and p: "paramsOk p" and ca: "cacheOk L s"
    and sealed: "sealedOk L s st p rows (ord (n + 1) (pSegBits p))"
    and ptr: "denotesSeg L s q (segOf p rows (ord (n + 1) (pSegBits p)))"
    and rows: "rowsIn p rows n" "pOriginSlot p \<le> n" and n: "n \<le> maxInt64" "big \<or> n < maxInt64"
    and E: "\<And>e. envErr L big s e \<Longrightarrow> E e"
    and mid: "\<And>t st'. grows L s t \<Longrightarrow> bodyOk L t st' p rows (Some n) \<Longrightarrow> wp (mid st') E (\<lambda>_ u. grows L t u \<and> M u) t"
    and post: "\<And>t u. moves L s u \<Longrightarrow> M t \<Longrightarrow> moves L t u \<Longrightarrow> headOk L u (cur u) p rows (Some n) \<Longrightarrow> Q (cur u) u"
  shows "wp (bind (commitSegment L q SegmentOpen) (\<lambda>(c, _).
    bind (mid (st\<lparr>openSeg := Some c, syncedTo := n, covered := True\<rparr>)) (\<lambda>_.
    publish L (st\<lparr>openSeg := Some c, syncedTo := n, covered := True\<rparr>)))) E Q s"
proof -
  let ?w = "ord (n + 1) (pSegBits p)" and ?st = "\<lambda>c. st\<lparr>openSeg := Some c, syncedTo := n, covered := True\<rparr>"
  have k: "pSegBits p \<le> 63" using p by (simp add: paramsOk_def)
  have nmax: "n < maxUint64" using n(1) by (simp add: word_less_nat_alt word_le_nat_alt)
  have valid: "SegmentValidate (segOf p rows ?w) = Inr ()" using SegmentValidate_segOf [OF p, of rows] rows(1) by (simp add: rowsIn_def)
  have fits: "big \<or> segmentFits (segOf p rows ?w)"
  proof (cases big)
    case False
    then have "n + 1 \<le> maxInt64" using n(2) unat_less_Suc_u64 [OF nmax] by (simp add: word_le_nat_alt word_less_nat_alt)
    then have "windowStart ?w (pSegBits p) \<le> maxInt64" using windowStart_le [OF k, of "n + 1"] by (rule order_trans [rotated])
    then show ?thesis using segmentFits_segOf [OF p _ n(1), of rows] rows(1) by (simp add: rowsIn_def)
  qed simp
  have pub: "wp (publish L st') E Q u"
    if u: "grows L s t" "grows L t u" "M u" "bodyOk L t st' p rows (Some n)" for t u st'
  proof -
    have su: "grows L s u" using u(1,2) by (rule grows_trans)
    have "wp (publish L st') (envErr L big u) Q u"
      by (rule publish_wp [OF L bodyOk_grows [OF u(2,4)]])
        (use n u(3) post moves_trans [OF grows_moves [OF su]] in auto)
    then show ?thesis by (rule wp_mono) (auto simp: grows_env [OF su] E)
  qed
  have rest: "wp (bind (mid (?st c)) (\<lambda>_. publish L (?st c))) E Q t"
    if t: "grows L s t" "segStored L t (segOf p rows ?w)" "segCid L (segOf p rows ?w) = Some c" for t c
  proof -
    have "sealedOk L t st p rows ?w" using t(1) sealed by (rule sealedOk_grows)
    then have body: "bodyOk L t (?st c) p rows (Some n)"
      using p rows nmax t(2,3) by (simp add: bodyOk_def sealedOk_def)
    from mid [OF t(1) body] show ?thesis unfolding wp_bind by (rule wp_mono) (use pub [OF t(1) _ _ body] in auto)
  qed
  have "wp (commitSegment L q SegmentOpen) (envErr L big s) (\<lambda>r. wp (case r of (c, _) \<Rightarrow> bind (mid (?st c)) (\<lambda>_. publish L (?st c))) E Q) s"
    by (rule commitSegment_wp [OF L ca ptr], rule valid, rule fits, simp only: prod.case, rule rest)
  then show ?thesis unfolding wp_bind [of "commitSegment _ _ _"] by (rule wp_mono) (auto simp: E)
qed

lemma publish_apply_wp:
  assumes "lib_ok L" "paramsOk p" "cacheOk L s" "sealedOk L s st p rows (ord (n + 1) (pSegBits p))"
    "denotesSeg L s q (segOf p rows (ord (n + 1) (pSegBits p)))" "rowsIn p rows n" "pOriginSlot p \<le> n" "n \<le> maxInt64" "big \<or> n < maxInt64"
    and post: "\<And>t. moves L s t \<Longrightarrow> headOk L t (cur t) p rows (Some n) \<Longrightarrow> Q (cur t) t"
  shows "wp (bind (commitSegment L q SegmentOpen) (\<lambda>(c, _).
    publish L (st\<lparr>openSeg := Some c, syncedTo := n, covered := True\<rparr>))) (envErr L big s) Q s"
  using commit_publish_wp [OF assms(1-9), of "envErr L big s" "\<lambda>_. ret ()" "\<lambda>_. True" Q] post by simp

lemma resume_le: "x < maxUint64 \<Longrightarrow> x \<le> x + 1"
  by (simp add: word_le_nat_alt unat_less_Suc_u64)

lemma resumeSlot_bounds:
  assumes ok: "bodyOk L s st p old syn"
  shows "pOriginSlot p \<le> resumeSlot p syn" "\<forall>r\<in>set old. rSlot r \<le> resumeSlot p syn"
proof -
  have "pOriginSlot p \<le> resumeSlot p syn \<and> (\<forall>r\<in>set old. rSlot r \<le> resumeSlot p syn)"
  proof (cases syn)
    case (Some x)
    then have x: "pOriginSlot p \<le> x" "x < maxUint64" "\<forall>r\<in>set old. rSlot r \<le> x"
      using ok by (simp_all add: bodyOk_def rowsIn_def)
    from resume_le [OF x(2)] x(1,3) Some show ?thesis by (simp add: resumeSlot_def) (meson order_trans)
  qed (use ok in \<open>simp add: bodyOk_def resumeSlot_def\<close>)
  then show "pOriginSlot p \<le> resumeSlot p syn" "\<forall>r\<in>set old. rSlot r \<le> resumeSlot p syn" by blast+
qed

lemma applyBody_wp:
  assumes L: "lib_ok L" and ca: "cacheOk L s" and ok: "bodyOk L s st p old syn"
    and new: "\<forall>r\<in>set new. resumeSlot p syn \<le> rSlot r" and rows: "rowsIn p (old @ new) n"
    and n: "resumeSlot p syn \<le> n" "n \<le> maxInt64" "big \<or> n < maxInt64"
    and post: "\<And>t r. moves L s t \<Longrightarrow> headOk L t (cur t) p (old @ new) (Some n) \<Longrightarrow> arSyncedTo r = n \<Longrightarrow>
      arRoot r = root (cur t) \<Longrightarrow> \<not> arNoOp r \<Longrightarrow> lastApplyStats t = arIndex r \<Longrightarrow> Q r t"
  shows "wp (applyBody L st new n) (envErr L big s) Q s"
proof -
  let ?k = "pSegBits p" and ?w0 = "ord (resumeSlot p syn) (pSegBits p)" and ?w1 = "ord n (pSegBits p)"
  have p: "paramsOk p" "params st = p" using ok by (simp_all add: bodyOk_def)
  have start: "(if covered st then syncedTo st + 1 else pOriginSlot p) = resumeSlot p syn"
    using ok by (auto simp: bodyOk_def resumeSlot_def split: option.splits)
  note resume = resumeSlot_bounds [OF ok]
  have origin: "pOriginSlot p \<le> n" using resume(1) n(1) by (rule order_trans)
  have ext: "extendsAt p old new ?w0 n" using resume(2) new rows by (auto simp: extendsAt_def rowsIn_def intro: ord_mono)
  let ?stats = "\<lambda>st'. bind (gets applyStats) (\<lambda>stats.
      let ix = (case stats of None \<Rightarrow> zeroStats | Some x \<Rightarrow> x) in
      bind (modify (\<lambda>s. s\<lparr>lastApplyStats := ix\<rparr>)) (\<lambda>_.
      ret \<lparr>arSyncedTo = syncedTo st', arRoot = root st', arNoOp = False, arIndex = ix\<rparr>))"
  have fin: "wp (bind (bind (commitSegment L q SegmentOpen) (\<lambda>(c, _).
      publish L (st1\<lparr>openSeg := Some c, syncedTo := n, covered := True\<rparr>))) ?stats) (envErr L big s) Q t"
    if t: "grows L s t" "sealedOk L t st1 p (old @ new) (ord (n + 1) ?k)" "denotesSeg L t q (segOf p (old @ new) (ord (n + 1) ?k))"
    for t st1 q
    unfolding wp_bind [of "bind _ _"]
  proof (rule wp_at [OF t(1)], rule publish_apply_wp [OF L p(1) cacheOk_grows [OF t(1) ca] t(2,3) rows origin n(2,3)])
    fix u assume u: "moves L t u" "headOk L u (cur u) p (old @ new) (Some n)"
    have "Q \<lparr>arSyncedTo = syncedTo (cur u), arRoot = root (cur u), arNoOp = False, arIndex = ix\<rparr> (u\<lparr>lastApplyStats := ix\<rparr>)" for ix
    proof (rule post)
      show "moves L s (u\<lparr>lastApplyStats := ix\<rparr>)"
        by (rule moves_trans [OF moves_trans [OF grows_moves [OF t(1)] u(1)] grows_moves [OF scratch_grows(4)]])
      show "headOk L (u\<lparr>lastApplyStats := ix\<rparr>) (cur (u\<lparr>lastApplyStats := ix\<rparr>)) p (old @ new) (Some n)"
        using headOk_grows [OF scratch_grows(4) u(2)] by simp
      show "arSyncedTo \<lparr>arSyncedTo = syncedTo (cur u), arRoot = root (cur u), arNoOp = False, arIndex = ix\<rparr> = n"
        using u(2) by (simp add: headOk_def bodyOk_def)
    qed simp_all
    then show "wp (?stats (cur u)) (envErr L big s) Q u" by (simp add: Let_def)
  qed
  have loop: "wp (applyWindows L n ?w1 ?w0 (st\<lparr>root := None\<rparr>) q new) (envErr L big s)
     (\<lambda>(st1, q', rest). wp (bind (check (rest = []) (Internal ''rows outside the windows'')) (\<lambda>_.
        bind (bind (commitSegment L q' SegmentOpen) (\<lambda>(c, _).
          publish L (st1\<lparr>openSeg := Some c, syncedTo := n, covered := True\<rparr>))) ?stats)) (envErr L big s) Q) t"
    if t: "grows L s t" "denotesSeg L t q (segOf p old ?w0)" for q t
  proof -
    have all: "filter (\<lambda>r. ?w0 \<le> ord (rSlot r) ?k) new = new" using new by (auto simp: filter_id_conv intro: ord_mono)
    have sealed: "sealedOk L t (st\<lparr>root := None\<rparr>) p (old @ new) ?w0"
      using sealedOk_grows [OF t(1) sealedOk_resume [OF L ok new]] by simp
    show ?thesis
      by (rule wp_at [OF t(1)], subst all [symmetric],
          rule applyWindows_wp [OF L p(1) ext n(2) cacheOk_grows [OF t(1) ca] sealed t(2) order_refl ord_mono [OF n(1)]])
        (simp only: prod.case wp_bind [of "check _ _"] wp_simps(4) if_True simp_thms, rule fin [OF grows_trans [OF t(1)]])
  qed
  have "wp (if covered st then
        bind (openOrd L st) (\<lambda>openW.
        if openW \<noteq> ?w0 then fail (Internal ''open segment window'') else ret (Pointer (openSeg st)))
      else ret (NewNode (Some \<lparr>sSlot0 = windowStart ?w0 ?k, sRows = []\<rparr>))) (envErr L big s)
    (\<lambda>q. wp (applyWindows L n ?w1 ?w0 (st\<lparr>root := None\<rparr>) q new) (envErr L big s)
      (\<lambda>(st1, q', rest). wp (bind (check (rest = []) (Internal ''rows outside the windows'')) (\<lambda>_.
        bind (bind (commitSegment L q' SegmentOpen) (\<lambda>(c, _).
          publish L (st1\<lparr>openSeg := Some c, syncedTo := n, covered := True\<rparr>))) ?stats)) (envErr L big s) Q)) s"
    by (rule openPointer_wp [OF L ca ok refl]) (rule loop)
  then show ?thesis
    unfolding applyBody_def Let_def p(2) start by (simp add: case_prod_unfold wp_bind_fun split del: if_split)
qed

end
