(* ===== verification/ApplySpec.thy ===== *)
theory ApplySpec
  imports Apply
begin

text \<open>
  \<open>ApplyRefs\<close> against its abstract specification: a head is a list of rows and the slot it is synced to, and a batch
  either replays rows it has, extends them, or is refused.
\<close>

section \<open>Failed mutations leave the head alone\<close>

lemma publish_fail:
  assumes "lib_ok L"
  shows "failKeeps (grows L) (publish L st)"
  unfolding publish_def case_prod_unfold Let_def
  by (rule failKeeps_then) (auto intro!: failKeeps_keeps headS.store.Commit_keeps [OF assms] neverFails_intros)

lemma applyBody_fail:
  assumes L: "lib_ok L"
  shows "failKeeps (grows L) (applyBody L st rows n)"
proof -
  have p: "keeps (grows L) (if covered st then
              bind (openOrd L st) (\<lambda>openW.
              if openW \<noteq> w then fail e else ret (Pointer (openSeg st)))
            else ret q)" for w e q
    by (auto intro!: frame)
  note g = failKeeps_bind [OF grows_preorder(2)]
  show ?thesis
    unfolding applyBody_def Let_def case_prod_unfold
    by (rule g, rule p, rule g, rule frame, rule L, rule g, rule frame, rule g, rule frame, rule L,
      rule failKeeps_then, rule publish_fail, rule L) (intro neverFails_intros)
qed

lemma verifyReplay_grows [frame]: "keeps (grows L) (verifyReplay L st rows)"
  by (induction rows) (auto intro!: frame Pair_grows split: option.splits simp: case_prod_unfold)

lemma resolve_grows [frame]: "keeps (grows L) (resolveRows L cfg rows)"
proof -
  have pick: "keeps (grows L) (case r of Inl (NotFound _) \<Rightarrow> A | Inl e \<Rightarrow> fail e | Inr _ \<Rightarrow> B)"
    if "keeps (grows L) A" "keeps (grows L) B" for r :: "'b err + 'a" and A B :: "('a, 'b, 'b RefEntry list \<times> vhash list) eng"
    using that by (cases r; (cases "projl r")?) (simp_all add: grows_intros)
  have a: "keeps (grows L) (resolveVHs L rs vhs es ms)" for rs vhs es ms
  proof (induction vhs arbitrary: es ms)
    case (Cons vh vhs)
    then show ?case by (auto split: sum.splits intro!: frame keeps_attempt pick)
  qed (auto intro!: frame)
  have "keeps (grows L) (resolveLoop L rs rows out ms)" for rs out ms
    by (induction rows arbitrary: out ms) (auto intro!: frame a simp: case_prod_unfold)
  then show ?thesis unfolding resolveRows_def by (auto intro!: frame simp: case_prod_unfold split: option.splits)
qed

text \<open>An \<open>ApplyRefs\<close> that returns an error has not changed the published head; it may have written blocks.\<close>

lemma ApplyRefs_fail:
  assumes "lib_ok L"
  shows "failKeeps (grows L) (ApplyRefs L cfg rows n)"
proof -
  have d: "failKeeps (grows L) (deferred (\<lambda>s. s\<lparr>applyStats := None\<rparr>) m)" if "failKeeps (grows L) m"
    for m :: "('a, 'b, 'b ApplyResult) eng"
    using that unfolding failKeeps_def deferred_def
    by (auto split: prod.splits intro: grows_trans [OF _ scratch_grows(3)])
  note g = failKeeps_bind [OF grows_preorder(2)]
  have replay: "failKeeps (grows L) (bind (verifyReplay L st rows) (\<lambda>_. ret x))" for st and x :: "'b ApplyResult"
    by (intro failKeeps_keeps frame)
  have body: "failKeeps (grows L) (bind (modify (\<lambda>s. s\<lparr>applyStats := Some zeroStats\<rparr>)) (\<lambda>_. applyBody L st rs n))" for st rs
    by (intro g modify_grows scratch_grows applyBody_fail assms)
  have extend: "failKeeps (grows L) (bind (liftE e) (\<lambda>_. bind (resolveRows L cfg rows) (\<lambda>rs.
      deferred (\<lambda>s. s\<lparr>applyStats := None\<rparr>)
        (bind (modify (\<lambda>s. s\<lparr>applyStats := Some zeroStats\<rparr>)) (\<lambda>_. applyBody L st rs n)))))" for st and e :: "'b err + unit"
    by (intro g d body resolve_grows keeps_pure(3) grows_preorder)
  show ?thesis
    unfolding ApplyRefs_def
    by (intro g keeps_pure grows_preorder) (simp add: replay extend)
qed


section \<open>Replay\<close>

text \<open>A row of a batch agrees with the head: the stored row of its slot has the same versioned hashes in the same order.\<close>

definition matches :: "'d Row list \<Rightarrow> RefRow \<Rightarrow> bool" where
  "matches rows r \<longleftrightarrow> (case specRow rows (rrSlot r) of None \<Rightarrow> False | Some row \<Rightarrow> map eVH (rEntries row) = rrVHs r)"

lemma diffVHs_iff:
  "length es = length vhs \<Longrightarrow> diffVHs slot i es vhs = Inr () \<longleftrightarrow> map eVH es = vhs"
  by (induction slot i es vhs rule: diffVHs.induct) auto

lemma diffVHs_Inl: "diffVHs slot i es vhs = Inl e \<Longrightarrow> \<exists>j. e = Conflict (CReplayDiffers slot j)"
  by (induction slot i es vhs rule: diffVHs.induct) (auto split: if_splits)

definition replayErr :: "'d err \<Rightarrow> bool" where
  "replayErr e \<longleftrightarrow> (\<exists>slot i. e \<in> {Conflict (CReplayAbsent slot), Conflict (CReplayCount slot), Conflict (CReplayDiffers slot i)})"

lemma verifyReplay_wp:
  assumes L: "lib_ok L"
  shows "cacheOk L s \<Longrightarrow> bodyOk L s st p rows syn \<Longrightarrow> (\<forall>r\<in>set batch. specStatus p syn (rrSlot r) = StatusFound) \<Longrightarrow>
    (\<And>t. grows L s t \<Longrightarrow> (\<forall>r\<in>set batch. matches rows r) \<Longrightarrow> Q () t) \<Longrightarrow>
    wp (verifyReplay L st batch) (\<lambda>e. envErr L big s e \<or> replayErr e \<and> \<not> (\<forall>r\<in>set batch. matches rows r)) Q s"
proof (induction batch arbitrary: s)
  case (Cons r batch)
  let ?E = "\<lambda>e. envErr L big s e \<or> replayErr e \<and> \<not> (\<forall>r\<in>set (r # batch). matches rows r)"
  let ?k = "\<lambda>(res, stored). case stored of
       None \<Rightarrow> fail (Conflict (CReplayAbsent (rrSlot r)))
     | Some row \<Rightarrow>
         if resStatus res \<noteq> StatusFound then fail (Conflict (CReplayAbsent (rrSlot r)))
         else if length (rEntries row) \<noteq> length (rrVHs r) then fail (Conflict (CReplayCount (rrSlot r)))
         else bind (liftE (diffVHs (rrSlot r) 0 (rEntries row) (rrVHs r))) (\<lambda>_. verifyReplay L st batch)"
  have step: "wp (?k (plainResult StatusFound (rrSlot r), specRow rows (rrSlot r))) ?E Q t" if t: "grows L s t" for t
  proof (cases "matches rows r")
    case True
    then obtain row where row: "specRow rows (rrSlot r) = Some row" "map eVH (rEntries row) = rrVHs r"
      by (auto simp: matches_def split: option.splits)
    then have len: "length (rEntries row) = length (rrVHs r)" by (metis length_map)
    have "wp (verifyReplay L st batch) (\<lambda>e. envErr L big t e \<or> replayErr e \<and> \<not> (\<forall>r\<in>set batch. matches rows r)) Q t"
      using Cons.prems True grows_trans [OF t] by (intro Cons.IH cacheOk_grows [OF t] bodyOk_grows [OF t]) auto
    then have "wp (verifyReplay L st batch) ?E Q t" by (rule wp_mono) (auto simp: grows_env [OF t])
    with row len diffVHs_iff [OF len] show ?thesis by (simp add: plainResult_def)
  next
    case False
    show ?thesis
    proof (cases "specRow rows (rrSlot r)")
      case (Some row)
      with False have ne: "map eVH (rEntries row) \<noteq> rrVHs r" by (simp add: matches_def)
      show ?thesis
      proof (cases "diffVHs (rrSlot r) 0 (rEntries row) (rrVHs r)")
        case (Inl e)
        with diffVHs_Inl [OF Inl] Some False show ?thesis by (auto simp: plainResult_def replayErr_def wp_liftE)
      next
        case (Inr u)
        with ne diffVHs_iff [of "rEntries row" "rrVHs r" "rrSlot r" 0] have "length (rEntries row) \<noteq> length (rrVHs r)" by auto
        with Some False show ?thesis by (auto simp: plainResult_def replayErr_def)
      qed
    qed (use False in \<open>auto simp: replayErr_def\<close>)
  qed
  have "wp (lookupRow L st (rrSlot r)) (envErr L big s) (\<lambda>x. wp (?k x) ?E Q) s"
    by (rule lookupRow_wp [OF L Cons.prems(1,2)]) (use Cons.prems(3) step in simp)
  then have "wp (lookupRow L st (rrSlot r)) ?E (\<lambda>x. wp (?k x) ?E Q) s" by (rule wp_mono) auto
  then show ?case by simp
qed (simp add: wp_def)

section \<open>The abstract specification\<close>

definition shapeOk :: "Params \<Rightarrow> RefRow list \<Rightarrow> u64 \<Rightarrow> bool" where
  "shapeOk p batch n \<longleftrightarrow> pOriginSlot p \<le> n \<and> sorted_wrt (<) (map rrSlot batch) \<and>
     (\<forall>r\<in>set batch. pOriginSlot p \<le> rrSlot r \<and> rrSlot r \<le> n \<and> rrVHs r \<noteq> [] \<and>
       length (rrVHs r) \<le> MaxBlobsPerSlotCeiling)"

text \<open>What a batch does to a head of \<open>rows\<close> synced to \<open>syn\<close>: the new rows and coverage, or None if it is refused.
  \<open>avail\<close> says which versioned hashes can be resolved.\<close>

definition specApply :: "Params \<Rightarrow> 'd resolver option \<Rightarrow> (vhash \<Rightarrow> bool) \<Rightarrow> 'd Row list \<Rightarrow> u64 option \<Rightarrow> RefRow list \<Rightarrow> u64 \<Rightarrow>
    ('d Row list \<times> u64 option) option" where
  "specApply p cfg avail rows syn batch n =
     (if \<not> shapeOk p batch n then None
      else if (\<exists>x. syn = Some x \<and> n \<le> x) then (if \<forall>r\<in>set batch. matches rows r then Some (rows, syn) else None)
      else if (\<exists>x. syn = Some x \<and> (\<exists>r\<in>set batch. rrSlot r \<le> x)) then None
      else case cfg of
        None \<Rightarrow> None
      | Some rs \<Rightarrow> if \<forall>r\<in>set batch. \<forall>vh\<in>set (rrVHs r). avail vh then Some (rows @ map (rowOf rs) batch, Some n) else None)"

definition availIn :: "('b, 'd) lib \<Rightarrow> ('b, 'd) engine \<Rightarrow> 'd resolver option \<Rightarrow> vhash \<Rightarrow> bool" where
  "availIn L s cfg vh = (case cfg of None \<Rightarrow> False | Some rs \<Rightarrow> available L s rs vh)"

lemma rowOk_rowOf:
  assumes "rrVHs r \<noteq> []" "length (rrVHs r) \<le> MaxBlobsPerSlotCeiling" "\<forall>vh\<in>set (rrVHs r). available L s rs vh"
  shows "rowOk (rowOf rs r)"
  using assms by (auto simp: rowOk_def rowOf_def entryOf_def available_def)

lemma rSlot_rowOf [simp]: "rSlot (rowOf rs r) = rrSlot r"
  by (simp add: rowOf_def)

lemma rowsIn_extend:
  assumes old: "rowsOk rows" "\<forall>a\<in>set rows. pOriginSlot p \<le> rSlot a \<and> rSlot a < resume" "resume \<le> n" and shape: "shapeOk p batch n"
    and new: "\<forall>r\<in>set batch. resume \<le> rrSlot r" and av: "\<forall>r\<in>set batch. \<forall>vh\<in>set (rrVHs r). available L s rs vh"
  shows "rowsIn p (rows @ map (rowOf rs) batch) n"
proof -
  have "rSlot a < rrSlot r" if "a \<in> set rows" "r \<in> set batch" for a r
    using old(2) new that by (meson order_less_le_trans)
  moreover have "rowOk (rowOf rs r)" if "r \<in> set batch" for r
    using that shape av by (intro rowOk_rowOf [of r L s]) (auto simp: shapeOk_def)
  moreover have "rSlot a \<le> n" if "a \<in> set rows" for a
    using that old(2,3) by (meson order_less_imp_le order_trans)
  ultimately show ?thesis
    using old(1,2) shape by (auto simp: rowsIn_def rowsOk_def shapeOk_def sorted_wrt_append o_def)
qed

text \<open>Coverage resumes right after the last covered slot.\<close>

lemma resume_less:
  assumes "bodyOk L s st p rows syn"
  shows "resumeSlot p syn \<le> y \<longleftrightarrow> pOriginSlot p \<le> y \<and> (covered st \<longrightarrow> syncedTo st < y)"
    "\<forall>a\<in>set rows. pOriginSlot p \<le> rSlot a \<and> rSlot a < resumeSlot p syn" "rowsOk rows"
proof -
  have "(resumeSlot p syn \<le> y \<longleftrightarrow> pOriginSlot p \<le> y \<and> (covered st \<longrightarrow> syncedTo st < y)) \<and>
    (\<forall>a\<in>set rows. pOriginSlot p \<le> rSlot a \<and> rSlot a < resumeSlot p syn) \<and> rowsOk rows"
  proof (cases syn)
    case (Some x)
    then have x: "covered st" "syncedTo st = x" "pOriginSlot p \<le> x" "x < maxUint64" "rowsIn p rows x"
      using assms by (simp_all add: bodyOk_def)
    have lt: "x < y \<longleftrightarrow> x + 1 \<le> y" for y using x(4) by (intro u64_less_iff_Suc_le) simp
    have "rSlot a < x + 1" if "a \<in> set rows" for a
      using that x(5) lt [of "x + 1"] by (auto simp: rowsIn_def intro: order_le_less_trans)
    with x Some show ?thesis by (auto simp: resumeSlot_def rowsIn_def lt [symmetric] intro: order_trans order_less_imp_le)
  qed (use assms in \<open>auto simp: bodyOk_def resumeSlot_def rowsOk_def\<close>)
  then show "resumeSlot p syn \<le> y \<longleftrightarrow> pOriginSlot p \<le> y \<and> (covered st \<longrightarrow> syncedTo st < y)"
    "\<forall>a\<in>set rows. pOriginSlot p \<le> rSlot a \<and> rSlot a < resumeSlot p syn" "rowsOk rows" by blast+
qed

lemma ApplyRefs_extend_wp:
  assumes L: "lib_ok L" and ca: "cacheOk L s" and ok: "headOk L s (cur s) p rows syn"
    and shape: "shapeOk p batch n" and new: "resumeSlot p syn \<le> n" "\<forall>r\<in>set batch. resumeSlot p syn \<le> rrSlot r"
    and av: "\<forall>r\<in>set batch. \<forall>vh\<in>set (rrVHs r). available L s rs vh" and n: "n \<le> maxInt64" "big \<or> n < maxInt64"
    and post: "\<And>t r. moves L s t \<Longrightarrow> headOk L t (cur t) p (rows @ map (rowOf rs) batch) (Some n) \<Longrightarrow> arSyncedTo r = n \<Longrightarrow>
      arRoot r = root (cur t) \<Longrightarrow> \<not> arNoOp r \<Longrightarrow> lastApplyStats t = arIndex r \<Longrightarrow> Q r t"
  shows "wp (ApplyRefs L (Some rs) batch n) (envErr L big s) Q s"
proof -
  have body: "bodyOk L s (cur s) p rows syn" using ok by (simp add: headOk_def)
  have shape': "validateShape (cur s) batch n = Inr ()"
    using shape body by (simp add: validateShape_iff shapeOk_def bodyOk_def)
  have syn: "\<not> (covered (cur s) \<and> n \<le> syncedTo (cur s) \<and> lastSlot batch \<le> syncedTo (cur s))"
    "(if covered (cur s) then overlapCheck (cur s) 0 batch else Inr ()) = Inr ()"
    using new by (auto simp: resume_less(1) [OF body] overlapCheck_iff)
  note rows = rowsIn_extend [OF resume_less(3) [OF body] resume_less(2) [OF body] new(1) shape new(2) av]
  let ?t = "s\<lparr>applyStats := Some zeroStats\<rparr>"
  have t: "grows L s ?t" by (rule scratch_grows)
  have "wp (applyBody L (cur s) (map (rowOf rs) batch) n) (envErr L big s) (\<lambda>r t. Q r (t\<lparr>applyStats := None\<rparr>)) ?t"
  proof (rule wp_at [OF t], rule applyBody_wp [OF L cacheOk_grows [OF t ca] bodyOk_grows [OF t body] _ rows new(1) n])
    fix u and r :: "'b ApplyResult"
    assume u: "moves L ?t u" "headOk L u (cur u) p (rows @ map (rowOf rs) batch) (Some n)" "arSyncedTo r = n" "arRoot r = root (cur u)"
      "\<not> arNoOp r" "lastApplyStats u = arIndex r"
    show "Q r (u\<lparr>applyStats := None\<rparr>)"
      using u headOk_grows [OF scratch_grows(3) u(2)]
      by (intro post moves_trans [OF grows_moves [OF t]] moves_trans [OF u(1) grows_moves [OF scratch_grows(3)]]) simp_all
  qed (use new(2) in simp)
  then have "wp (resolveRows L (Some rs) batch) (envErr L big s) (\<lambda>resolved. wp (deferred (\<lambda>s. s\<lparr>applyStats := None\<rparr>)
      (bind (modify (\<lambda>s. s\<lparr>applyStats := Some zeroStats\<rparr>)) (\<lambda>_. applyBody L (cur s) resolved n))) (envErr L big s) Q) s"
    by (intro resolveRows_wp [OF av]) (simp add: wp_deferred)
  then show ?thesis by (simp only: ApplyRefs_def wp_bind wp_gets shape' wp_liftE_Inr syn simp_thms if_False)
qed

lemma ApplyRefs_replay_wp:
  assumes L: "lib_ok L" and ca: "cacheOk L s" and ok: "headOk L s (cur s) p rows (Some x)"
    and shape: "shapeOk p batch n" and n: "n \<le> x"
    and post: "\<And>t r. grows L s t \<Longrightarrow> \<forall>r\<in>set batch. matches rows r \<Longrightarrow> r = \<lparr>arSyncedTo = x, arRoot = root (cur s), arNoOp = True, arIndex = zeroStats\<rparr> \<Longrightarrow> Q r t"
  shows "wp (ApplyRefs L cfg batch n) (\<lambda>e. envErr L big s e \<or> replayErr e \<and> \<not> (\<forall>r\<in>set batch. matches rows r)) Q s"
proof -
  have body: "bodyOk L s (cur s) p rows (Some x)" using ok by (simp add: headOk_def)
  have shape': "validateShape (cur s) batch n = Inr ()"
    using shape body by (simp add: validateShape_iff shapeOk_def bodyOk_def)
  have le: "rrSlot r \<le> x" if "r \<in> set batch" for r using shape n that by (auto simp: shapeOk_def)
  have "lastSlot batch \<le> x" using le lastSlot_mem [of batch] by (cases "batch = []") (auto simp: lastSlot_def)
  then have syn: "covered (cur s) \<and> n \<le> syncedTo (cur s) \<and> lastSlot batch \<le> syncedTo (cur s)" and x: "syncedTo (cur s) = x"
    using body n by (simp_all add: bodyOk_def)
  have "\<forall>r\<in>set batch. specStatus p (Some x) (rrSlot r) = StatusFound"
    using le shape by (auto simp: specStatus_def shapeOk_def dest: leD)
  then have "wp (verifyReplay L (cur s) batch) (\<lambda>e. envErr L big s e \<or> replayErr e \<and> \<not> (\<forall>r\<in>set batch. matches rows r))
    (\<lambda>_. Q \<lparr>arSyncedTo = x, arRoot = root (cur s), arNoOp = True, arIndex = zeroStats\<rparr>) s"
    by (rule verifyReplay_wp [OF L ca body]) (simp add: post)
  with syn x shape' show ?thesis by (simp add: ApplyRefs_def wp_bind_fun)
qed

lemma validateShape_shapeOk: "bodyOk L s st p rows syn \<Longrightarrow> validateShape st batch n = Inr () \<longleftrightarrow> shapeOk p batch n"
  by (simp add: validateShape_iff shapeOk_def bodyOk_def)

lemma ApplyRefs_wp:
  assumes L: "lib_ok L" and ca: "cacheOk L s" and ok: "headOk L s (cur s) p rows syn" and n: "n \<le> maxInt64" "big \<or> n < maxInt64"
    and spec_def: "spec = specApply p cfg (availIn L s cfg) rows syn batch n"
  shows "wp (ApplyRefs L cfg batch n) (\<lambda>e. envErr L big s e \<or> spec = None)
    (\<lambda>r t. moves L s t \<and> (\<exists>rows' syn'. spec = Some (rows', syn') \<and> headOk L t (cur t) p rows' syn' \<and>
       arRoot r = root (cur t) \<and> syn' = Some (arSyncedTo r) \<and> (arNoOp r \<longleftrightarrow> (\<exists>x. syn = Some x \<and> n \<le> x)))) s"
    (is "wp _ ?E ?Q s")
proof -
  have body: "bodyOk L s (cur s) p rows syn" using ok by (simp add: headOk_def)
  have cov: "syn = (if covered (cur s) then Some (syncedTo (cur s)) else None)"
    using body by (auto simp: bodyOk_def split: option.splits)
  have origin: "pOriginSlot p \<le> rrSlot r" "pOriginSlot p \<le> n" if "shapeOk p batch n" "r \<in> set batch" for r
    using that by (auto simp: shapeOk_def)
  consider (bad) "\<not> shapeOk p batch n" | (replay) x where "syn = Some x" "n \<le> x" "shapeOk p batch n"
    | (overlap) "shapeOk p batch n" "\<not> (\<exists>x. syn = Some x \<and> n \<le> x)" "\<not> (\<forall>r\<in>set batch. resumeSlot p syn \<le> rrSlot r)"
    | (extend) "shapeOk p batch n" "\<not> (\<exists>x. syn = Some x \<and> n \<le> x)" "\<forall>r\<in>set batch. resumeSlot p syn \<le> rrSlot r"
    by blast
  then show ?thesis
  proof cases
    case bad
    then obtain e where "validateShape (cur s) batch n = Inl e"
      using validateShape_shapeOk [OF body, of batch n] by (cases "validateShape (cur s) batch n") auto
    with bad show ?thesis by (simp add: ApplyRefs_def wp_liftE spec_def specApply_def)
  next
    case replay
    have "spec = (if \<forall>r\<in>set batch. matches rows r then Some (rows, syn) else None)"
      using replay by (auto simp: spec_def specApply_def)
    then show ?thesis
      using replay(1,2) headOk_grows [OF _ ok]
      by (intro wp_mono [OF ApplyRefs_replay_wp [OF L ca ok [unfolded replay(1)] replay(3,2), of ?Q cfg big]])
        (auto simp: grows_moves grows_cur)
  next
    case overlap
    then obtain r x where r: "r \<in> set batch" "covered (cur s)" "syncedTo (cur s) = x" "\<not> x < rrSlot r" "syn = Some x" "x < n"
      using cov origin [OF overlap(1)] unfolding resume_less(1) [OF body] by (auto split: if_splits)
    then have "spec = None" using overlap by (auto simp: spec_def specApply_def not_less)
    moreover obtain e where "overlapCheck (cur s) 0 batch = Inl e"
      using r overlapCheck_iff [of "cur s" 0 batch] by (cases "overlapCheck (cur s) 0 batch") auto
    moreover have "\<not> n \<le> x" using r(6) by (simp add: not_le)
    ultimately show ?thesis using r validateShape_shapeOk [OF body, of batch n] overlap(1)
      by (simp add: ApplyRefs_def wp_liftE)
  next
    case extend
    then have n0: "resumeSlot p syn \<le> n" using cov
      unfolding resume_less(1) [OF body] by (auto simp: shapeOk_def not_le split: if_splits)
    have no: "\<not> (\<exists>x. syn = Some x \<and> (\<exists>r\<in>set batch. rrSlot r \<le> x))"
      using extend(3) cov unfolding resume_less(1) [OF body] by (auto dest: leD split: if_splits)
    show ?thesis
    proof (cases "\<exists>rs. cfg = Some rs \<and> (\<forall>r\<in>set batch. \<forall>vh\<in>set (rrVHs r). available L s rs vh)")
      case True
      then obtain rs where rs: "cfg = Some rs" "\<forall>r\<in>set batch. \<forall>vh\<in>set (rrVHs r). available L s rs vh" by blast
      then have sp: "spec = Some (rows @ map (rowOf rs) batch, Some n)" using extend no by (auto simp: spec_def specApply_def availIn_def)
      have "wp (ApplyRefs L (Some rs) batch n) (envErr L big s) ?Q s"
        by (rule ApplyRefs_extend_wp [OF L ca ok extend(1) n0 extend(3) rs(2) n]) (use sp extend(2) in auto)
      then show ?thesis unfolding rs(1) by (rule wp_mono) auto
    next
      case False
      then have "spec = None" using extend no by (auto simp: spec_def specApply_def availIn_def split: option.splits)
      obtain e t where "resolveRows L cfg batch s = (Inl e, t)"
        using False by (cases "resolveRows L cfg batch s"; cases "fst (resolveRows L cfg batch s)") (auto elim: resolveRows_Inr)
      then have "wp (resolveRows L cfg batch) ?E Q s" for Q using \<open>spec = None\<close> by (simp add: wp_def)
      moreover have "covered (cur s) \<longrightarrow> syncedTo (cur s) < n" "(if covered (cur s) then overlapCheck (cur s) 0 batch else Inr ()) = Inr ()"
        using n0 extend(3) by (auto simp: resume_less(1) [OF body] overlapCheck_iff)
      ultimately show ?thesis
        using validateShape_shapeOk [OF body, of batch n] extend(1) by (auto simp: ApplyRefs_def dest: leD)
    qed
  qed
qed

section \<open>Slots the encoding cannot hold\<close>

lemma publish_Inr:
  assumes "publish L st s = (Inr st', t)"
  shows "\<exists>b c. EncodeHead L (headObject st) = Inr (b, c)"
proof -
  obtain c q u where "Commit (heads L) (NewNode (Some (headObject st))) s = (Inr (c, q), u)"
    using assms by (auto simp: publish_def bind_Inr_iff Let_def)
  then show ?thesis
    by (auto simp: Commit_def NewNode_def PutNode_def heads_def bind_Inr_iff dest: encode_result(3))
qed

lemma applyBody_Inr:
  assumes "applyBody L st rows n s = (Inr r, t)"
  shows "n \<le> maxInt64"
proof -
  obtain st1 c u st' v where "publish L (st1\<lparr>openSeg := Some c, syncedTo := n, covered := True\<rparr>) u = (Inr st', v)"
    using assms by (auto simp: applyBody_def bind_Inr_iff Let_def split: prod.splits)
  from publish_Inr [OF this] show ?thesis by (auto simp: headObject_def dest: EncodeHead_Inr)
qed

end
