(* ===== verification/Truncate.thy ===== *)
theory Truncate
  imports ApplySpec
begin

text \<open>
  Rewinding a head, \<open>archive/truncate.go\<close>: \<open>Truncate\<close>, \<open>TruncateRetainingWindow\<close> with the blob checks it makes before
  the shorter root becomes visible, and \<open>TruncateToEmpty\<close>; and \<open>archive/generation.go\<close>, which builds a head from a
  snapshot. A truncated head is the head of the rows that remain.
\<close>

section \<open>The source's functions\<close>

primrec copyRowsUpTo :: "'d Row list \<Rightarrow> u64 \<Rightarrow> 'd Row list" where
  "copyRowsUpTo [] maxSlot = []"
| "copyRowsUpTo (r # rows) maxSlot = (if maxSlot < rSlot r then [] else r # copyRowsUpTo rows maxSlot)"

definition firstRetainedWindow :: "'d state \<Rightarrow> u64 \<Rightarrow> u64" where
  "firstRetainedWindow st windowSlots =
     (let low = (if windowSlots < syncedTo st then syncedTo st - windowSlots else 0);
          low' = (if low < pOriginSlot (params st) then pOriginSlot (params st) else low)
      in ord low' (pSegBits (params st)))"

definition blobLinks :: "'d Row list \<Rightarrow> 'd link list" where
  "blobLinks rows = concat (map (\<lambda>r. map eBlob (rEntries r)) rows)"

text \<open>The two loops over blob links. \<open>seen\<close> holds the multihashes already read.\<close>

primrec touchTruncatedLoop :: "('b, 'd) lib \<Rightarrow> 'd mhash list \<Rightarrow> 'd link list \<Rightarrow> ('b, 'd, unit) eng" where
  "touchTruncatedLoop L seen [] = ret ()"
| "touchTruncatedLoop L seen (blob # blobs) = (case blob of
     None \<Rightarrow> touchTruncatedLoop L seen blobs
   | Some c \<Rightarrow>
       if cidCodec c \<noteq> codecRaw then fail (BadPrefix ''surviving blob'')
       else if cidHash c \<in> set seen then touchTruncatedLoop L seen blobs
       else bind (blocksGet L c) (\<lambda>_. touchTruncatedLoop L (cidHash c # seen) blobs))"

definition touchTruncatedBlobs :: "('b, 'd) lib \<Rightarrow> 'd Row list \<Rightarrow> ('b, 'd, unit) eng" where
  "touchTruncatedBlobs L rows = touchTruncatedLoop L [] (blobLinks rows)"

primrec touchRetainedLoop :: "('b, 'd) lib \<Rightarrow> 'd mhash list \<Rightarrow> 'd link list \<Rightarrow> ('b, 'd, 'd mhash list) eng" where
  "touchRetainedLoop L seen [] = ret seen"
| "touchRetainedLoop L seen (blob # blobs) = (case blob of
     None \<Rightarrow> fail (BadPrefix ''newly retained blob'')
   | Some c \<Rightarrow>
       if cidCodec c \<noteq> codecRaw then fail (BadPrefix ''newly retained blob'')
       else if cidHash c \<in> set seen then touchRetainedLoop L seen blobs
       else bind (blocksGet L c) (\<lambda>_. touchRetainedLoop L (cidHash c # seen) blobs))"

lemma window_step:
  assumes "w \<noteq> lastW"
  shows "unat (lastW - (w + 1)) < unat (lastW - w :: u64)"
proof -
  have "1 \<le> lastW - w" using assms by (simp add: word_le_nat_alt Suc_le_eq unat_gt_0)
  then have "unat (lastW - w - 1) = unat (lastW - w) - 1" by (simp add: unat_sub_u64)
  with \<open>1 \<le> lastW - w\<close> show ?thesis by (simp add: diff_diff_eq word_le_nat_alt)
qed

function touchWindows :: "('b, 'd) lib \<Rightarrow> 'd state \<Rightarrow> u64 \<Rightarrow> u64 \<Rightarrow> 'd mhash list \<Rightarrow> ('b, 'd) engine \<Rightarrow>
    ('d err + unit) \<times> ('b, 'd) engine" where
  "touchWindows L st lastW w seen s =
     bind (segmentFor L st w) (\<lambda>segmentCID.
     bind (if segmentCID = None then ret seen
           else bind (GetNode (segs L) segmentCID) (\<lambda>segment. touchRetainedLoop L seen (blobLinks (sRows segment)))) (\<lambda>seen'.
     if w = lastW then ret () else touchWindows L st lastW (w + 1) seen')) s"
  by pat_completeness auto
termination
  by (relation "measure (\<lambda>(L, st, lastW, w, seen, s). unat (lastW - w))") (simp_all add: window_step)

declare touchWindows.simps [simp del]

definition touchNewlyRetainedWindow :: "('b, 'd) lib \<Rightarrow> 'd state \<Rightarrow> 'd state \<Rightarrow> u64 \<Rightarrow> ('b, 'd, unit) eng" where
  "touchNewlyRetainedWindow L old next' windowSlots =
     (let oldFirst = firstRetainedWindow old windowSlots;
          newFirst = firstRetainedWindow next' windowSlots in
      if oldFirst \<le> newFirst \<or> oldFirst = 0 then ret ()
      else let end' = ord (syncedTo next') (pSegBits (params next'));
               lastW = (if end' < oldFirst - 1 then end' else oldFirst - 1) in
        if lastW < newFirst then ret () else touchWindows L next' lastW newFirst [])"

definition truncate :: "('b, 'd) lib \<Rightarrow> u64 \<Rightarrow> u64 \<Rightarrow> bool \<Rightarrow> ('b, 'd, 'd link) eng" where
  "truncate L slot windowSlots retainWindow =
     bind (gets cur) (\<lambda>st.
     let k = pSegBits (params st) in
     if \<not> covered st then fail (Conflict CTruncateEmpty)
     else if syncedTo st < slot then fail (Conflict CTruncatePastSynced)
     else if slot < pOriginSlot (params st) then fail (Conflict CTruncateBeforeOrigin)
     else
       let t = ord slot k in
       bind (openOrd L st) (\<lambda>openW.
       bind (segmentFor L st t) (\<lambda>segCID.
       bind (if segCID = None then ret []
             else bind (GetNode (segs L) segCID) (\<lambda>seg.
               let rows = copyRowsUpTo (sRows seg) slot in
               bind (if retainWindow then touchTruncatedBlobs L rows else ret ()) (\<lambda>_. ret rows))) (\<lambda>rows.
       let next0 = st\<lparr>root := None\<rparr>; n = t - dirBase st in
       bind (if t = openW then ret next0
             else if n = 0 then ret (next0\<lparr>dir := None, dirDepth := 0\<rparr>)
             else case pathDigits n (dirDepth st) (pFanoutBits (params st)) of
               None \<Rightarrow> fail (Internal ''sealed count does not fit'')
             | Some digits \<Rightarrow>
                 bind (bind (dirTruncate L (dir st) digits) (\<lambda>d1. dirShrink L d1 (dirDepth st))) (\<lambda>(d2, depth2).
                 ret (next0\<lparr>dir := d2, dirDepth := depth2\<rparr>))) (\<lambda>next1.
       bind (if windowEnd t k \<le> slot then seal L next1 (NewNode (Some \<lparr>sSlot0 = windowStart t k, sRows = rows\<rparr>)) t
             else ret (next1, NewNode (Some \<lparr>sSlot0 = windowStart t k, sRows = rows\<rparr>))) (\<lambda>(next2, open').
       bind (commitSegment L open' SegmentOpen) (\<lambda>(c, _).
       bind (if retainWindow
             then touchNewlyRetainedWindow L st (next2\<lparr>openSeg := Some c, syncedTo := slot, covered := True\<rparr>) windowSlots
             else ret ()) (\<lambda>_.
       bind (publish L (next2\<lparr>openSeg := Some c, syncedTo := slot, covered := True\<rparr>)) (\<lambda>st'.
       ret (root st'))))))))))"

definition Truncate :: "('b, 'd) lib \<Rightarrow> u64 \<Rightarrow> ('b, 'd, 'd link) eng" where
  "Truncate L slot = truncate L slot 0 False"

definition TruncateRetainingWindow :: "('b, 'd) lib \<Rightarrow> u64 \<Rightarrow> u64 \<Rightarrow> ('b, 'd, 'd link) eng" where
  "TruncateRetainingWindow L slot windowSlots = truncate L slot windowSlots True"

definition TruncateToEmpty :: "('b, 'd) lib \<Rightarrow> ('b, 'd, 'd link) eng" where
  "TruncateToEmpty L = bind (gets cur) (\<lambda>st. bind (publish L (emptyState (params st))) (\<lambda>st'. ret (root st')))"

text \<open>\<open>BuildGeneration\<close> runs in the engine \<open>New\<close> starts from.\<close>

definition BuildGeneration :: "('b, 'd) lib \<Rightarrow> 'd resolver option \<Rightarrow> Params \<Rightarrow> RefRow list \<Rightarrow> u64 \<Rightarrow> ('b, 'd, unit) eng" where
  "BuildGeneration L cfg p rows n =
     bind (liftE (validateShape (emptyState p) rows n)) (\<lambda>_.
     bind (New L p) (\<lambda>_.
     bind (ApplyRefs L cfg rows n) (\<lambda>_. ret ())))"

section \<open>The rows that remain\<close>

abbreviation upTo :: "u64 \<Rightarrow> 'd Row list \<Rightarrow> 'd Row list" where
  "upTo slot rows \<equiv> filter (\<lambda>r. rSlot r \<le> slot) rows"

lemma copyRowsUpTo_filter: "sorted_wrt (<) (map rSlot rows) \<Longrightarrow> copyRowsUpTo rows slot = upTo slot rows"
proof (induction rows)
  case (Cons r rows)
  show ?case
  proof (cases "slot < rSlot r")
    case True
    then have "\<forall>x\<in>set rows. \<not> rSlot x \<le> slot" using Cons.prems by (auto simp: not_le)
    with True show ?thesis by (simp add: not_le [symmetric] filter_empty_conv)
  qed (use Cons in \<open>simp add: not_less\<close>)
qed simp

lemma winRows_upTo: "winRows k w (upTo slot rows) = upTo slot (winRows k w rows)"
  by (simp add: winRows_def conj_commute)

lemma winRows_upTo_below:
  assumes "v < ord slot k"
  shows "winRows k v (upTo slot rows) = winRows k v rows"
proof -
  have "rSlot r \<le> slot" if "ord (rSlot r) k = v" for r :: "'a Row"
    using ord_mono [of slot "rSlot r" k] assms that by (cases "slot \<le> rSlot r") auto
  then show ?thesis unfolding winRows_upTo winRows_def filter_filter by (intro filter_cong) auto
qed

lemma winRows_upTo_above: "ord slot k < v \<Longrightarrow> winRows k v (upTo slot rows) = []"
  by (rule winRows_empty) (auto dest: ord_mono [of _ slot k])

lemma rowsIn_upTo: "rowsIn p rows x \<Longrightarrow> rowsIn p (upTo slot rows) slot"
  by (auto simp: rowsIn_def rowsOk_def sorted_wrt_map sorted_wrt_filter)

section \<open>The blob checks\<close>

text \<open>Some validated block of a multihash is stored; a blob link is raw and its block is stored.\<close>

definition hashHeld :: "('b, 'd) lib \<Rightarrow> ('b, 'd) engine \<Rightarrow> 'd mhash \<Rightarrow> bool" where
  "hashHeld L s h \<longleftrightarrow> (\<exists>c b. cidHash c = h \<and> held L s c b)"

definition blobHeld :: "('b, 'd) lib \<Rightarrow> ('b, 'd) engine \<Rightarrow> 'd link \<Rightarrow> bool" where
  "blobHeld L s l \<longleftrightarrow> (\<exists>c b. l = Some c \<and> cidCodec c = codecRaw \<and> held L s c b)"

definition touched :: "('b, 'd) lib \<Rightarrow> ('b, 'd) engine \<Rightarrow> 'd link list \<Rightarrow> bool" where
  "touched L s blobs \<longleftrightarrow> (\<forall>c. Some c \<in> set blobs \<longrightarrow> cidCodec c = codecRaw \<and> hashHeld L s (cidHash c))"

lemma touched_simps [simp]:
  "touched L s []" "touched L s (None # bs) = touched L s bs"
  "touched L s (Some c # bs) \<longleftrightarrow> cidCodec c = codecRaw \<and> hashHeld L s (cidHash c) \<and> touched L s bs"
  "touched L s (bs @ cs) \<longleftrightarrow> touched L s bs \<and> touched L s cs"
  by (auto simp: touched_def)

lemma touched_moves: "moves L s t \<Longrightarrow> touched L s bs \<Longrightarrow> touched L t bs"
  unfolding touched_def hashHeld_def using moves_held by fast

lemma hashHeldI: "held L s c b \<Longrightarrow> hashHeld L s (cidHash c)"
  by (auto simp: hashHeld_def)

lemma blobHeld_Some: "blobHeld L s (Some c) \<longleftrightarrow> cidCodec c = codecRaw \<and> (\<exists>b. held L s c b)"
  by (simp add: blobHeld_def)

lemma blobHeld_grows: "grows L s t \<Longrightarrow> blobHeld L s l \<Longrightarrow> blobHeld L t l"
  by (auto simp: blobHeld_def intro: grows_held)

lemma blocksGet_touch:
  "wp (blocksGet L c) (\<lambda>e. envErr L big s e \<or> \<not> (\<exists>b. held L s c b)) (\<lambda>b t. t = s \<and> held L s c b) s"
proof (cases "\<exists>b. held L s c b")
  case True
  then obtain b where "held L s c b" by blast
  from blocksGet_wp [OF this, of big] show ?thesis by (rule wp_mono) (auto intro: \<open>held L s c b\<close>)
next
  case False
  then show ?thesis using blocksGet_held [of L c s] blocksGet_same [of L c s]
    by (auto simp: wp_def split: prod.splits sum.splits)
qed

lemma touchTruncatedLoop_wp:
  "\<forall>h\<in>set seen. hashHeld L s h \<Longrightarrow> (touched L s blobs \<Longrightarrow> Q () s) \<Longrightarrow>
    wp (touchTruncatedLoop L seen blobs) (\<lambda>e. envErr L big s e \<or> \<not> (\<forall>l\<in>set blobs. blobHeld L s l)) Q s"
proof (induction blobs arbitrary: seen)
  case (Cons l blobs)
  let ?E = "\<lambda>e. envErr L big s e \<or> \<not> (\<forall>l\<in>set (l # blobs). blobHeld L s l)"
  have IH: "wp (touchTruncatedLoop L seen' blobs) ?E Q s"
    if "\<forall>h\<in>set seen'. hashHeld L s h" "touched L s blobs \<Longrightarrow> Q () s" for seen'
    by (rule wp_mono [OF Cons.IH [OF that]]) auto
  show ?case
  proof (cases l)
    case (Some c)
    have get: "wp (blocksGet L c) ?E (\<lambda>_. wp (touchTruncatedLoop L (cidHash c # seen) blobs) ?E Q) s" if raw: "cidCodec c = codecRaw"
    proof (rule wp_mono [OF blocksGet_touch])
      fix b t assume b: "t = s \<and> held L s c b"
      then have "hashHeld L s (cidHash c)" by (auto intro: hashHeldI)
      with b show "wp (touchTruncatedLoop L (cidHash c # seen) blobs) ?E Q t"
        using Cons.prems raw Some IH [of "cidHash c # seen"] by simp
    qed (auto simp: Some blobHeld_Some)
    show ?thesis using get IH [OF Cons.prems(1)] Cons.prems Some by (auto simp: blobHeld_Some)
  qed (use IH Cons.prems in simp)
qed (simp add: wp_def)

lemma touchRetainedLoop_wp:
  "\<forall>h\<in>set seen. hashHeld L s h \<Longrightarrow> (\<And>seen'. touched L s blobs \<Longrightarrow> \<forall>h\<in>set seen'. hashHeld L s h \<Longrightarrow> Q seen' s) \<Longrightarrow>
    wp (touchRetainedLoop L seen blobs) (\<lambda>e. envErr L big s e \<or> \<not> (\<forall>l\<in>set blobs. blobHeld L s l)) Q s"
proof (induction blobs arbitrary: seen)
  case (Cons l blobs)
  let ?E = "\<lambda>e. envErr L big s e \<or> \<not> (\<forall>l\<in>set (l # blobs). blobHeld L s l)"
  have IH: "wp (touchRetainedLoop L seen' blobs) ?E Q s"
    if "\<forall>h\<in>set seen'. hashHeld L s h" "\<And>seen'. touched L s blobs \<Longrightarrow> \<forall>h\<in>set seen'. hashHeld L s h \<Longrightarrow> Q seen' s" for seen'
    by (rule wp_mono [OF Cons.IH [OF that]]) auto
  show ?case
  proof (cases l)
    case (Some c)
    have get: "wp (blocksGet L c) ?E (\<lambda>_. wp (touchRetainedLoop L (cidHash c # seen) blobs) ?E Q) s" if raw: "cidCodec c = codecRaw"
    proof (rule wp_mono [OF blocksGet_touch])
      fix b t assume b: "t = s \<and> held L s c b"
      then have "hashHeld L s (cidHash c)" by (auto intro: hashHeldI)
      with b show "wp (touchRetainedLoop L (cidHash c # seen) blobs) ?E Q t"
        using Cons.prems raw Some IH [of "cidHash c # seen"] by simp
    qed (auto simp: Some blobHeld_Some)
    show ?thesis using get IH [OF Cons.prems(1)] Cons.prems Some by (auto simp: blobHeld_Some)
  qed (simp add: blobHeld_def wp_def)
qed (simp add: wp_def)

text \<open>Every blob a list of rows refers to is stored under a raw CID.\<close>

definition blobsHeld :: "('b, 'd) lib \<Rightarrow> ('b, 'd) engine \<Rightarrow> 'd Row list \<Rightarrow> bool" where
  "blobsHeld L s rows \<longleftrightarrow> (\<forall>l\<in>set (blobLinks rows). blobHeld L s l)"

lemma blobsHeld_grows: "grows L s t \<Longrightarrow> blobsHeld L s rows \<Longrightarrow> blobsHeld L t rows"
  by (auto simp: blobsHeld_def intro: blobHeld_grows)

lemma blobsHeld_mono: "set rows' \<subseteq> set rows \<Longrightarrow> blobsHeld L s rows \<Longrightarrow> blobsHeld L s rows'"
  by (auto simp: blobsHeld_def blobLinks_def)

lemma wp_at_blobs:
  assumes "grows L s t" "wp m (\<lambda>e. envErr L big t e \<or> \<not> blobsHeld L t rows) Q t"
  shows "wp m (\<lambda>e. envErr L big s e \<or> \<not> blobsHeld L s rows) Q t"
  by (rule wp_mono [OF assms(2)]) (use grows_env [OF assms(1)] blobsHeld_grows [OF assms(1)] in auto)

lemma touchWindows_unfold:
  "touchWindows L st lastW w seen =
     bind (segmentFor L st w) (\<lambda>segmentCID.
     bind (if segmentCID = None then ret seen
           else bind (GetNode (segs L) segmentCID) (\<lambda>segment. touchRetainedLoop L seen (blobLinks (sRows segment)))) (\<lambda>seen'.
     if w = lastW then ret () else touchWindows L st lastW (w + 1) seen'))"
  by (rule ext) (rule touchWindows.simps)

lemma touchSegment_wp:
  assumes L: "lib_ok L" and ca: "cacheOk L s" and ok: "bodyOk L s st p rows (Some x)"
    and w: "baseOf p \<le> w" "w \<le> ord (x + 1) (pSegBits p)" and seen: "\<forall>h\<in>set seen. hashHeld L s h"
    and post: "\<And>t seen'. grows L s t \<Longrightarrow> touched L t (blobLinks (winRows (pSegBits p) w rows)) \<Longrightarrow>
      \<forall>h\<in>set seen'. hashHeld L t h \<Longrightarrow> Q seen' t"
  shows "wp (bind (segmentFor L st w) (\<lambda>segmentCID. if segmentCID = None then ret seen
      else bind (GetNode (segs L) segmentCID) (\<lambda>segment. touchRetainedLoop L seen (blobLinks (sRows segment)))))
    (\<lambda>e. envErr L big s e \<or> \<not> blobsHeld L s rows) Q s"
proof -
  let ?E = "\<lambda>e. envErr L big s e \<or> \<not> blobsHeld L s rows" and ?seg = "segOf p rows w"
  let ?read = "\<lambda>segmentCID. if segmentCID = None then ret seen
      else bind (GetNode (segs L) segmentCID) (\<lambda>segment. touchRetainedLoop L seen (blobLinks (sRows segment)))"
  have seen': "\<forall>h\<in>set seen. hashHeld L t h" if "grows L s t" for t
    using seen that unfolding hashHeld_def by (meson grows_held)
  have sub: "set (blobLinks (winRows (pSegBits p) w rows)) \<subseteq> set (blobLinks rows)" by (auto simp: blobLinks_def winRows_def)
  have touch: "wp (touchRetainedLoop L seen (blobLinks (sRows ?seg))) ?E Q u" if u: "grows L s u" for u
    by (rule wp_at_blobs [OF u], rule wp_mono [OF touchRetainedLoop_wp [OF seen' [OF u]]])
      (use post [OF u] sub in \<open>auto simp: segOf_def blobsHeld_def\<close>)
  have "wp (segmentFor L st w) (envErr L big s) (\<lambda>c. wp (?read c) ?E Q) s"
  proof (rule segmentFor_wp [OF L ca ok w])
    fix t assume "grows L s t" "winRows (pSegBits p) w rows = []"
    with post [of t seen] seen' show "wp (?read None) ?E Q t" by (simp add: blobLinks_def)
  next
    fix t assume t: "grows L s t" "segStored L t ?seg"
    have "wp (GetNode (segs L) (segCid L ?seg)) (envErr L big t) (\<lambda>segment. wp (touchRetainedLoop L seen (blobLinks (sRows segment))) ?E Q) t"
      by (rule getSegment_wp [OF L cacheOk_grows [OF t(1) ca] t(2) refl]) (rule touch [OF grows_trans [OF t(1)]])
    then have "wp (GetNode (segs L) (segCid L ?seg)) ?E (\<lambda>segment. wp (touchRetainedLoop L seen (blobLinks (sRows segment))) ?E Q) t"
      by (rule wp_mono) (auto simp: grows_env [OF t(1)])
    with segCid_Some [OF t(2)] show "wp (?read (segCid L ?seg)) ?E Q t" by (auto simp: wp_bind_fun)
  qed
  then show ?thesis unfolding wp_bind by (rule wp_mono) auto
qed

lemma touchWindows_wp:
  assumes L: "lib_ok L"
  shows "cacheOk L s \<Longrightarrow> bodyOk L s st p rows (Some x) \<Longrightarrow> baseOf p \<le> w \<Longrightarrow> w \<le> lastW \<Longrightarrow> lastW \<le> ord x (pSegBits p) \<Longrightarrow>
    \<forall>h\<in>set seen. hashHeld L s h \<Longrightarrow>
    (\<And>t. grows L s t \<Longrightarrow> (\<forall>v. w \<le> v \<and> v \<le> lastW \<longrightarrow> touched L t (blobLinks (winRows (pSegBits p) v rows))) \<Longrightarrow> Q () t) \<Longrightarrow>
    wp (touchWindows L st lastW w seen) (\<lambda>e. envErr L big s e \<or> \<not> blobsHeld L s rows) Q s"
proof (induction "unat (lastW - w)" arbitrary: s w seen rule: less_induct)
  case less
  let ?E = "\<lambda>e. envErr L big s e \<or> \<not> blobsHeld L s rows"
  have xm: "x < maxUint64" using less.prems(2) by (simp add: bodyOk_def)
  have top: "w \<le> ord (x + 1) (pSegBits p)"
    using less.prems(4,5) ord_mono [OF resume_le [OF xm], of "pSegBits p"] by simp
  have "wp (if w = lastW then ret () else touchWindows L st lastW (w + 1) seen') ?E Q t"
    if t: "grows L s t" "touched L t (blobLinks (winRows (pSegBits p) w rows))" "\<forall>h\<in>set seen'. hashHeld L t h" for t seen'
  proof (cases "w = lastW")
    case True
    with less.prems(7) [OF t(1)] t(2) show ?thesis by (simp add: order_antisym_conv) (metis order_antisym)
  next
    case False
    then have lt: "w < lastW" using less.prems(4) by simp
    then have wmax: "w \<noteq> maxUint64" using u64_less_eq_max [of lastW] by (metis leD)
    have "wp (touchWindows L st lastW (w + 1) seen') (\<lambda>e. envErr L big t e \<or> \<not> blobsHeld L t rows) Q t"
    proof (rule less.hyps [OF window_step [OF False] cacheOk_grows [OF t(1) less.prems(1)] bodyOk_grows [OF t(1) less.prems(2)] _ _ less.prems(5) t(3)])
      show "baseOf p \<le> w + 1" using less.prems(3) u64_less_iff_Suc_le [OF wmax, of "w + 1"] by simp
      show "w + 1 \<le> lastW" using lt u64_less_iff_Suc_le [OF wmax] by simp
      fix u assume u: "grows L t u" "\<forall>v. w + 1 \<le> v \<and> v \<le> lastW \<longrightarrow> touched L u (blobLinks (winRows (pSegBits p) v rows))"
      show "Q () u"
      proof (rule less.prems(7) [OF grows_trans [OF t(1) u(1)]], intro allI impI)
        fix v assume v: "w \<le> v \<and> v \<le> lastW"
        show "touched L u (blobLinks (winRows (pSegBits p) v rows))"
          using u t(2) v touched_moves [OF grows_moves [OF u(1)]] u64_less_iff_Suc_le [OF wmax, of v] by (cases "w = v") auto
      qed
    qed
    with False show ?thesis using wp_at_blobs [OF t(1)] by simp
  qed
  from touchSegment_wp [OF L less.prems(1-3) top less.prems(6), of "\<lambda>seen'. wp (if w = lastW then ret () else touchWindows L st lastW (w + 1) seen') ?E Q" big] this
  show ?case by (subst touchWindows_unfold) (simp add: wp_bind_fun)
qed

section \<open>Cutting the directory\<close>

lemma take_sealedVec: "m \<le> n \<Longrightarrow> take m (sealedVec L p rows n) = sealedVec L p rows m"
  by (simp add: sealedVec_def take_map)

lemma truncateDir_wp:
  assumes L: "lib_ok L" and ca: "cacheOk L s" and p: "paramsOk p" and ok: "sealedOk L s st p rows openW"
    and t: "baseOf p \<le> t" "t \<le> openW"
    and post: "\<And>u st'. grows L s u \<Longrightarrow> sealedOk L u st' p rows t \<Longrightarrow> Q st' u"
  shows "wp (if t = openW then ret (st\<lparr>root := None\<rparr>)
             else if t - dirBase st = 0 then ret (st\<lparr>root := None, dir := None, dirDepth := 0\<rparr>)
             else case pathDigits (t - dirBase st) (dirDepth st) (pFanoutBits p) of
               None \<Rightarrow> fail (Internal ''sealed count does not fit'')
             | Some digits \<Rightarrow>
                 bind (bind (dirTruncate L (dir st) digits) (\<lambda>d1. dirShrink L d1 (dirDepth st))) (\<lambda>(d2, depth2).
                 ret (st\<lparr>root := None, dir := d2, dirDepth := depth2\<rparr>))) (envErr L big s) Q s"
proof -
  let ?n = "unat openW - unat (baseOf p)" and ?m = "unat t - unat (baseOf p)"
  have st: "params st = p" "dirBase st = baseOf p" and fb: "fanoutOk (pFanoutBits p)"
    and dir: "dirOk L s (pFanoutBits p) (sealedVec L p rows ?n) (dir st) (dirDepth st)" and segs: "segsStored L s p rows ?n"
    using ok p by (simp_all add: sealedOk_def dirBase_def paramsOk_def)
  consider "t = openW" | "t \<noteq> openW" "t = baseOf p" | "baseOf p < t" "t < openW" using t by fastforce
  then show ?thesis
  proof cases
    case 1
    with post [of s] ok show ?thesis by simp
  next
    case 2
    have "sealedOk L s (st\<lparr>root := None, dir := None, dirDepth := 0\<rparr>) p rows t"
      using 2 st by (simp add: sealedOk_def dirOk_def sealedVec_def segsStored_def canonicalDepth_def)
    with post [of s] 2 st show ?thesis by simp
  next
    case 3
    have k: "unat (t - baseOf p) = ?m" using t(1) by (rule unat_sub_u64)
    have m: "0 < ?m" "?m < ?n" "?m \<le> ?n" using 3 by (auto simp: word_less_nat_alt)
    have "\<exists>digits. pathDigits (t - baseOf p) (dirDepth st) (pFanoutBits p) = Some digits \<and>
      wp (bind (dirTruncate L (dir st) digits) (\<lambda>d1. dirShrink L d1 (dirDepth st))) (envErr L big s)
        (\<lambda>(d2, depth2). Q (st\<lparr>root := None, dir := d2, dirDepth := depth2\<rparr>)) s"
    proof (rule dirCut_wp [OF L fb ca dir])
      fix u d2 depth2
      assume u: "grows L s u" "dirOk L u (pFanoutBits p) (take (unat (t - baseOf p)) (sealedVec L p rows ?n)) d2 depth2"
      then have "dirOk L u (pFanoutBits p) (sealedVec L p rows ?m) d2 depth2" using k take_sealedVec [OF m(3), of L p rows] by simp
      moreover have "segsStored L u p rows ?m" using segsStored_grows [OF u(1) segs] m(2) by (auto simp: segsStored_def)
      ultimately have "sealedOk L u (st\<lparr>root := None, dir := d2, dirDepth := depth2\<rparr>) p rows t"
        using st t(1) by (simp add: sealedOk_def)
      with post [OF u(1)] show "(case (d2, depth2) of (d2, depth2) \<Rightarrow> Q (st\<lparr>root := None, dir := d2, dirDepth := depth2\<rparr>)) u" by simp
    qed (use k m in auto)
    moreover have "t - baseOf p \<noteq> 0" "t \<noteq> openW" using 3 by auto
    ultimately show ?thesis using st by (auto simp: case_prod_unfold wp_bind_fun)
  qed
qed

section \<open>What a retained window must hold\<close>

lemma firstRetained_base: "params st = p \<Longrightarrow> baseOf p \<le> firstRetainedWindow st ws"
  by (auto simp: firstRetainedWindow_def Let_def not_less intro!: ord_mono)

lemma u64_pred_le: "a \<noteq> 0 \<Longrightarrow> v < a \<longleftrightarrow> v \<le> (a :: u64) - 1"
  using unat_sub_u64 [of 1 a] unat_gt_0 [of a] by (auto simp: word_less_nat_alt word_le_nat_alt)

lemma touchNewly_wp:
  assumes L: "lib_ok L" and ca: "cacheOk L s" and ok: "bodyOk L s st p rows (Some x)" and old: "params old = p"
    and post: "\<And>t. grows L s t \<Longrightarrow> (\<forall>v. firstRetainedWindow st ws \<le> v \<and> v < firstRetainedWindow old ws \<and> v \<le> ord x (pSegBits p) \<longrightarrow>
      touched L t (blobLinks (winRows (pSegBits p) v rows))) \<Longrightarrow> Q () t"
  shows "wp (touchNewlyRetainedWindow L old st ws) (\<lambda>e. envErr L big s e \<or> \<not> blobsHeld L s rows) Q s"
proof -
  let ?o = "firstRetainedWindow old ws" and ?n = "firstRetainedWindow st ws" and ?e = "ord x (pSegBits p)"
  let ?l = "if ?e < ?o - 1 then ?e else ?o - 1"
  have st: "params st = p" "syncedTo st = x" using ok by (simp_all add: bodyOk_def)
  have pre: "v < ?o \<longleftrightarrow> v \<le> ?o - 1" if "?o \<noteq> 0" for v
    using that u64_pred_le by simp
  have l: "v \<le> ?l" if "v < ?o" "v \<le> ?e" for v
    using that pre [of v] by (cases "?o = 0") auto
  have le: "?l \<le> ?e" by auto
  consider "?o \<le> ?n \<or> ?o = 0" | "\<not> (?o \<le> ?n \<or> ?o = 0)" "?l < ?n" | "\<not> (?o \<le> ?n \<or> ?o = 0)" "?n \<le> ?l" by fastforce
  then show ?thesis
  proof cases
    case 1
    then have "Q () s" by (intro post) auto
    with 1 show ?thesis by (simp add: touchNewlyRetainedWindow_def Let_def)
  next
    case 2
    have "False" if "?n \<le> v" "v < ?o" "v \<le> ?e" for v
      using l [OF that(2,3)] that(1) 2(2) by (meson leD order_trans)
    then have "Q () s" by (intro post) auto
    with 2 st show ?thesis by (simp add: touchNewlyRetainedWindow_def Let_def)
  next
    case 3
    have "wp (touchWindows L st ?l ?n []) (\<lambda>e. envErr L big s e \<or> \<not> blobsHeld L s rows) Q s"
      by (rule touchWindows_wp [OF L ca ok firstRetained_base [OF st(1)] 3(2) le]) (use post l in auto)
    with 3 st show ?thesis by (simp add: touchNewlyRetainedWindow_def Let_def not_less [symmetric])
  qed
qed

section \<open>Truncation\<close>

text \<open>The largest slot a published head can be synced to.\<close>

lemma headOk_bound:
  assumes L: "lib_ok L" and ok: "headOk L s st p rows (Some x)"
  shows "x < maxInt64"
proof -
  obtain b c where "EncodeHead L (headObject st) = Inr (b, c)" and body: "bodyOk L s st p rows (Some x)"
    using ok by (auto simp: headOk_def)
  then have le: "x \<le> maxInt64" by (auto simp: headObject_def bodyOk_def dest: EncodeHead_Inr)
  have k: "pSegBits p \<le> 63" "windowStart (ord (x + 1) (pSegBits p)) (pSegBits p) \<le> maxInt64"
    using body by (auto simp: bodyOk_def paramsOk_def segStored_def segOf_def
        dest!: segmentEncodable_iff [OF L, THEN iffD2, OF exI, OF exI] simp: segmentEncodable_def)
  have "x \<noteq> maxInt64"
  proof
    assume x: "x = maxInt64"
    have x1: "unat (x + 1) = 2 ^ 63" by (simp add: x maxInt64_def)
    have "unat (windowStart (ord (x + 1) (pSegBits p)) (pSegBits p)) = 2 ^ 63 div 2 ^ unat (pSegBits p) * 2 ^ unat (pSegBits p)"
      by (simp add: unat_windowStart [OF windowOk_ord [OF k(1)]] unat_ord x1)
    also have "\<dots> = (2 :: nat) ^ 63"
    proof -
      have "(2 :: nat) ^ unat (pSegBits p) dvd 2 ^ 63" using k(1) by (intro le_imp_power_dvd) (simp add: word_le_nat_alt)
      then show ?thesis by (rule dvd_div_mult_self)
    qed
    finally show False using k(2) by (simp add: word_le_nat_alt)
  qed
  with le show ?thesis by simp
qed

lemma truncateRows_wp:
  assumes L: "lib_ok L" and ca: "cacheOk L s" and ok: "bodyOk L s st p rows (Some x)" and slot: "pOriginSlot p \<le> slot" "slot \<le> x"
    and post: "\<And>t. grows L s t \<Longrightarrow> (retain \<Longrightarrow> touched L t (blobLinks (winRows (pSegBits p) (ord slot (pSegBits p)) (upTo slot rows)))) \<Longrightarrow>
      Q (winRows (pSegBits p) (ord slot (pSegBits p)) (upTo slot rows)) t"
  shows "wp (bind (segmentFor L st (ord slot (pSegBits p))) (\<lambda>segCID. if segCID = None then ret []
             else bind (GetNode (segs L) segCID) (\<lambda>seg.
               let rows = copyRowsUpTo (sRows seg) slot in
               bind (if retain then touchTruncatedBlobs L rows else ret ()) (\<lambda>_. ret rows))))
    (\<lambda>e. envErr L big s e \<or> retain \<and> \<not> blobsHeld L s (upTo slot rows)) Q s"
proof -
  let ?k = "pSegBits p" and ?t = "ord slot (pSegBits p)"
  let ?E = "\<lambda>e. envErr L big s e \<or> retain \<and> \<not> blobsHeld L s (upTo slot rows)"
  let ?cut = "winRows ?k ?t (upTo slot rows)"
  let ?touch = "bind (if retain then touchTruncatedBlobs L ?cut else ret ()) (\<lambda>_. ret ?cut)"
  have xm: "x < maxUint64" "rowsOk rows" using ok by (simp_all add: bodyOk_def rowsIn_def)
  have w: "baseOf p \<le> ?t" "?t \<le> ord (x + 1) ?k"
    using ord_mono [OF slot(1)] ord_mono [OF order_trans [OF slot(2) resume_le [OF xm(1)]]] by simp_all
  have cut: "copyRowsUpTo (winRows ?k ?t rows) slot = ?cut"
    using copyRowsUpTo_filter [OF sorted_winRows [OF xm(2)]] by (simp add: winRows_upTo)
  have touch: "wp ?touch ?E Q u" if u: "grows L s u" for u
  proof (cases retain)
    case True
    have "wp (touchTruncatedLoop L [] (blobLinks ?cut)) (\<lambda>e. envErr L big u e \<or> \<not> (\<forall>l\<in>set (blobLinks ?cut). blobHeld L u l)) (\<lambda>_. Q ?cut) u"
      by (rule touchTruncatedLoop_wp) (use post [OF u] in auto)
    then have "wp (touchTruncatedLoop L [] (blobLinks ?cut)) ?E (\<lambda>_. Q ?cut) u"
    proof (rule wp_mono)
      fix e assume "envErr L big u e \<or> \<not> (\<forall>l\<in>set (blobLinks ?cut). blobHeld L u l)"
      moreover have "\<forall>l\<in>set (blobLinks ?cut). blobHeld L u l" if "blobsHeld L s (upTo slot rows)"
        using blobsHeld_grows [OF u that] blobsHeld_mono [of ?cut "upTo slot rows" L u] by (auto simp: blobsHeld_def winRows_def)
      ultimately show "?E e" using True grows_env [OF u] by auto
    qed
    with True show ?thesis by (simp add: touchTruncatedBlobs_def)
  qed (use post [OF u] in simp)
  let ?read = "\<lambda>segCID. if segCID = None then ret [] else bind (GetNode (segs L) segCID) (\<lambda>seg.
    let rows = copyRowsUpTo (sRows seg) slot in bind (if retain then touchTruncatedBlobs L rows else ret ()) (\<lambda>_. ret rows))"
  have "wp (segmentFor L st ?t) (envErr L big s) (\<lambda>c. wp (?read c) ?E Q) s"
  proof (rule segmentFor_wp [OF L ca ok w])
    fix t assume "grows L s t" "winRows ?k ?t rows = []"
    with post [of t] cut show "wp (?read None) ?E Q t" by (simp add: blobLinks_def)
  next
    fix t assume t: "grows L s t" "segStored L t (segOf p rows ?t)"
    have "wp (GetNode (segs L) (segCid L (segOf p rows ?t))) (envErr L big t) (\<lambda>seg. wp (let rows = copyRowsUpTo (sRows seg) slot in
        bind (if retain then touchTruncatedBlobs L rows else ret ()) (\<lambda>_. ret rows)) ?E Q) t"
      by (rule getSegment_wp [OF L cacheOk_grows [OF t(1) ca] t(2) refl])
        (use touch [OF grows_trans [OF t(1)]] cut in \<open>simp add: segOf_def Let_def\<close>)
    then have "wp (bind (GetNode (segs L) (segCid L (segOf p rows ?t))) (\<lambda>seg. let rows = copyRowsUpTo (sRows seg) slot in
        bind (if retain then touchTruncatedBlobs L rows else ret ()) (\<lambda>_. ret rows))) ?E Q t"
      unfolding wp_bind by (rule wp_mono) (auto simp: grows_env [OF t(1)])
    with segCid_Some [OF t(2)] show "wp (?read (segCid L (segOf p rows ?t))) ?E Q t" by auto
  qed
  then show ?thesis unfolding wp_bind by (rule wp_mono) auto
qed

text \<open>The first window a trailing window of \<open>ws\<close> slots behind \<open>x\<close> retains.\<close>

definition retainedFrom :: "Params \<Rightarrow> u64 \<Rightarrow> u64 \<Rightarrow> u64" where
  "retainedFrom p x ws = ord (max (pOriginSlot p) (if ws < x then x - ws else 0)) (pSegBits p)"

lemma firstRetainedWindow_eq: "params st = p \<Longrightarrow> syncedTo st = x \<Longrightarrow> firstRetainedWindow st ws = retainedFrom p x ws"
  by (auto simp: firstRetainedWindow_def retainedFrom_def Let_def max_def not_less intro!: arg_cong [where f = "\<lambda>s. ord s _"] dest: leD)

definition newlyRetained :: "Params \<Rightarrow> u64 \<Rightarrow> u64 \<Rightarrow> u64 \<Rightarrow> u64 \<Rightarrow> bool" where
  "newlyRetained p x slot ws v \<longleftrightarrow> retainedFrom p slot ws \<le> v \<and> v < retainedFrom p x ws \<and> v \<le> ord slot (pSegBits p)"

text \<open>Writing the open segment, the retention check and publication.\<close>

definition truncateCommit :: "('b, 'd) lib \<Rightarrow> 'd state \<Rightarrow> u64 \<Rightarrow> u64 \<Rightarrow> bool \<Rightarrow> 'd state \<times> ('d Segment, 'd) pointer \<Rightarrow> ('b, 'd, 'd state) eng" where
  "truncateCommit L st slot ws retain = (\<lambda>(st2, open').
     bind (commitSegment L open' SegmentOpen) (\<lambda>(c, _).
     bind (if retain then touchNewlyRetainedWindow L st (st2\<lparr>openSeg := Some c, syncedTo := slot, covered := True\<rparr>) ws else ret ()) (\<lambda>_.
     publish L (st2\<lparr>openSeg := Some c, syncedTo := slot, covered := True\<rparr>))))"

definition retainedTouched :: "('b, 'd) lib \<Rightarrow> Params \<Rightarrow> u64 \<Rightarrow> u64 \<Rightarrow> u64 \<Rightarrow> 'd Row list \<Rightarrow> ('b, 'd) engine \<Rightarrow> bool" where
  "retainedTouched L p x slot ws rows s \<longleftrightarrow> (\<forall>v. newlyRetained p x slot ws v \<longrightarrow> touched L s (blobLinks (winRows (pSegBits p) v rows)))"

lemma retainedTouched_moves: "moves L s t \<Longrightarrow> retainedTouched L p x slot ws rows s \<Longrightarrow> retainedTouched L p x slot ws rows t"
  by (auto simp: retainedTouched_def intro: touched_moves)

lemma touchNewly_retained_wp:
  assumes L: "lib_ok L" and ca: "cacheOk L s" and ok: "bodyOk L s st' p rows (Some slot)" and old: "params st = p" "syncedTo st = x"
  shows "wp (touchNewlyRetainedWindow L st st' ws) (\<lambda>e. envErr L big s e \<or> \<not> blobsHeld L s rows)
    (\<lambda>_ t. grows L s t \<and> retainedTouched L p x slot ws rows t) s"
proof (rule touchNewly_wp [OF L ca ok old(1)])
  have "params st' = p" "syncedTo st' = slot" using ok by (simp_all add: bodyOk_def)
  then have eq: "firstRetainedWindow st' ws = retainedFrom p slot ws" "firstRetainedWindow st ws = retainedFrom p x ws"
    using firstRetainedWindow_eq old by blast+
  fix t
  assume t: "grows L s t" "\<forall>v. firstRetainedWindow st' ws \<le> v \<and> v < firstRetainedWindow st ws \<and> v \<le> ord slot (pSegBits p) \<longrightarrow>
    touched L t (blobLinks (winRows (pSegBits p) v rows))"
  from t show "grows L s t \<and> retainedTouched L p x slot ws rows t" unfolding eq by (simp add: retainedTouched_def newlyRetained_def)
qed

lemma truncateCommit_wp:
  assumes L: "lib_ok L" and p: "paramsOk p" and ca: "cacheOk L s" and sealed: "sealedOk L s st2 p rows (ord (slot + 1) (pSegBits p))"
    and ptr: "denotesSeg L s q (segOf p rows (ord (slot + 1) (pSegBits p)))"
    and rows: "rowsIn p rows slot" "pOriginSlot p \<le> slot" and slot: "slot < maxInt64" and old: "params st = p" "syncedTo st = x"
    and post: "\<And>u. moves L s u \<Longrightarrow> headOk L u (cur u) p rows (Some slot) \<Longrightarrow>
      (retain \<Longrightarrow> retainedTouched L p x slot ws rows u) \<Longrightarrow> Q (cur u) u"
  shows "wp (truncateCommit L st slot ws retain (st2, q)) (\<lambda>e. envErr L big s e \<or> retain \<and> \<not> blobsHeld L s rows) Q s"
  unfolding truncateCommit_def prod.case
proof (rule commit_publish_wp [OF L p ca sealed ptr rows order_less_imp_le [OF slot],
      where big = False and mid = "\<lambda>st'. if retain then touchNewlyRetainedWindow L st st' ws else ret ()"
        and M = "\<lambda>t. retain \<longrightarrow> retainedTouched L p x slot ws rows t"])
  fix t st' assume t: "grows L s t" "bodyOk L t st' p rows (Some slot)"
  have "wp (touchNewlyRetainedWindow L st st' ws) (\<lambda>e. envErr L big s e \<or> \<not> blobsHeld L s rows)
    (\<lambda>_ u. grows L t u \<and> retainedTouched L p x slot ws rows u) t"
    by (rule wp_at_blobs [OF t(1)], rule touchNewly_retained_wp [OF L cacheOk_grows [OF t(1) ca] t(2) old])
  then show "wp (if retain then touchNewlyRetainedWindow L st st' ws else ret ()) (\<lambda>e. envErr L big s e \<or> retain \<and> \<not> blobsHeld L s rows)
    (\<lambda>_ u. grows L t u \<and> (retain \<longrightarrow> retainedTouched L p x slot ws rows u)) t" by simp
next
  fix t u assume u: "moves L s u" "retain \<longrightarrow> retainedTouched L p x slot ws rows t" "moves L t u" "headOk L u (cur u) p rows (Some slot)"
  then show "Q (cur u) u" by (intro post) (auto intro: retainedTouched_moves)
qed (use slot in \<open>auto simp: envErr_def\<close>)

lemma truncateFinish_wp:
  assumes L: "lib_ok L" and p: "paramsOk p" and ca: "cacheOk L s" and sealed: "sealedOk L s st1 p rows (ord slot (pSegBits p))"
    and rows: "rowsIn p rows slot" "pOriginSlot p \<le> slot" and slot: "slot < maxInt64" and old: "params st = p" "syncedTo st = x"
    and post: "\<And>u. moves L s u \<Longrightarrow> headOk L u (cur u) p rows (Some slot) \<Longrightarrow>
      (retain \<Longrightarrow> retainedTouched L p x slot ws rows u) \<Longrightarrow> Q (cur u) u"
    and t: "t = ord slot (pSegBits p)" and q: "q = NewNode (Some (segOf p rows t))"
  shows "wp (bind (if windowEnd t (pSegBits p) \<le> slot then seal L st1 q t else ret (st1, q)) (truncateCommit L st slot ws retain))
    (\<lambda>e. envErr L big s e \<or> retain \<and> \<not> blobsHeld L s rows) Q s"
proof -
  let ?E = "\<lambda>e. envErr L big s e \<or> retain \<and> \<not> blobsHeld L s rows" and ?k = "pSegBits p"
  have k: "windowOk ?k t" using p windowOk_ord by (simp add: paramsOk_def t)
  have smax: "slot < maxUint64" using slot by (simp add: word_less_nat_alt)
  have ptr: "denotesSeg L s q (segOf p rows t)" unfolding q by (rule segS.store.denotes_NewNode)
  have commit: "wp (truncateCommit L st slot ws retain (st2, q')) ?E Q u"
    if u: "grows L s u" "sealedOk L u st2 p rows (ord (slot + 1) ?k)" "denotesSeg L u q' (segOf p rows (ord (slot + 1) ?k))" for u st2 q'
    by (rule wp_mono [OF truncateCommit_wp [OF L p cacheOk_grows [OF u(1) ca] u(2,3) rows slot old]])
      (use post moves_trans [OF grows_moves [OF u(1)]] grows_env [OF u(1)] blobsHeld_grows [OF u(1)] in auto)
  show ?thesis
  proof (cases "windowEnd t ?k \<le> slot")
    case True
    have next': "ord (slot + 1) ?k = t + 1" using window_full [OF k smax _ True] t by simp
    have lo: "t \<le> slot" "windowStart t ?k \<le> slot" using ord_le p windowStart_le by (auto simp: t paramsOk_def)
    have ok: "SegmentValidate (segOf p rows t) = Inr ()" "segmentFits (segOf p rows t)"
      using SegmentValidate_segOf [OF p, of rows] segmentFits_segOf [OF p, of rows slot] rows(1) slot lo(2)
      by (auto simp: rowsIn_def)
    have "t \<noteq> maxUint64" using lo(1) smax by auto
    then have "t < t + 1" using u64_less_iff_Suc_le [of t "t + 1"] by simp
    have none: "winRows ?k (t + 1) rows = []"
    proof (rule winRows_empty, intro ballI)
      fix r assume "r \<in> set rows"
      then have "ord (rSlot r) ?k \<le> t" using rows(1) by (auto simp: rowsIn_def t intro: ord_mono)
      with \<open>t < t + 1\<close> show "ord (rSlot r) ?k \<noteq> t + 1" by auto
    qed
    then have fresh: "denotesSeg L u (NewNode (Some \<lparr>sSlot0 = windowStart (t + 1) ?k, sRows = []\<rparr>)) (segOf p rows (t + 1))" for u
      using segS.store.denotes_NewNode by (simp add: segOf_def)
    have "wp (seal L st1 q t) (envErr L big s) (\<lambda>r. wp (truncateCommit L st slot ws retain r) ?E Q) s"
      by (rule seal_wp [OF L ca p sealed [folded t] ptr]) (use lo slot ok commit fresh next' in \<open>auto simp: word_less_nat_alt word_le_nat_alt\<close>)
    then have "wp (seal L st1 q t) ?E (\<lambda>r. wp (truncateCommit L st slot ws retain r) ?E Q) s" by (rule wp_mono) auto
    with True show ?thesis by simp
  next
    case False
    then have "ord (slot + 1) ?k = t" using window_last [OF k smax] t by simp
    with False sealed ptr t show ?thesis by (simp add: commit)
  qed
qed

lemma truncate_wp:
  assumes L: "lib_ok L" and ca: "cacheOk L s" and ok: "headOk L s (cur s) p rows (Some x)" and slot: "pOriginSlot p \<le> slot" "slot \<le> x"
    and post: "\<And>u. moves L s u \<Longrightarrow> headOk L u (cur u) p (upTo slot rows) (Some slot) \<Longrightarrow>
      (retain \<Longrightarrow> touched L u (blobLinks (winRows (pSegBits p) (ord slot (pSegBits p)) (upTo slot rows))) \<and>
        retainedTouched L p x slot ws (upTo slot rows) u) \<Longrightarrow> Q (root (cur u)) u"
  shows "wp (truncate L slot ws retain) (\<lambda>e. envErr L big s e \<or> retain \<and> \<not> blobsHeld L s (upTo slot rows)) Q s"
proof -
  let ?k = "pSegBits p" and ?t = "ord slot (pSegBits p)" and ?rows = "upTo slot rows" and ?st = "cur s"
  let ?E = "\<lambda>e. envErr L big s e \<or> retain \<and> \<not> blobsHeld L s ?rows"
  have body: "bodyOk L s ?st p rows (Some x)" using ok by (simp add: headOk_def)
  then have st: "params ?st = p" "syncedTo ?st = x" "covered ?st" "paramsOk p" "sealedOk L s ?st p rows (ord (x + 1) ?k)"
    and xm: "x < maxUint64" "rowsIn p rows x" by (simp_all add: bodyOk_def)
  have w: "baseOf p \<le> ?t" "?t \<le> ord (x + 1) ?k"
    using ord_mono [OF slot(1)] ord_mono [OF order_trans [OF slot(2) resume_le [OF xm(1)]]] by simp_all
  have smax: "slot < maxInt64" using headOk_bound [OF L ok] slot(2) by simp
  note in' = rowsIn_upTo [OF xm(2), of slot]
  have sealed': "sealedOk L u st1 p ?rows ?t" if "sealedOk L u st1 p rows ?t" for u st1
    by (rule sealedOk_cong [OF winRows_upTo_below [symmetric] that])
  let ?cut = "winRows ?k ?t ?rows" and ?dirAt = "\<lambda>openW. if ?t = openW then ret (?st\<lparr>root := None\<rparr>)
             else if ?t - dirBase ?st = 0 then ret (?st\<lparr>root := None, dir := None, dirDepth := 0\<rparr>)
             else case pathDigits (?t - dirBase ?st) (dirDepth ?st) (pFanoutBits p) of
               None \<Rightarrow> fail (Internal ''sealed count does not fit'')
             | Some digits \<Rightarrow>
                 bind (bind (dirTruncate L (dir ?st) digits) (\<lambda>d1. dirShrink L d1 (dirDepth ?st))) (\<lambda>(d2, depth2).
                 ret (?st\<lparr>root := None, dir := d2, dirDepth := depth2\<rparr>))"
  let ?fin = "\<lambda>cut st1. bind (if windowEnd ?t ?k \<le> slot then seal L st1 (NewNode (Some \<lparr>sSlot0 = windowStart ?t ?k, sRows = cut\<rparr>)) ?t
      else ret (st1, NewNode (Some \<lparr>sSlot0 = windowStart ?t ?k, sRows = cut\<rparr>))) (truncateCommit L ?st slot ws retain)"
  let ?dir = "?dirAt (ord (x + 1) ?k)" and ?Q = "\<lambda>st' u. Q (root st') u"
  have fin: "wp (?fin ?cut st1) ?E ?Q v"
    if v: "grows L s v" "sealedOk L v st1 p rows ?t" "retain \<Longrightarrow> touched L v (blobLinks ?cut)" for v st1
  proof -
    have "wp (?fin ?cut st1) (\<lambda>e. envErr L big v e \<or> retain \<and> \<not> blobsHeld L v ?rows) ?Q v"
    proof (rule truncateFinish_wp [OF L st(4) cacheOk_grows [OF v(1) ca] sealed' [OF v(2)] in' slot(1) smax st(1,2) _ refl])
      fix u assume u: "moves L v u" "headOk L u (cur u) p ?rows (Some slot)" "retain \<Longrightarrow> retainedTouched L p x slot ws ?rows u"
      from u touched_moves [OF u(1) v(3)] show "Q (root (cur u)) u"
        by (intro post moves_trans [OF grows_moves [OF v(1)]]) auto
    qed (simp add: segOf_def)
    then show ?thesis by (rule wp_mono) (use grows_env [OF v(1)] blobsHeld_grows [OF v(1)] in auto)
  qed
  have cut: "wp (bind ?dir (?fin ?cut)) ?E ?Q u" if u: "grows L s u" "retain \<Longrightarrow> touched L u (blobLinks ?cut)" for u
  proof -
    have "wp ?dir (envErr L big u) (\<lambda>st1. wp (?fin ?cut st1) ?E ?Q) u"
      by (rule truncateDir_wp [OF L cacheOk_grows [OF u(1) ca] st(4) sealedOk_grows [OF u(1) st(5)] w])
        (use fin grows_trans [OF u(1)] u(2) touched_moves grows_moves in blast)
    then show ?thesis unfolding wp_bind by (rule wp_mono) (auto simp: grows_env [OF u(1)])
  qed
  let ?read = "\<lambda>segCID. if segCID = None then ret [] else bind (GetNode (segs L) segCID) (\<lambda>seg.
    let rows = copyRowsUpTo (sRows seg) slot in bind (if retain then touchTruncatedBlobs L rows else ret ()) (\<lambda>_. ret rows))"
  have read: "wp (bind (segmentFor L ?st ?t) ?read) ?E (\<lambda>cut. wp (bind ?dir (?fin cut)) ?E ?Q) u" if u: "grows L s u" for u
    by (rule wp_mono [OF truncateRows_wp [OF L cacheOk_grows [OF u ca] bodyOk_grows [OF u body] slot]])
      (use cut grows_trans [OF u] grows_env [OF u] blobsHeld_grows [OF u] in auto)
  have "wp (openOrd L ?st) (envErr L big s) (\<lambda>openW. wp (bind (segmentFor L ?st ?t) ?read) ?E (\<lambda>cut. wp (bind (?dirAt openW) (?fin cut)) ?E ?Q)) s"
    by (rule openOrd_wp [OF L ca body]) (rule read)
  then have "wp (openOrd L ?st) ?E (\<lambda>openW. wp (bind (segmentFor L ?st ?t) ?read) ?E (\<lambda>cut. wp (bind (?dirAt openW) (?fin cut)) ?E ?Q)) s"
    by (rule wp_mono) auto
  with st(3) leD [OF slot(1)] leD [OF slot(2)] show ?thesis
    unfolding truncate_def truncateCommit_def wp_bind_fun wp_gets_fun Let_def case_prod_unfold st(1,2)
    by (simp only: simp_thms if_False wp_bind_fun wp_gets_fun st(1,2))
qed

section \<open>Failed truncations leave the head alone\<close>

lemma touch_grows [frame]:
  "keeps (grows L) (touchTruncatedLoop L seen blobs)" "keeps (grows L) (touchRetainedLoop L seen blobs)"
  by (induction blobs arbitrary: seen) (auto intro!: frame Pair_grows split: option.splits)

lemma touchWindows_grows [frame]: "keeps (grows L) (touchWindows L st lastW w seen)"
proof (induction "unat (lastW - w)" arbitrary: w seen rule: less_induct)
  case less
  have "keeps (grows L) (if w = lastW then ret () else touchWindows L st lastW (w + 1) seen')" for seen'
    using less [OF window_step] by (auto intro!: frame)
  then show ?case by (subst touchWindows_unfold) (auto intro!: frame)
qed

lemma touchNewly_grows [frame]: "keeps (grows L) (touchNewlyRetainedWindow L old st ws)"
  unfolding touchNewlyRetainedWindow_def Let_def by (auto intro!: frame)

lemma truncateRead_grows:
  "keeps (grows L) (if segCID = None then ret []
     else bind (GetNode (segs L) segCID) (\<lambda>seg.
       let rows = copyRowsUpTo (sRows seg) slot in
       bind (if retain then touchTruncatedBlobs L rows else ret ()) (\<lambda>_. ret rows)))"
  by (auto intro!: frame simp: Let_def touchTruncatedBlobs_def)

lemma truncateDir_grows:
  assumes "lib_ok L" "\<And>x. keeps (grows L) (f x)"
  shows "keeps (grows L) (if t = openW then ret a else if n = 0 then ret b
    else case digits of None \<Rightarrow> fail e
      | Some ds \<Rightarrow> bind (bind (dirTruncate L d ds) (\<lambda>d1. dirShrink L d1 depth)) f)"
  using assms by (auto split: option.splits intro!: frame)

lemma truncate_fail:
  assumes L: "lib_ok L"
  shows "failKeeps (grows L) (truncate L slot ws retain)"
proof -
  note g = failKeeps_bind [OF grows_preorder(2)]
  have seal: "keeps (grows L) (if b then seal L st p w else ret x)" for b st p w x
    by (auto intro!: frame L)
  have tail: "failKeeps (grows L) (bind (publish L st) (\<lambda>st'. ret (root st')))" for st
    by (intro failKeeps_then publish_fail L neverFails_intros)
  have touch: "keeps (grows L) (if retain then touchNewlyRetainedWindow L st st' ws else ret ())" for st st'
    by (auto intro!: frame)
  have refuse: "failKeeps (grows L) (fail e)" for e :: "'b err" by (intro failKeeps_keeps frame)
  show ?thesis
    unfolding truncate_def Let_def case_prod_unfold
    by (rule g, rule frame, intro failKeeps_if refuse, rule g, rule frame, rule g, rule frame,
        rule g, rule truncateRead_grows [unfolded Let_def], rule g, rule truncateDir_grows [OF L], rule frame,
        rule g, rule seal, rule g, rule frame, rule L, rule g, rule touch, rule tail)
qed

section \<open>Emptying and building\<close>

lemma TruncateToEmpty_wp:
  assumes L: "lib_ok L" and ok: "headOk L s (cur s) p rows syn"
    and post: "\<And>t. moves L s t \<Longrightarrow> headOk L t (cur t) p [] None \<Longrightarrow> Q (root (cur t)) t"
  shows "wp (TruncateToEmpty L) (envErr L big s) Q s"
proof -
  obtain b c where enc: "EncodeHead L (headObject (cur s)) = Inr (b, c)" and body: "bodyOk L s (cur s) p rows syn"
    using ok by (auto simp: headOk_def)
  then have p: "params (cur s) = p" "paramsOk p" by (simp_all add: bodyOk_def)
  have origin: "pOriginSlot p \<le> maxInt64" using EncodeHead_Inr(2) [OF enc] p(1) by (simp add: headObject_def)
  have "bodyOk L s (emptyState p) p [] None" using p(2) by (simp add: bodyOk_def emptyState_def)
  then have "wp (publish L (emptyState p)) (envErr L big s) (\<lambda>st'. Q (root st')) s"
    by (rule publish_wp [OF L]) (use origin post in auto)
  then show ?thesis by (simp add: TruncateToEmpty_def p wp_bind_fun)
qed

lemma TruncateToEmpty_fail: "lib_ok L \<Longrightarrow> failKeeps (grows L) (TruncateToEmpty L)"
  unfolding TruncateToEmpty_def
  by (rule failKeeps_bind [OF grows_preorder(2)], rule frame) (intro failKeeps_then publish_fail neverFails_intros)

lemma available_moves: "moves L s t \<Longrightarrow> available L s rs vh \<Longrightarrow> available L t rs vh"
  unfolding available_def using moves_held by fast

lemma BuildGeneration_wp:
  assumes L: "lib_ok L" and ca: "cacheOk L s" and p: "paramsOk p" and shape: "shapeOk p batch n" and n: "n < maxInt64"
    and av: "\<forall>r\<in>set batch. \<forall>vh\<in>set (rrVHs r). available L s rs vh"
    and post: "\<And>t. moves L s t \<Longrightarrow> headOk L t (cur t) p (map (rowOf rs) batch) (Some n) \<Longrightarrow> Q () t"
  shows "wp (BuildGeneration L (Some rs) p batch n) (envErr L big s) Q s"
proof -
  have shape': "validateShape (emptyState p) batch n = Inr ()"
    using shape by (simp add: validateShape_iff shapeOk_def emptyState_def)
  have "pOriginSlot p \<le> n" using shape by (simp add: shapeOk_def)
  then have origin: "pOriginSlot p \<le> maxInt64" using n by simp
  have apply': "wp (ApplyRefs L (Some rs) batch n) (envErr L big s) (\<lambda>_. Q ()) t"
    if t: "moves L s t" "headOk L t (cur t) p [] None" for t
  proof -
    have "wp (ApplyRefs L (Some rs) batch n) (envErr L big t) (\<lambda>_. Q ()) t"
      by (rule ApplyRefs_extend_wp [OF L moves_cacheOk [OF t(1) ca] t(2) shape])
        (use shape n av available_moves [OF t(1)] post moves_trans [OF t(1)] in \<open>auto simp: shapeOk_def resumeSlot_def\<close>)
    moreover have "envErr L big t = envErr L big s" using t(1) grows_env [of L s "t\<lparr>cur := cur s\<rparr>" big] by (simp add: moves_def envErr_def fun_eq_iff)
    ultimately show ?thesis by simp
  qed
  have "wp (New L p) (envErr L big s) (\<lambda>_. wp (ApplyRefs L (Some rs) batch n) (envErr L big s) (\<lambda>_. Q ())) s"
    by (rule New_wp [OF L p]) (use origin apply' in auto)
  then show ?thesis by (simp add: BuildGeneration_def shape' wp_bind_fun)
qed

end
