(* ===== verification/Enumerate.thy ===== *)
theory Enumerate
  imports Truncate "HOL-Library.AList"
begin

text \<open>
  Admission and enumeration of a whole index, \<open>archive/enumerate.go\<close> and \<open>archive/structure_cache.go\<close>: the walk from
  the root over every directory page and segment, with its budgets, its memo of shared empty subtrees and the
  segment proofs kept across roots. Cancellation and the wall-clock budget are not part of the model.
\<close>

section \<open>The source's functions\<close>

record 'd SealedSegment =
  slCID :: "'d cid"
  slOrd :: u64
  slFirstSlot :: u64
  slLastSlot :: u64

record 'd Enumeration =
  emParams :: Params
  emRoot :: "'d link"
  emSyncedTo :: u64
  emCovered :: bool
  emDirPages :: "'d cid list"
  emSealed :: "'d SealedSegment list"
  emOpen :: "'d link"
  emOpenOrd :: u64

record dirSummary =
  dsPaths :: u64
  dsSegments :: u64

text \<open>\<open>enumerationBudget\<close> and \<open>enumerationWalker\<close>, with the two output lists of the \<open>Enumeration\<close> being filled.\<close>

record 'd walker =
  bUnique :: "'d cid list"
  bPaths :: u64
  bDecoded :: u64
  bOutputs :: u64
  dirNodes :: "'d cid \<rightharpoonup> 'd DirNode"
  dirActive :: "'d cid \<Rightarrow> bool"
  dirMemo :: "'d cid \<times> nat \<times> u64 \<rightharpoonup> dirSummary"
  dirContains :: "'d cid \<Rightarrow> bool"
  wSegments :: "'d cid \<rightharpoonup> u64"
  newProofs :: "'d structureCache"
  outPages :: "'d cid list"
  outSealed :: "'d SealedSegment list"

definition newWalker :: "'d walker" where
  "newWalker = \<lparr>bUnique = [], bPaths = 0, bDecoded = 0, bOutputs = 0, dirNodes = Map.empty, dirActive = (\<lambda>_. False),
     dirMemo = Map.empty, dirContains = (\<lambda>_. False), wSegments = Map.empty, newProofs = [], outPages = [], outSealed = []\<rparr>"

text \<open>What the walk only reads: the block store, the proofs kept across roots, the state whose root it walks and the
  collection generation, if the store has one.\<close>

record ('b, 'd) walkEnv =
  weBlocks :: "('b, 'd) blocks"
  weStructure :: "'d structureCache"
  weState :: "'d state"
  weGeneration :: "u64 option"

type_synonym ('d, 'a) walk = "('d walker, 'd err, 'a) op"

abbreviation (input) MaxEnumerationDecodedBytes :: u64 where "MaxEnumerationDecodedBytes \<equiv> 4294967296"

definition addUnique :: "'d cid \<Rightarrow> ('d, bool) walk" where
  "addUnique c = bind (gets bUnique) (\<lambda>u.
     if c \<in> set u then ret False
     else if MaxEnumerationUniqueNodes \<le> length u then fail (BudgetExceeded ''unique nodes'')
     else bind (modify (\<lambda>w. w\<lparr>bUnique := c # bUnique w\<rparr>)) (\<lambda>_. ret True))"

definition readNode :: "('b, 'd) lib \<Rightarrow> ('b, 'd) walkEnv \<Rightarrow> 'd cid \<Rightarrow> ('d, 'b) walk" where
  "readNode L E c =
     bind (addUnique c) (\<lambda>fresh.
     bind (check fresh (Internal ''decoded twice'')) (\<lambda>_.
     bind (liftE (validatingGet L (weBlocks E) c)) (\<lambda>data.
     bind (check (blen L data \<le> MaxIndexNodeBytes) (BudgetExceeded ''node bytes'')) (\<lambda>_.
     bind (gets bDecoded) (\<lambda>decoded.
     bind (check (of_nat (blen L data) \<le> MaxEnumerationDecodedBytes - decoded) (BudgetExceeded ''decoded bytes'')) (\<lambda>_.
     bind (liftE (verifyBlockCID L c data)) (\<lambda>_.
     bind (modify (\<lambda>w. w\<lparr>bDecoded := bDecoded w + of_nat (blen L data)\<rparr>)) (\<lambda>_.
     ret data))))))))"

definition addPaths :: "u64 \<Rightarrow> ('d, unit) walk" where
  "addPaths n = bind (gets bPaths) (\<lambda>p.
     if of_nat MaxEnumerationPaths - p < n then fail (BudgetExceeded ''paths'')
     else modify (\<lambda>w. w\<lparr>bPaths := bPaths w + n\<rparr>))"

definition addOutput :: "('d, unit) walk" where
  "addOutput = bind (gets bOutputs) (\<lambda>n.
     if of_nat MaxEnumerationOutputs \<le> n then fail (BudgetExceeded ''outputs'')
     else modify (\<lambda>w. w\<lparr>bOutputs := bOutputs w + 1\<rparr>))"

definition readDir :: "('b, 'd) lib \<Rightarrow> ('b, 'd) walkEnv \<Rightarrow> 'd cid \<Rightarrow> ('d, 'd DirNode) walk" where
  "readDir L E c = bind (gets dirNodes) (\<lambda>dn. case dn c of
     Some page \<Rightarrow> ret page
   | None \<Rightarrow>
       bind (readNode L E c) (\<lambda>data.
       bind (liftE (liftS (DecodeDirNode L data))) (\<lambda>page.
       bind (modify (\<lambda>w. w\<lparr>dirNodes := (dirNodes w)(c \<mapsto> page), outPages := outPages w @ [c]\<rparr>)) (\<lambda>_.
       ret page))))"

primrec validateEntryCIDs :: "'d RefEntry list \<Rightarrow> 'd err + unit" where
  "validateEntryCIDs [] = Inr ()"
| "validateEntryCIDs (e # es) = bindE (validateBlobCID (eBlob e)) (\<lambda>_. validateEntryCIDs es)"

primrec validateRowCIDs :: "'d Row list \<Rightarrow> 'd err + unit" where
  "validateRowCIDs [] = Inr ()"
| "validateRowCIDs (r # rs) = bindE (validateEntryCIDs (rEntries r)) (\<lambda>_. validateRowCIDs rs)"

definition segmentShape :: "'d Segment \<Rightarrow> 'd err + segmentProof" where
  "segmentShape seg =
     bindE (validateRowCIDs (sRows seg)) (\<lambda>_.
     Inr \<lparr>spSlot0 = sSlot0 seg,
          spFirstRow = (if sRows seg = [] then 0 else rSlot (hd (sRows seg))),
          spLastRow = (if sRows seg = [] then 0 else rSlot (last (sRows seg))),
          spRows = length (sRows seg)\<rparr>)"

definition segmentProofFor :: "('b, 'd) lib \<Rightarrow> ('b, 'd) walkEnv \<Rightarrow> 'd cid \<Rightarrow> ('d, segmentProof) walk" where
  "segmentProofFor L E c =
     bind (gets newProofs) (\<lambda>np.
     let known = (\<lambda>proof. \<lparr>cpProof = proof, cpGeneration = (case weGeneration E of None \<Rightarrow> 0 | Some g \<Rightarrow> g),
                    cpGenerationKnown = (weGeneration E \<noteq> None)\<rparr>) in
     case (case map_of np c of Some p \<Rightarrow> Some p | None \<Rightarrow> map_of (weStructure E) c) of
       Some cached \<Rightarrow>
         if weGeneration E \<noteq> None \<and> cpGenerationKnown cached \<and> weGeneration E = Some (cpGeneration cached)
         then bind (addUnique c) (\<lambda>_. ret (cpProof cached))
         else bind (readNode L E c) (\<lambda>_.
              bind (modify (\<lambda>w. w\<lparr>newProofs := AList.update c (known (cpProof cached)) (newProofs w)\<rparr>)) (\<lambda>_.
              ret (cpProof cached)))
     | None \<Rightarrow>
         bind (readNode L E c) (\<lambda>data.
         bind (liftE (liftS (DecodeSegment L data))) (\<lambda>segment.
         bind (liftE (segmentShape segment)) (\<lambda>proof.
         bind (modify (\<lambda>w. w\<lparr>newProofs := AList.update c (known proof) (newProofs w)\<rparr>)) (\<lambda>_.
         ret proof)))))"

definition validateSegment :: "('b, 'd) lib \<Rightarrow> ('b, 'd) walkEnv \<Rightarrow> 'd link \<Rightarrow> u64 \<Rightarrow> u64 \<Rightarrow> bool \<Rightarrow> ('d, unit) walk" where
  "validateSegment L E l expectedWindow upper open' =
     bind (liftE (validateIndexCID l ''Segment'')) (\<lambda>c.
     bind (gets wSegments) (\<lambda>sg.
     bind (check (sg c = None) (BadStructure ''segment at two windows'')) (\<lambda>_.
     bind (modify (\<lambda>w. w\<lparr>wSegments := (wSegments w)(c \<mapsto> expectedWindow)\<rparr>)) (\<lambda>_.
     bind (segmentProofFor L E c) (\<lambda>proof.
     let p = params (weState E);
         wantSlot0 = windowStart expectedWindow (pSegBits p);
         lower = (if wantSlot0 < pOriginSlot p then pOriginSlot p else wantSlot0) in
     bind (check (spSlot0 proof = wantSlot0) (BadStructure ''slot0'')) (\<lambda>_.
     bind (check (\<not> (\<not> open' \<and> spRows proof = 0)) (BadStructure ''empty sealed segment'')) (\<lambda>_.
     check (\<not> (0 < spRows proof \<and> (spFirstRow proof < lower \<or> upper < spLastRow proof))) (BadStructure ''rows outside the window''))))))))"

text \<open>The loop over the kids of a leaf page.\<close>

primrec walkLeaf :: "('b, 'd) lib \<Rightarrow> ('b, 'd) walkEnv \<Rightarrow> u64 \<Rightarrow> 'd link list \<Rightarrow> u64 \<Rightarrow> ('d, u64) walk" where
  "walkLeaf L E index [] segmentCount = ret segmentCount"
| "walkLeaf L E index (kid # kids) segmentCount = (case kid of
     None \<Rightarrow> walkLeaf L E (index + 1) kids segmentCount
   | Some c \<Rightarrow>
       let k = pSegBits (params (weState E)); window = dirBase (weState E) + index in
       bind (validateSegment L E kid window (windowEnd window k) False) (\<lambda>_.
       bind addOutput (\<lambda>_.
       bind (modify (\<lambda>w. w\<lparr>outSealed := outSealed w @
         [\<lparr>slCID = c, slOrd = window, slFirstSlot = windowStart window k, slLastSlot = windowEnd window k\<rparr>]\<rparr>)) (\<lambda>_.
       walkLeaf L E (index + 1) kids (segmentCount + 1)))))"

text \<open>The loop over the kids of an internal page, given the walk of one kid.\<close>

primrec walkKids :: "('d link \<Rightarrow> u64 \<Rightarrow> u64 \<Rightarrow> ('d, dirSummary) walk) \<Rightarrow> u64 \<Rightarrow> u64 \<Rightarrow> u64 \<Rightarrow> u64 \<Rightarrow> 'd link list \<Rightarrow> u64 \<Rightarrow>
    ('d, u64) walk" where
  "walkKids walk childCap offset entries d [] segmentCount = ret segmentCount"
| "walkKids walk childCap offset entries d (kid # kids) segmentCount =
     (if kid = None then fail (BadStructure ''null internal kid'')
      else let rest = entries - d * childCap in
        bind (walk kid (offset + d * childCap) (if childCap < rest then childCap else rest)) (\<lambda>summary.
        walkKids walk childCap offset entries (d + 1) kids (segmentCount + dsSegments summary)))"

text \<open>The body of one page, \<open>depth\<close> levels above the leaves.\<close>

definition walkPage :: "('b, 'd) lib \<Rightarrow> ('b, 'd) walkEnv \<Rightarrow> nat \<Rightarrow> ('d link \<Rightarrow> u64 \<Rightarrow> u64 \<Rightarrow> ('d, dirSummary) walk) \<Rightarrow>
    'd DirNode \<Rightarrow> u64 \<Rightarrow> u64 \<Rightarrow> ('d, u64) walk" where
  "walkPage L E depth walk page offset entries =
     (let fb = pFanoutBits (params (weState E)); fanout = push_bit (unat fb) 1; kids = dKids page in
      if depth = 0 then
        let maxKids = (if fanout < entries then fanout else entries) in
        bind (check (length kids \<le> unat maxKids) (BadStructure ''leaf page kids'')) (\<lambda>_.
        walkLeaf L E offset kids 0)
      else
        let childCap = capacity (of_nat depth) fb;
            expectedKids = (if childCap < entries then 1 + (entries - 1) div childCap else 1) in
        bind (check (length kids = unat expectedKids) (BadStructure ''internal page kids'')) (\<lambda>_.
        walkKids walk childCap offset entries 0 kids 0))"

text \<open>The depth is a natural number here; it starts at the head's \<open>dirDepth\<close>, which is not 0, and decreases by one to
  1, so the first equation is never used.\<close>

primrec walkDir :: "('b, 'd) lib \<Rightarrow> ('b, 'd) walkEnv \<Rightarrow> nat \<Rightarrow> 'd link \<Rightarrow> u64 \<Rightarrow> u64 \<Rightarrow> ('d, dirSummary) walk" where
  "walkDir L E 0 node offset entries = fail NonTermination"
| "walkDir L E (Suc depth) node offset entries =
     bind (check (node \<noteq> None) (BadStructure ''null page'')) (\<lambda>_.
     bind (liftE (validateIndexCID node ''directory page'')) (\<lambda>c.
     bind (gets id) (\<lambda>w0. case dirMemo w0 (c, Suc depth, entries) of
       Some summary \<Rightarrow>
         bind (check (dsSegments summary = 0) (BadStructure ''shared subtree'')) (\<lambda>_.
         bind (addPaths (dsPaths summary)) (\<lambda>_. ret summary))
     | None \<Rightarrow>
         bind (check (\<not> dirActive w0 c) (BadStructure ''cyclic subtree'')) (\<lambda>_.
         bind (check (\<not> dirContains w0 c) (BadStructure ''shared subtree'')) (\<lambda>_.
         bind (addPaths 1) (\<lambda>_.
         bind (readDir L E c) (\<lambda>page.
         bind (modify (\<lambda>w. w\<lparr>dirActive := (dirActive w)(c := True)\<rparr>)) (\<lambda>_.
         deferred (\<lambda>w. w\<lparr>dirActive := (dirActive w)(c := False)\<rparr>)
           (bind (walkPage L E depth (walkDir L E depth) page offset entries) (\<lambda>segmentCount.
            bind (gets bPaths) (\<lambda>paths.
            let summary = \<lparr>dsPaths = paths - bPaths w0, dsSegments = segmentCount\<rparr> in
            bind (modify (\<lambda>w. w\<lparr>dirMemo := (dirMemo w)((c, Suc depth, entries) \<mapsto> summary),
              dirContains := (dirContains w)(c := (segmentCount \<noteq> 0))\<rparr>)) (\<lambda>_.
            ret summary))))))))))))"

definition rememberSegments :: "'d structureCache \<Rightarrow> 'd structureCache \<Rightarrow> 'd structureCache" where
  "rememberSegments cache proofs =
     (if proofs = [] then cache
      else foldr (\<lambda>(k, v) c. AList.update k v c) proofs
        (if MaxEnumerationOutputs + 1 < length cache + length proofs then [] else cache))"

text \<open>\<open>generation\<close> and \<open>generation'\<close> are what the store reports before and after the walk.\<close>

definition enumerateWalk :: "('b, 'd) lib \<Rightarrow> ('b, 'd) walkEnv \<Rightarrow> ('d, 'd Enumeration) walk" where
  "enumerateWalk L E = (let st = weState E in
     bind (liftE (validateDirectoryGeometry st)) (\<lambda>(openW, sealedCount).
     bind (liftE (case root st of None \<Rightarrow> Inl UndefinedCID | Some c \<Rightarrow> Inr c)) (\<lambda>rootCID.
     bind (readNode L E rootCID) (\<lambda>_.
     let e = \<lparr>emParams = params st, emRoot = root st, emSyncedTo = syncedTo st, emCovered = covered st,
              emDirPages = [], emSealed = [], emOpen = openSeg st, emOpenOrd = 0\<rparr> in
     if \<not> covered st then ret e
     else
       bind (validateSegment L E (openSeg st) openW (syncedTo st) True) (\<lambda>_.
       bind (if 0 < dirDepth st then bind (walkDir L E (unat (dirDepth st)) (dir st) 0 sealedCount) (\<lambda>_. ret ()) else ret ()) (\<lambda>_.
       bind (gets id) (\<lambda>w.
       bind (check (Some (bPaths w) = canonicalDirectoryPages sealedCount (pFanoutBits (params st))) (BadGeometry ''paths'')) (\<lambda>_.
       ret (e\<lparr>emOpenOrd := openW, emDirPages := outPages w, emSealed := outSealed w\<rparr>)))))))))"

definition Enumerate :: "('b, 'd) lib \<Rightarrow> u64 option \<Rightarrow> u64 option \<Rightarrow> ('b, 'd, 'd Enumeration) eng" where
  "Enumerate L generation generation' =
     bind (gets id) (\<lambda>h.
     case enumerateWalk L \<lparr>weBlocks = enBlocks h, weStructure = enStructure h, weState = cur h, weGeneration = generation\<rparr> newWalker of
       (Inl e, _) \<Rightarrow> fail e
     | (Inr e, w) \<Rightarrow>
         if \<not> covered (cur h) then ret e
         else bind (check (generation = None \<or> generation' = generation) (BadStructure ''collection generation changed'')) (\<lambda>_.
              bind (modify (\<lambda>s. s\<lparr>enStructure := rememberSegments (enStructure s) (newProofs w)\<rparr>)) (\<lambda>_.
              ret e)))"

section \<open>The tree the walk must find\<close>

definition kidsOf :: "('b, 'd) lib \<Rightarrow> ('b, 'd) blocks \<Rightarrow> 'd cid \<Rightarrow> 'd link list" where
  "kidsOf L bs c = (case validatingGet L bs c of Inl _ \<Rightarrow> []
     | Inr b \<Rightarrow> (case DecodeDirNode L b of Inl _ \<Rightarrow> [] | Inr page \<Rightarrow> dKids page))"

text \<open>The non-null leaves below a link, with their positions, and the pages on the way to them. \<open>K\<close> gives the kids of a
  page and \<open>F\<close> is the fan-out.\<close>

primrec leavesOf :: "('d cid \<Rightarrow> 'd link list) \<Rightarrow> nat \<Rightarrow> nat \<Rightarrow> 'd link \<Rightarrow> nat \<Rightarrow> (nat \<times> 'd cid) list" where
  "leavesOf K F 0 l i = (case l of None \<Rightarrow> [] | Some c \<Rightarrow> [(i, c)])"
| "leavesOf K F (Suc d) l i = (case l of None \<Rightarrow> []
     | Some c \<Rightarrow> concat (map (\<lambda>(j, kid). leavesOf K F d kid (i + j * F ^ d)) (enumerate 0 (K c))))"

primrec pagesOf :: "('d cid \<Rightarrow> 'd link list) \<Rightarrow> nat \<Rightarrow> 'd link \<Rightarrow> 'd cid list" where
  "pagesOf K 0 l = []"
| "pagesOf K (Suc d) l = (case l of None \<Rightarrow> [] | Some c \<Rightarrow> c # concat (map (pagesOf K d) (K c)))"

lemma leavesOf_shift: "leavesOf K F d l (i + m) = map (\<lambda>(n, c). (i + n, c)) (leavesOf K F d l m)"
proof (induction d arbitrary: l i m)
  case (Suc d)
  have "leavesOf K F d kid (i + m + j * F ^ d) = map (\<lambda>(n, c). (i + n, c)) (leavesOf K F d kid (m + j * F ^ d))" for j kid
    using Suc.IH [of kid i "m + j * F ^ d"] by (simp add: add.assoc)
  then show ?case by (auto simp: map_concat case_prod_unfold o_def split: option.splits)
qed (simp split: option.splits)

lemma leavesOf_empty: "leavesOf K F d l i = [] \<Longrightarrow> leavesOf K F d l m = []"
  using leavesOf_shift [of K F d l i 0] leavesOf_shift [of K F d l m 0] by simp

section \<open>What a segment proof says\<close>

definition proofOk :: "('b, 'd) lib \<Rightarrow> 'd cid \<Rightarrow> segmentProof \<Rightarrow> bool" where
  "proofOk L c proof \<longleftrightarrow> (\<exists>b seg. prefixSum L (cidPrefix c) b = Some c \<and> DecodeSegment L b = Inr seg \<and> segmentShape seg = Inr proof)"

lemma proofOkI:
  "prefixSum L (cidPrefix c) b = Some c \<Longrightarrow> DecodeSegment L b = Inr seg \<Longrightarrow> segmentShape seg = Inr pf \<Longrightarrow> proofOk L c pf"
  by (auto simp: proofOk_def)

definition proofsOk :: "('b, 'd) lib \<Rightarrow> 'd structureCache \<Rightarrow> bool" where
  "proofsOk L cache \<longleftrightarrow> (\<forall>(c, cp)\<in>set cache. proofOk L c (cpProof cp))"

lemma proofsOk_simps: "proofsOk L []" "proofsOk L ((c, cp) # cache) \<longleftrightarrow> proofOk L c (cpProof cp) \<and> proofsOk L cache"
  by (simp_all add: proofsOk_def)

lemma set_update: "set (AList.update k v al) \<subseteq> insert (k, v) (set al)"
  by (induction al) auto

lemma proofsOk_update: "proofsOk L cache \<Longrightarrow> proofOk L c (cpProof cp) \<Longrightarrow> proofsOk L (AList.update c cp cache)"
  using set_update [of c cp cache] by (fastforce simp: proofsOk_def)

lemma proofsOk_lookup: "proofsOk L cache \<Longrightarrow> map_of cache c = Some cp \<Longrightarrow> proofOk L c (cpProof cp)"
  by (auto simp: proofsOk_def dest: map_of_SomeD)

lemma rememberSegments_ok: "proofsOk L cache \<Longrightarrow> proofsOk L proofs \<Longrightarrow> proofsOk L (rememberSegments cache proofs)"
proof -
  assume c: "proofsOk L cache" and p: "proofsOk L proofs"
  have "proofsOk L (foldr (\<lambda>(k, v) c. AList.update k v c) proofs start)" if "proofsOk L start" for start
    using p by (induction proofs) (auto simp: that proofsOk_simps intro: proofsOk_update)
  with c show ?thesis by (simp add: rememberSegments_def proofsOk_def [of L "[]"])
qed

definition blobLinkOk :: "'d link \<Rightarrow> bool" where
  "blobLinkOk l \<longleftrightarrow> (\<exists>c. l = Some c \<and> cidVersion c = 1 \<and> cidCodec c = codecRaw \<and> cidMhType c = SHA2_256 \<and> cidMhLen c = 32)"

lemma validateRowCIDs_iff: "validateRowCIDs rows = Inr () \<longleftrightarrow> (\<forall>r\<in>set rows. \<forall>e\<in>set (rEntries r). blobLinkOk (eBlob e))"
proof -
  have e: "validateEntryCIDs es = Inr () \<longleftrightarrow> (\<forall>e\<in>set es. blobLinkOk (eBlob e))" for es :: "'a RefEntry list"
    by (induction es) (auto simp: bindE_Inr_iff validateBlobCID_def blobLinkOk_def split: option.splits)
  show ?thesis by (induction rows) (auto simp: bindE_Inr_iff e)
qed

text \<open>The block named by \<open>c\<close> is a segment fit for window \<open>v\<close> of a head: it starts at the window, its rows lie in the window
  at or after the origin and not after \<open>upper\<close>, and its links are blob CIDs.\<close>

definition segOk :: "('b, 'd) lib \<Rightarrow> Params \<Rightarrow> 'd cid \<Rightarrow> u64 \<Rightarrow> u64 \<Rightarrow> bool \<Rightarrow> bool" where
  "segOk L p c v upper open' \<longleftrightarrow> (\<exists>b seg. prefixSum L (cidPrefix c) b = Some c \<and> DecodeSegment L b = Inr seg \<and>
     sSlot0 seg = windowStart v (pSegBits p) \<and> (open' \<or> sRows seg \<noteq> []) \<and>
     (\<forall>r\<in>set (sRows seg). pOriginSlot p \<le> rSlot r \<and> windowStart v (pSegBits p) \<le> rSlot r \<and> rSlot r \<le> upper) \<and>
     (\<forall>r\<in>set (sRows seg). \<forall>e\<in>set (rEntries r). blobLinkOk (eBlob e)))"

lemma sorted_between:
  assumes "sorted_wrt (<) (map rSlot rows)" "r \<in> set rows"
  shows "rSlot (hd rows) \<le> rSlot r" "rSlot r \<le> rSlot (last rows)"
proof -
  show "rSlot (hd rows) \<le> rSlot r" using assms by (cases rows) auto
  show "rSlot r \<le> rSlot (last rows)" using assms by (cases rows rule: rev_cases) (auto simp: sorted_wrt_append)
qed

lemma DecodeSegment_valid: "DecodeSegment L b = Inr seg \<Longrightarrow> SegmentValidate seg = Inr ()"
  by (auto simp: DecodeSegment_def bindE_Inr_iff Let_def)

lemma proof_segOk:
  assumes "proofOk L c proof" "spSlot0 proof = windowStart v (pSegBits p)" "open' \<or> spRows proof \<noteq> 0"
    and range: "spRows proof = 0 \<or> (if windowStart v (pSegBits p) < pOriginSlot p then pOriginSlot p else windowStart v (pSegBits p)) \<le> spFirstRow proof
      \<and> spLastRow proof \<le> upper"
  shows "segOk L p c v upper open'"
proof -
  obtain b seg where b: "prefixSum L (cidPrefix c) b = Some c" "DecodeSegment L b = Inr seg" "segmentShape seg = Inr proof"
    using assms(1) by (auto simp: proofOk_def)
  then have rows: "\<forall>r\<in>set (sRows seg). \<forall>e\<in>set (rEntries r). blobLinkOk (eBlob e)"
    and pr: "spSlot0 proof = sSlot0 seg" "spRows proof = length (sRows seg)"
      "sRows seg \<noteq> [] \<Longrightarrow> spFirstRow proof = rSlot (hd (sRows seg)) \<and> spLastRow proof = rSlot (last (sRows seg))"
    by (auto simp: segmentShape_def bindE_Inr_iff validateRowCIDs_iff)
  have sorted: "sorted_wrt (<) (map rSlot (sRows seg))"
    using DecodeSegment_valid [OF b(2)] by (simp add: SegmentValidate_iff rowsOk_def)
  have "pOriginSlot p \<le> rSlot r \<and> windowStart v (pSegBits p) \<le> rSlot r \<and> rSlot r \<le> upper" if r: "r \<in> set (sRows seg)" for r
  proof -
    have ne: "sRows seg \<noteq> []" using r by auto
    then have "(if windowStart v (pSegBits p) < pOriginSlot p then pOriginSlot p else windowStart v (pSegBits p)) \<le> rSlot (hd (sRows seg))"
      "rSlot (last (sRows seg)) \<le> upper" using range pr by auto
    then show ?thesis using sorted_between [OF sorted r] by (auto split: if_splits intro: order_trans)
  qed
  with b rows pr assms(2,3) show ?thesis unfolding segOk_def by auto
qed

section \<open>The walk\<close>

abbreviation returns :: "('s, 'e, 'a) op \<Rightarrow> ('a \<Rightarrow> 's \<Rightarrow> bool) \<Rightarrow> 's \<Rightarrow> bool" where
  "returns m Q s \<equiv> wp m (\<lambda>_. True) Q s"

text \<open>The parts of the walker a node read leaves alone.\<close>

definition quiet :: "'d walker \<Rightarrow> 'd walker \<Rightarrow> bool" where
  "quiet w w' \<longleftrightarrow> dirNodes w' = dirNodes w \<and> dirMemo w' = dirMemo w \<and> outPages w' = outPages w \<and> outSealed w' = outSealed w \<and>
     bOutputs w' = bOutputs w"

lemma readNode_wp:
  assumes "\<And>b w'. validatingGet L (weBlocks E) c = Inr b \<Longrightarrow> quiet w w' \<Longrightarrow> wSegments w' = wSegments w \<Longrightarrow> newProofs w' = newProofs w \<Longrightarrow> Q b w'"
  shows "returns (readNode L E c) Q w"
  using assms by (auto simp: readNode_def addUnique_def wp_liftE quiet_def split: sum.splits)

lemma addUnique_wp:
  assumes "\<And>b w'. quiet w w' \<Longrightarrow> wSegments w' = wSegments w \<Longrightarrow> newProofs w' = newProofs w \<Longrightarrow> Q b w'"
  shows "returns (addUnique c) Q w"
  using assms by (auto simp: addUnique_def quiet_def)

lemma quiet_trans: "quiet a b \<Longrightarrow> quiet b c \<Longrightarrow> quiet a c"
  by (simp add: quiet_def)

lemma segmentProofFor_wp:
  assumes struct: "proofsOk L (weStructure E)" and new: "proofsOk L (newProofs w)"
    and post: "\<And>pf w'. proofOk L c pf \<Longrightarrow> quiet w w' \<Longrightarrow> wSegments w' = wSegments w \<Longrightarrow> proofsOk L (newProofs w') \<Longrightarrow> Q pf w'"
  shows "returns (segmentProofFor L E c) Q w"
proof -
  let ?c = "case map_of (newProofs w) c of Some p \<Rightarrow> Some p | None \<Rightarrow> map_of (weStructure E) c"
  have upd: "Q pf (w'\<lparr>newProofs := AList.update c \<lparr>cpProof = pf, cpGeneration = g, cpGenerationKnown = b\<rparr> (newProofs w')\<rparr>)"
    if "proofOk L c pf" "quiet w w'" "wSegments w' = wSegments w" "newProofs w' = newProofs w" for pf w' g b
    using that new by (intro post) (auto simp: quiet_def intro: proofsOk_update)
  show ?thesis
  proof (cases ?c)
    case (Some cp)
    then have ok: "proofOk L c (cpProof cp)" using struct new by (auto split: option.splits dest: proofsOk_lookup)
    show ?thesis
      unfolding segmentProofFor_def wp_bind [of "gets _"] wp_gets Some Let_def option.case
      using ok by (auto intro!: addUnique_wp readNode_wp post upd simp: new)
  next
    case None
    show ?thesis
      unfolding segmentProofFor_def wp_bind [of "gets _"] wp_gets None Let_def option.case
      by (auto intro!: readNode_wp upd intro: proofOkI simp: wp_liftE liftS_def map_sum_def split: sum.splits dest!: validatingGet_sound)
  qed
qed

lemma validateSegment_wp:
  assumes struct: "proofsOk L (weStructure E)" and new: "proofsOk L (newProofs w)"
    and post: "\<And>c w'. l = Some c \<Longrightarrow> wSegments w c = None \<Longrightarrow> quiet w w' \<Longrightarrow> wSegments w' = (wSegments w)(c \<mapsto> v) \<Longrightarrow>
      proofsOk L (newProofs w') \<Longrightarrow> segOk L (params (weState E)) c v upper open' \<Longrightarrow> Q () w'"
  shows "returns (validateSegment L E l v upper open') Q w"
proof (cases "validateIndexCID l ''Segment'' :: 'b err + 'b cid")
  case (Inr c)
  then have l: "l = Some c" by (auto simp: validateIndexCID_def split: option.splits if_splits)
  let ?w = "w\<lparr>wSegments := (wSegments w)(c \<mapsto> v)\<rparr>"
  let ?p = "params (weState E)"
  let ?fin = "\<lambda>pf. let p = params (weState E);
         wantSlot0 = windowStart v (pSegBits p);
         lower = (if wantSlot0 < pOriginSlot p then pOriginSlot p else wantSlot0) in
     bind (check (spSlot0 pf = wantSlot0) (BadStructure ''slot0'')) (\<lambda>_.
     bind (check (\<not> (\<not> open' \<and> spRows pf = 0)) (BadStructure ''empty sealed segment'')) (\<lambda>_.
     check (\<not> (0 < spRows pf \<and> (spFirstRow pf < lower \<or> upper < spLastRow pf))) (BadStructure ''rows outside the window'')))"
  have fin: "returns (?fin pf) Q w'" if fresh: "wSegments w c = None" and w': "proofOk L c pf" "quiet ?w w'" "wSegments w' = wSegments ?w" "proofsOk L (newProofs w')" for pf w'
  proof -
    have "Q () w'" if "spSlot0 pf = windowStart v (pSegBits ?p)" "open' \<or> spRows pf \<noteq> 0"
      "spRows pf = 0 \<or> (if windowStart v (pSegBits ?p) < pOriginSlot ?p then pOriginSlot ?p else windowStart v (pSegBits ?p)) \<le> spFirstRow pf \<and> spLastRow pf \<le> upper"
      using w' proof_segOk [OF w'(1) that] by (intro post [OF l fresh]) (auto simp: quiet_def)
    then show ?thesis by (auto simp: Let_def not_less)
  qed
  have "wSegments w c = None \<longrightarrow> returns (segmentProofFor L E c) (\<lambda>pf. returns (?fin pf) Q) ?w"
    by (rule impI, rule segmentProofFor_wp [OF struct]) (use new fin in auto)
  then show ?thesis
    unfolding validateSegment_def wp_bind [of "liftE _"] Inr wp_liftE_Inr wp_bind [of "gets _"] wp_gets wp_bind [of "check (_ = None) _"]
      wp_bind [of "modify _"] wp_bind [of "segmentProofFor _ _ _"] wp_simps(3,4)
    by (cases "wSegments w c = None") (simp_all only: if_True if_False simp_thms)
qed (simp add: validateSegment_def wp_liftE)

subsection \<open>The invariant of the walk\<close>

definition mkSealed :: "('b, 'd) walkEnv \<Rightarrow> nat \<times> 'd cid \<Rightarrow> 'd SealedSegment" where
  "mkSealed E = (\<lambda>(n, c). let v = dirBase (weState E) + of_nat n; k = pSegBits (params (weState E)) in
     \<lparr>slCID = c, slOrd = v, slFirstSlot = windowStart v k, slLastSlot = windowEnd v k\<rparr>)"

abbreviation envKids :: "('b, 'd) lib \<Rightarrow> ('b, 'd) walkEnv \<Rightarrow> 'd cid \<Rightarrow> 'd link list" where
  "envKids L E \<equiv> kidsOf L (weBlocks E)"

abbreviation envFan :: "('b, 'd) walkEnv \<Rightarrow> nat" where
  "envFan E \<equiv> fan (pFanoutBits (params (weState E)))"

definition pagesInv :: "('b, 'd) lib \<Rightarrow> ('b, 'd) walkEnv \<Rightarrow> 'd walker \<Rightarrow> bool" where
  "pagesInv L E w \<longleftrightarrow> distinct (outPages w) \<and> (\<forall>c. c \<in> set (outPages w) \<longleftrightarrow> dirNodes w c \<noteq> None) \<and>
     (\<forall>c page. dirNodes w c = Some page \<longrightarrow> envKids L E c = dKids page \<and> \<not> getFault (weBlocks E) c)"

definition memoInv :: "('b, 'd) lib \<Rightarrow> ('b, 'd) walkEnv \<Rightarrow> 'd walker \<Rightarrow> bool" where
  "memoInv L E w \<longleftrightarrow> (\<forall>c d n sm. dirMemo w (c, d, n) = Some sm \<longrightarrow> dsSegments sm = 0 \<longrightarrow>
     (\<forall>i. leavesOf (envKids L E) (envFan E) d (Some c) i = []) \<and> set (pagesOf (envKids L E) d (Some c)) \<subseteq> set (outPages w))"

definition sealedInv :: "('b, 'd) lib \<Rightarrow> ('b, 'd) walkEnv \<Rightarrow> 'd walker \<Rightarrow> bool" where
  "sealedInv L E w \<longleftrightarrow> distinct (map slCID (outSealed w)) \<and>
     (\<forall>e\<in>set (outSealed w). wSegments w (slCID e) \<noteq> None \<and> segOk L (params (weState E)) (slCID e) (slOrd e) (slLastSlot e) False) \<and>
     unat (bOutputs w) = length (outSealed w) \<and> length (outSealed w) \<le> MaxEnumerationOutputs"

definition walkInv :: "('b, 'd) lib \<Rightarrow> ('b, 'd) walkEnv \<Rightarrow> 'd walker \<Rightarrow> bool" where
  "walkInv L E w \<longleftrightarrow> proofsOk L (newProofs w) \<and> pagesInv L E w \<and> memoInv L E w \<and> sealedInv L E w"

text \<open>From \<open>w\<close> to \<open>w'\<close> the walk kept its invariant, put out the segments \<open>new\<close> and visited the pages \<open>pgs\<close>.\<close>

definition walked :: "('b, 'd) lib \<Rightarrow> ('b, 'd) walkEnv \<Rightarrow> 'd walker \<Rightarrow> (nat \<times> 'd cid) list \<Rightarrow> 'd cid set \<Rightarrow> 'd walker \<Rightarrow> bool" where
  "walked L E w new pgs w' \<longleftrightarrow> walkInv L E w' \<and> outSealed w' = outSealed w @ map (mkSealed E) new \<and> set (outPages w') = set (outPages w) \<union> pgs"

lemma walked_refl: "walkInv L E w \<Longrightarrow> walked L E w [] {} w"
  by (simp add: walked_def)

lemma walked_trans: "walked L E w n1 p1 w1 \<Longrightarrow> walked L E w1 n2 p2 w2 \<Longrightarrow> walked L E w (n1 @ n2) (p1 \<union> p2) w2"
  by (auto simp: walked_def)

lemma walked_inv: "walked L E w new pgs w' \<Longrightarrow> walkInv L E w'"
  by (simp add: walked_def)

lemma walked_count: "walked L E w new pgs w' \<Longrightarrow> length new \<le> MaxEnumerationOutputs"
  by (auto simp: walked_def walkInv_def sealedInv_def)

lemma output_walked:
  assumes w: "walkInv L E w" and fresh: "wSegments w c = None" and q: "quiet w w1" and seg: "wSegments w1 = (wSegments w)(c \<mapsto> v)"
    and pf: "proofsOk L (newProofs w1)" and ok: "segOk L (params (weState E)) c v (windowEnd v (pSegBits (params (weState E)))) False"
    and room: "bOutputs w1 < of_nat MaxEnumerationOutputs" and v: "v = dirBase (weState E) + of_nat n"
  shows "walked L E w [(n, c)] {} (w1\<lparr>bOutputs := bOutputs w1 + 1, outSealed := outSealed w1 @
    [\<lparr>slCID = c, slOrd = v, slFirstSlot = windowStart v (pSegBits (params (weState E))), slLastSlot = windowEnd v (pSegBits (params (weState E)))\<rparr>]\<rparr>)"
proof -
  have "unat (bOutputs w1 + 1) = Suc (unat (bOutputs w1))" "unat (bOutputs w1) < MaxEnumerationOutputs"
    using room by (simp_all add: unat_word_ariths word_less_nat_alt)
  then show ?thesis using w fresh q seg pf ok v
    by (auto simp: walked_def walkInv_def pagesInv_def memoInv_def sealedInv_def quiet_def mkSealed_def Let_def)
qed

lemma walkLeaf_wp:
  assumes struct: "proofsOk L (weStructure E)"
  shows "walkInv L E w \<Longrightarrow>
    (\<And>w' new. new = concat (map (\<lambda>(j, kid). leavesOf K F 0 kid (i + j)) (enumerate j kids)) \<Longrightarrow> walked L E w new {} w' \<Longrightarrow>
      Q (count + of_nat (length new)) w') \<Longrightarrow>
    returns (walkLeaf L E (of_nat (i + j)) kids count) Q w"
proof (induction kids arbitrary: w j count)
  case Nil
  then show ?case using Nil(2) [of "[]" w] by (simp add: walked_refl)
next
  case (Cons kid kids)
  have idx: "of_nat (i + j) + 1 = (of_nat (i + Suc j) :: u64)" by simp
  show ?case
  proof (cases kid)
    case None
    have "returns (walkLeaf L E (of_nat (i + Suc j)) kids count) Q w"
      by (rule Cons.IH [OF Cons.prems(1)], rule Cons.prems(2)) (use None in simp_all)
    then show ?thesis unfolding walkLeaf.simps None option.case idx .
  next
    case (Some c)
    let ?k = "pSegBits (params (weState E))" and ?v = "dirBase (weState E) + of_nat (i + j)"
    let ?e = "\<lparr>slCID = c, slOrd = ?v, slFirstSlot = windowStart ?v ?k, slLastSlot = windowEnd ?v ?k\<rparr>"
    let ?rest = "bind addOutput (\<lambda>_. bind (modify (\<lambda>w. w\<lparr>outSealed := outSealed w @ [?e]\<rparr>)) (\<lambda>_.
       walkLeaf L E (of_nat (i + Suc j)) kids (count + 1)))"
    have rest: "returns ?rest Q w1"
      if fresh: "wSegments w c = None" and w1: "quiet w w1" "wSegments w1 = (wSegments w)(c \<mapsto> ?v)" "proofsOk L (newProofs w1)"
        and ok: "segOk L (params (weState E)) c ?v (windowEnd ?v ?k) False" for w1
    proof (cases "bOutputs w1 < of_nat MaxEnumerationOutputs")
      case True
      note step = output_walked [OF Cons.prems(1) fresh w1 ok True refl]
      have "returns (walkLeaf L E (of_nat (i + Suc j)) kids (count + 1)) Q (w1\<lparr>bOutputs := bOutputs w1 + 1, outSealed := outSealed w1 @ [?e]\<rparr>)"
      proof (rule Cons.IH [OF walked_inv [OF step]])
        fix w' new assume new: "new = concat (map (\<lambda>(j, kid). leavesOf K F 0 kid (i + j)) (enumerate (Suc j) kids))"
          and wk: "walked L E (w1\<lparr>bOutputs := bOutputs w1 + 1, outSealed := outSealed w1 @ [?e]\<rparr>) new {} w'"
        have "Q (count + of_nat (length ((i + j, c) # new))) w'"
          by (rule Cons.prems(2)) (use Some new walked_trans [OF step wk] in simp_all)
        then show "Q (count + 1 + of_nat (length new)) w'" by (simp add: add.assoc)
      qed
      then show ?thesis using True by (simp add: addOutput_def not_le)
    qed (simp add: addOutput_def not_less)
    have "returns (validateSegment L E kid ?v (windowEnd ?v ?k) False) (\<lambda>_. returns ?rest Q) w"
      by (rule validateSegment_wp [OF struct], use Cons.prems(1) in \<open>simp add: walkInv_def\<close>) (rule rest, use Some in simp_all)
    then show ?thesis unfolding walkLeaf.simps Some option.case Let_def idx wp_bind [of "validateSegment _ _ _ _ _ _"] .
  qed
qed

lemma walkKids_wp:
  assumes walk: "\<And>kid i n w Q. walkInv L E w \<Longrightarrow>
      (\<And>sm w'. walked L E w (leavesOf K F dep kid i) (set (pagesOf K dep kid)) w' \<Longrightarrow>
         dsSegments sm = of_nat (length (leavesOf K F dep kid i)) \<Longrightarrow> Q sm w') \<Longrightarrow>
      returns (walk kid (of_nat i) n) Q w"
  shows "walkInv L E w \<Longrightarrow> (\<And>m. m < j + length kids \<Longrightarrow> of_nat m * childCap = (of_nat (m * F ^ dep) :: u64)) \<Longrightarrow>
    (\<And>w' new. new = concat (map (\<lambda>(j, kid). leavesOf K F dep kid (i + j * F ^ dep)) (enumerate j kids)) \<Longrightarrow>
      walked L E w new (set (concat (map (pagesOf K dep) kids))) w' \<Longrightarrow> Q (count + of_nat (length new)) w') \<Longrightarrow>
    returns (walkKids walk childCap (of_nat i) entries (of_nat j) kids count) Q w"
proof (induction kids arbitrary: w j count)
  case Nil
  then show ?case using Nil(3) [of "[]" w] by (simp add: walked_refl)
next
  case (Cons kid kids)
  have off: "of_nat i + of_nat j * childCap = (of_nat (i + j * F ^ dep) :: u64)"
    using Cons.prems(2) [of j] by simp
  have nxt: "of_nat j + 1 = (of_nat (Suc j) :: u64)" by simp
  let ?new = "leavesOf K F dep kid (i + j * F ^ dep)"
  have "returns (walk kid (of_nat (i + j * F ^ dep)) n)
      (\<lambda>sm. returns (walkKids walk childCap (of_nat i) entries (of_nat (Suc j)) kids (count + dsSegments sm)) Q) w" for n
  proof (rule walk [OF Cons.prems(1)])
    fix sm w1 assume w1: "walked L E w ?new (set (pagesOf K dep kid)) w1" and sm: "dsSegments sm = of_nat (length ?new)"
    show "returns (walkKids walk childCap (of_nat i) entries (of_nat (Suc j)) kids (count + dsSegments sm)) Q w1"
    proof (rule Cons.IH [OF walked_inv [OF w1]])
      fix w2 new assume new: "new = concat (map (\<lambda>(j, kid). leavesOf K F dep kid (i + j * F ^ dep)) (enumerate (Suc j) kids))"
        and w2: "walked L E w1 new (set (concat (map (pagesOf K dep) kids))) w2"
      have "Q (count + of_nat (length (?new @ new))) w2"
        by (rule Cons.prems(3)) (use new walked_trans [OF w1 w2] in simp_all)
      then show "Q (count + dsSegments sm + of_nat (length new)) w2" by (simp add: sm add.assoc)
    qed (use Cons.prems(2) in simp)
  qed
  then show ?case unfolding walkKids.simps wp_if Let_def off nxt wp_bind [of "walk _ _ _"] by simp
qed

lemma walkInv_upd [simp]:
  "walkInv L E (w\<lparr>bPaths := n\<rparr>) \<longleftrightarrow> walkInv L E w" "walkInv L E (w\<lparr>dirActive := a\<rparr>) \<longleftrightarrow> walkInv L E w"
  "walkInv L E (w\<lparr>dirContains := a\<rparr>) \<longleftrightarrow> walkInv L E w"
  by (simp_all add: walkInv_def pagesInv_def memoInv_def sealedInv_def)

lemma memoInv_mono:
  "memoInv L E w \<Longrightarrow> dirMemo w' = dirMemo w \<Longrightarrow> set (outPages w) \<subseteq> set (outPages w') \<Longrightarrow> memoInv L E w'"
  unfolding memoInv_def by (simp, blast)

lemma sealedInv_cong:
  "sealedInv L E w \<Longrightarrow> outSealed w' = outSealed w \<Longrightarrow> wSegments w' = wSegments w \<Longrightarrow> bOutputs w' = bOutputs w \<Longrightarrow> sealedInv L E w'"
  by (simp add: sealedInv_def)

lemma pagesInv_cong:
  "pagesInv L E w \<Longrightarrow> outPages w' = outPages w \<Longrightarrow> dirNodes w' = dirNodes w \<Longrightarrow> pagesInv L E w'"
  by (simp add: pagesInv_def)

lemma readDir_wp:
  assumes w: "walkInv L E w"
    and post: "\<And>page w'. envKids L E c = dKids page \<Longrightarrow> walked L E w [] {c} w' \<Longrightarrow> Q page w'"
  shows "returns (readDir L E c) Q w"
proof (cases "dirNodes w c")
  case (Some page)
  then have "envKids L E c = dKids page" "c \<in> set (outPages w)" using w by (auto simp: walkInv_def pagesInv_def)
  then show ?thesis using Some post [of page w] w by (simp add: readDir_def walked_def insert_absorb)
next
  case None
  have "Q page (w'\<lparr>dirNodes := (dirNodes w')(c \<mapsto> page), outPages := outPages w' @ [c]\<rparr>)"
    if "validatingGet L (weBlocks E) c = Inr b" "DecodeDirNode L b = Inr page" "quiet w w'" "wSegments w' = wSegments w" "newProofs w' = newProofs w" for b page w'
  proof (rule post)
    show kids: "envKids L E c = dKids page" using that by (simp add: kidsOf_def)
    show "walked L E w [] {c} (w'\<lparr>dirNodes := (dirNodes w')(c \<mapsto> page), outPages := outPages w' @ [c]\<rparr>)"
      unfolding walked_def walkInv_def
    proof (intro conjI)
      show "pagesInv L E (w'\<lparr>dirNodes := (dirNodes w')(c \<mapsto> page), outPages := outPages w' @ [c]\<rparr>)"
        using w that None kids validatingGet_stored [OF that(1)] by (auto simp: walkInv_def pagesInv_def quiet_def)
    qed (use w that in \<open>auto simp: walkInv_def quiet_def elim!: memoInv_mono sealedInv_cong\<close>)
  qed
  then show ?thesis using None
    by (auto simp: readDir_def wp_liftE liftS_def map_sum_def split: sum.splits intro!: readNode_wp)
qed

lemma memo_walked:
  assumes w': "walked L E w new pgs w'" and new: "new = leavesOf (envKids L E) (envFan E) d (Some c) i"
    and pgs: "pgs = set (pagesOf (envKids L E) d (Some c))" and sm: "dsSegments sm = of_nat (length new)"
  shows "walked L E w new pgs (w'\<lparr>dirMemo := (dirMemo w')((c, d, n) \<mapsto> sm), dirContains := dc, dirActive := da\<rparr>)"
proof -
  have none: "new = []" if "dsSegments sm = 0"
    using that sm walked_count [OF w'] by (simp add: u64_eq_iff unat_of_nat_u64)
  have "memoInv L E (w'\<lparr>dirMemo := (dirMemo w')((c, d, n) \<mapsto> sm)\<rparr>)"
    using w' none new pgs leavesOf_empty by (fastforce simp: walked_def walkInv_def memoInv_def)
  then have "memoInv L E (w'\<lparr>dirMemo := (dirMemo w')((c, d, n) \<mapsto> sm), dirContains := dc, dirActive := da\<rparr>)"
    by (rule memoInv_mono) simp_all
  then show ?thesis using w' by (auto simp: walked_def walkInv_def elim!: pagesInv_cong sealedInv_cong)
qed

lemma childCap_mult:
  assumes "fanoutOk fb" "depth \<le> 64" "m < unat (if capacity (of_nat depth) fb < entries then 1 + (entries - 1) div capacity (of_nat depth) fb else 1)"
  shows "of_nat m * capacity (of_nat depth) fb = (of_nat (m * fan fb ^ depth) :: u64)"
proof (cases "capacity (of_nat depth) fb < entries")
  case True
  have d: "unat (of_nat depth :: u64) = depth" using assms(2) by (simp add: unat_of_nat_u64)
  have "unat (capacity (of_nat depth) fb) < 18446744073709551615"
    using True unat_u64_less [of entries] by (simp add: word_less_nat_alt)
  then have "unat (capacity (of_nat depth) fb) = fan fb ^ depth"
    using unat_capacity [OF assms(1), of "of_nat depth"] assms(2) by (simp add: d min_def split: if_splits)
  then have "capacity (of_nat depth) fb = of_nat (fan fb ^ depth)" by (metis unat_of_nat_u64 u64_eq_iff unat_u64_less)
  then show ?thesis by simp
qed (use assms(3) in simp)

lemma walkPage_wp:
  fixes entries :: u64
  assumes fb: "fanoutOk (pFanoutBits (params (weState E)))" "depth \<le> 64" and struct: "proofsOk L (weStructure E)" and w: "walkInv L E w"
    and kids: "envKids L E c = dKids page"
    and IH: "\<And>kid i n w Q. walkInv L E w \<Longrightarrow>
      (\<And>sm w'. walked L E w (leavesOf (envKids L E) (envFan E) depth kid i) (set (pagesOf (envKids L E) depth kid)) w' \<Longrightarrow>
         dsSegments sm = of_nat (length (leavesOf (envKids L E) (envFan E) depth kid i)) \<Longrightarrow> Q sm w') \<Longrightarrow>
      returns (walk kid (of_nat i) n) Q w"
    and post: "\<And>w' new. new = leavesOf (envKids L E) (envFan E) (Suc depth) (Some c) i \<Longrightarrow>
      walked L E w new (set (concat (map (pagesOf (envKids L E) depth) (dKids page)))) w' \<Longrightarrow> Q (of_nat (length new)) w'"
  shows "returns (walkPage L E depth walk page (of_nat i) entries) Q w"
proof (cases "depth = 0")
  case True
  have "returns (walkLeaf L E (of_nat (i + 0)) (dKids page) 0) Q w"
  proof (rule walkLeaf_wp [OF struct w])
    fix w' new assume "new = concat (map (\<lambda>(j, kid). leavesOf (envKids L E) (envFan E) 0 kid (i + j)) (enumerate 0 (dKids page)))"
      "walked L E w new {} w'"
    then show "Q (0 + of_nat (length new)) w'" using True post [of new w'] by (simp add: kids)
  qed
  then show ?thesis using True by (simp add: walkPage_def Let_def)
next
  case False
  let ?cap = "capacity (of_nat depth) (pFanoutBits (params (weState E)))"
  have "returns (walkKids walk ?cap (of_nat i) entries (of_nat 0) (dKids page) 0) Q w"
    if len: "length (dKids page) = unat (if ?cap < entries then 1 + (entries - 1) div ?cap else 1)"
  proof (rule walkKids_wp [where L = L and E = E and w = w and K = "envKids L E" and F = "envFan E" and dep = depth, OF _ w])
    fix w' new
    assume "new = concat (map (\<lambda>(j, kid). leavesOf (envKids L E) (envFan E) depth kid (i + j * envFan E ^ depth)) (enumerate 0 (dKids page)))"
      "walked L E w new (set (concat (map (pagesOf (envKids L E) depth) (dKids page)))) w'"
    then show "Q (0 + of_nat (length new)) w'" using post [of new w'] by (simp add: kids)
  next
    fix m assume "m < 0 + length (dKids page)"
    then show "of_nat m * ?cap = of_nat (m * envFan E ^ depth)" using len by (intro childCap_mult [OF fb, of m entries]) simp
  qed (rule IH)
  then show ?thesis using False by (simp add: walkPage_def Let_def)
qed

lemma walkDir_wp:
  assumes fb: "fanoutOk (pFanoutBits (params (weState E)))" and struct: "proofsOk L (weStructure E)"
  shows "depth \<le> 64 \<Longrightarrow> walkInv L E w \<Longrightarrow>
    (\<And>sm w'. walked L E w (leavesOf (envKids L E) (envFan E) depth node i) (set (pagesOf (envKids L E) depth node)) w' \<Longrightarrow>
       dsSegments sm = of_nat (length (leavesOf (envKids L E) (envFan E) depth node i)) \<Longrightarrow> Q sm w') \<Longrightarrow>
    returns (walkDir L E depth node (of_nat i) entries) Q w"
proof (induction depth arbitrary: node i entries w Q)
  case (Suc depth)
  let ?new = "leavesOf (envKids L E) (envFan E) (Suc depth) node i"
  show ?case
  proof (cases "validateIndexCID node ''directory page'' :: 'a err + 'a cid")
    case (Inr c)
    then have node: "node = Some c" by (auto simp: validateIndexCID_def split: option.splits if_splits)
    show ?thesis
    proof (cases "dirMemo w (c, Suc depth, entries)")
      case (Some sm)
      have "Q sm (w\<lparr>bPaths := bPaths w + dsPaths sm\<rparr>)" if "dsSegments sm = 0"
      proof (rule Suc.prems(3))
        have memo: "?new = []" "set (pagesOf (envKids L E) (Suc depth) node) \<subseteq> set (outPages w)"
          using Some Suc.prems(2) that unfolding node walkInv_def memoInv_def by blast+
        then show "walked L E w ?new (set (pagesOf (envKids L E) (Suc depth) node)) (w\<lparr>bPaths := bPaths w + dsPaths sm\<rparr>)"
          unfolding memo(1) using Suc.prems(2) by (auto simp: walked_def)
        show "dsSegments sm = of_nat (length ?new)" unfolding memo(1) using that by simp
      qed
      then show ?thesis
        unfolding walkDir.simps node wp_bind [of "check (_ \<noteq> None) _"] wp_bind [of "liftE _"] Inr [unfolded node] wp_liftE_Inr wp_bind [of "gets id"] wp_gets id_apply
        using Some by (simp add: addPaths_def)
    next
      case None
      let ?fin = "\<lambda>n count. bind (modify (\<lambda>w. w\<lparr>dirMemo := (dirMemo w)((c, Suc depth, entries) \<mapsto> \<lparr>dsPaths = n, dsSegments = count\<rparr>),
              dirContains := (dirContains w)(c := (count \<noteq> 0))\<rparr>)) (\<lambda>_. ret \<lparr>dsPaths = n, dsSegments = count\<rparr>)"
      have "returns (walkPage L E depth (walkDir L E depth) page (of_nat i) entries)
          (\<lambda>count w2. returns (?fin (bPaths w2 - bPaths w) count) (\<lambda>a t. Q a (t\<lparr>dirActive := (dirActive t)(c := False)\<rparr>)) w2) (w1\<lparr>dirActive := aa\<rparr>)"
        if pg: "envKids L E c = dKids page" and w1: "walked L E w [] {c} w1" for page w1 aa
      proof (rule walkPage_wp [where i = i, OF fb _ struct _ pg])
        fix w2 new assume new: "new = leavesOf (envKids L E) (envFan E) (Suc depth) (Some c) i"
          and w2: "walked L E (w1\<lparr>dirActive := aa\<rparr>) new (set (concat (map (pagesOf (envKids L E) depth) (dKids page)))) w2"
        have wk: "walked L E w new (set (pagesOf (envKids L E) (Suc depth) (Some c))) w2"
          using w1 w2 pg by (auto simp: walked_def)
        have "Q sm (w2\<lparr>dirMemo := (dirMemo w2)((c, Suc depth, entries) \<mapsto> sm), dirContains := dc, dirActive := da\<rparr>)"
          if "dsSegments sm = of_nat (length new)" for sm dc da
          using memo_walked [OF wk new refl that] that by (intro Suc.prems(3)) (simp_all only: node new)
        then show "returns (?fin (bPaths w2 - bPaths w) (of_nat (length new))) (\<lambda>a t. Q a (t\<lparr>dirActive := (dirActive t)(c := False)\<rparr>)) w2"
          by simp
      qed (rule Suc.IH | use Suc.prems(1) walked_inv [OF w1] in simp)+
      then have "returns (readDir L E c) (\<lambda>page t. returns (walkPage L E depth (walkDir L E depth) page (of_nat i) entries)
          (\<lambda>count w2. returns (?fin (bPaths w2 - bPaths w) count) (\<lambda>a t. Q a (t\<lparr>dirActive := (dirActive t)(c := False)\<rparr>)) w2)
          (t\<lparr>dirActive := (dirActive t)(c := True)\<rparr>)) (w\<lparr>bPaths := bPaths w + 1\<rparr>)"
        by (intro readDir_wp) (use Suc.prems(2) in \<open>auto simp: walked_def\<close>)
      then show ?thesis
        unfolding walkDir.simps node wp_bind [of "check (_ \<noteq> None) _"] wp_bind [of "liftE _"] Inr [unfolded node] wp_liftE_Inr wp_bind [of "gets id"] wp_gets id_apply
        using None by (simp add: addPaths_def wp_deferred Let_def)
    qed
  qed (simp add: wp_liftE)
qed simp

section \<open>What a successful enumeration says\<close>

text \<open>The result is exactly the tree below the directory root: each page once, each segment once and in its window, with the
  pages readable.\<close>

definition enumerated :: "('b, 'd) lib \<Rightarrow> ('b, 'd) blocks \<Rightarrow> 'd state \<Rightarrow> 'd Enumeration \<Rightarrow> bool" where
  "enumerated L bs st e \<longleftrightarrow> (let p = params st; F = fan (pFanoutBits p); d = unat (dirDepth st);
       at = (\<lambda>(n, c). let v = dirBase st + of_nat n in
         \<lparr>slCID = c, slOrd = v, slFirstSlot = windowStart v (pSegBits p), slLastSlot = windowEnd v (pSegBits p)\<rparr>) in
     emParams e = p \<and> emRoot e = root st \<and> emSyncedTo e = syncedTo st \<and> emCovered e = covered st \<and> emOpen e = openSeg st \<and>
     emSealed e = map at (leavesOf (kidsOf L bs) F d (dir st) 0) \<and>
     set (emDirPages e) = set (pagesOf (kidsOf L bs) d (dir st)) \<and> distinct (emDirPages e) \<and>
     (\<forall>c\<in>set (emDirPages e). \<not> getFault bs c) \<and>
     distinct (map slCID (emSealed e)) \<and> length (emSealed e) \<le> MaxEnumerationOutputs \<and>
     (\<forall>x\<in>set (emSealed e). segOk L p (slCID x) (slOrd x) (slLastSlot x) False) \<and>
     (covered st \<longrightarrow> emOpenOrd e = ord (syncedTo st + 1) (pSegBits p) \<and>
        (\<exists>c. openSeg st = Some c \<and> segOk L p c (emOpenOrd e) (syncedTo st) True)))"

lemma newWalker_inv: "walkInv L E newWalker"
  by (simp add: walkInv_def newWalker_def pagesInv_def memoInv_def sealedInv_def proofsOk_def)

lemma geometry_Inr:
  assumes "validateDirectoryGeometry st = Inr (w, n)" "fanoutOk (pFanoutBits (params st))"
  shows "unat (dirDepth st) \<le> 64" "covered st \<Longrightarrow> w = ord (syncedTo st + 1) (pSegBits (params st))"
    "\<not> covered st \<Longrightarrow> dirDepth st = 0 \<and> dir st = None"
proof -
  note d = canonicalDepth_depthFor [OF assms(2), of n]
  have c: "covered st \<longrightarrow> dirDepth st = canonicalDepth n (pFanoutBits (params st)) \<and> w = ord (syncedTo st + 1) (pSegBits (params st))"
    and u: "\<not> covered st \<longrightarrow> dirDepth st = 0 \<and> dir st = None"
    using assms(1) by (auto simp: validateDirectoryGeometry_def Let_def split: if_splits option.splits)
  show "unat (dirDepth st) \<le> 64" using c u d(2) by (cases "covered st") auto
  show "w = ord (syncedTo st + 1) (pSegBits (params st))" if "covered st"
    using c that by simp
  show "dirDepth st = 0 \<and> dir st = None" if "\<not> covered st" using u that by simp
qed

lemma quiet_walkInv:
  "walkInv L E w \<Longrightarrow> quiet w w' \<Longrightarrow> wSegments w' = wSegments w \<Longrightarrow> proofsOk L (newProofs w') \<Longrightarrow> walkInv L E w'"
  by (auto simp: walkInv_def quiet_def elim!: pagesInv_cong memoInv_mono sealedInv_cong)

lemma newWalker_quiet:
  assumes "quiet newWalker w" "proofsOk L (newProofs w)"
  shows "walkInv L E w" "outSealed w = []" "outPages w = []"
  using assms by (simp_all add: quiet_def newWalker_def walkInv_def pagesInv_def memoInv_def sealedInv_def)

lemma enumerateWalk_wp:
  assumes fb: "fanoutOk (pFanoutBits (params (weState E)))" and struct: "proofsOk L (weStructure E)"
    and depth0: "dirDepth (weState E) = 0 \<Longrightarrow> dir (weState E) = None"
    and post: "\<And>e w. enumerated L (weBlocks E) (weState E) e \<Longrightarrow> proofsOk L (newProofs w) \<Longrightarrow> Q e w"
  shows "returns (enumerateWalk L E) Q newWalker"
proof (cases "validateDirectoryGeometry (weState E)")
  case (Inr g)
  obtain openW n where g: "validateDirectoryGeometry (weState E) = Inr (openW, n)" using Inr by (cases g) auto
  note geo = geometry_Inr [OF g fb]
  let ?st = "weState E"
  let ?e = "\<lparr>emParams = params ?st, emRoot = root ?st, emSyncedTo = syncedTo ?st, emCovered = covered ?st,
              emDirPages = [], emSealed = [], emOpen = openSeg ?st, emOpenOrd = 0\<rparr>"
  have unc: "Q ?e w" if "\<not> covered ?st" "proofsOk L (newProofs w)" for w
    by (rule post [OF _ that(2)]) (use geo(3) that(1) in \<open>simp add: enumerated_def Let_def\<close>)
  have fin: "Q (?e\<lparr>emOpenOrd := openW, emDirPages := outPages w, emSealed := outSealed w\<rparr>) w"
    if "covered ?st" "segOk L (params ?st) c openW (syncedTo ?st) True" "openSeg ?st = Some c"
      and wk: "walked L E w0 (leavesOf (envKids L E) (envFan E) (unat (dirDepth ?st)) (dir ?st) 0)
        (set (pagesOf (envKids L E) (unat (dirDepth ?st)) (dir ?st))) w" "outSealed w0 = []" "outPages w0 = []" for c w w0
  proof (rule post)
    show "proofsOk L (newProofs w)" using wk by (simp add: walked_def walkInv_def)
    show "enumerated L (weBlocks E) ?st (?e\<lparr>emOpenOrd := openW, emDirPages := outPages w, emSealed := outSealed w\<rparr>)"
      using wk that geo(2) by (auto simp: enumerated_def walked_def walkInv_def sealedInv_def pagesInv_def mkSealed_def Let_def)
  qed
  let ?dir = "if 0 < dirDepth ?st then bind (walkDir L E (unat (dirDepth ?st)) (dir ?st) 0 n) (\<lambda>_. ret ()) else ret ()"
  have dir: "returns ?dir (\<lambda>_ w. Q (?e\<lparr>emOpenOrd := openW, emDirPages := outPages w, emSealed := outSealed w\<rparr>) w) w0"
    if c: "covered ?st" "segOk L (params ?st) c openW (syncedTo ?st) True" "openSeg ?st = Some c"
      and w0: "walkInv L E w0" "outSealed w0 = []" "outPages w0 = []" for c w0
  proof (cases "0 < dirDepth ?st")
    case True
    have "returns (walkDir L E (unat (dirDepth ?st)) (dir ?st) (of_nat 0) n)
        (\<lambda>_ w. Q (?e\<lparr>emOpenOrd := openW, emDirPages := outPages w, emSealed := outSealed w\<rparr>) w) w0"
      by (rule walkDir_wp [OF fb struct geo(1) w0(1)]) (rule fin [OF c _ w0(2,3)])
    with True show ?thesis by simp
  next
    case False
    then have "dirDepth ?st = 0" by (simp add: word_gt_0)
    then show ?thesis using depth0 fin [OF c _ w0(2,3), of w0] walked_refl [OF w0(1)] by simp
  qed
  have opened: "returns (validateSegment L E (openSeg ?st) openW (syncedTo ?st) True)
      (\<lambda>_. returns ?dir (\<lambda>_ w. Q (?e\<lparr>emOpenOrd := openW, emDirPages := outPages w, emSealed := outSealed w\<rparr>) w)) w"
    if "covered ?st" "quiet newWalker w" "proofsOk L (newProofs w)" for w
  proof (rule validateSegment_wp [OF struct that(3)])
    fix c w0 assume c: "openSeg ?st = Some c" "quiet w w0" "proofsOk L (newProofs w0)" "segOk L (params ?st) c openW (syncedTo ?st) True"
    show "returns ?dir (\<lambda>_ w. Q (?e\<lparr>emOpenOrd := openW, emDirPages := outPages w, emSealed := outSealed w\<rparr>) w) w0"
      using newWalker_quiet [OF quiet_trans [OF that(2) c(2)] c(3)] by (intro dir [OF that(1) c(4,1)]) auto
  qed
  have "returns (readNode L E rt) (\<lambda>_ w. if \<not> covered ?st then Q ?e w else
      returns (validateSegment L E (openSeg ?st) openW (syncedTo ?st) True)
      (\<lambda>_. returns ?dir (\<lambda>_ w. Q (?e\<lparr>emOpenOrd := openW, emDirPages := outPages w, emSealed := outSealed w\<rparr>) w)) w) newWalker" for rt
    by (rule readNode_wp) (use unc opened in \<open>auto simp: newWalker_def proofsOk_def\<close>)
  then have "returns (readNode L E rt) (\<lambda>_. returns (if \<not> covered ?st then ret ?e else
      bind (validateSegment L E (openSeg ?st) openW (syncedTo ?st) True) (\<lambda>_. bind ?dir (\<lambda>_. bind (gets id) (\<lambda>w.
       bind (check (Some (bPaths w) = canonicalDirectoryPages n (pFanoutBits (params ?st))) (BadGeometry ''paths'')) (\<lambda>_.
       ret (?e\<lparr>emOpenOrd := openW, emDirPages := outPages w, emSealed := outSealed w\<rparr>)))))) Q) newWalker" for rt
    by (rule wp_mono) (auto split: if_splits elim!: wp_mono)
  then show ?thesis unfolding enumerateWalk_def Let_def wp_bind [of "liftE _"] g wp_liftE_Inr case_prod_conv
    by (cases "root ?st") (simp_all only: wp_liftE wp_bind [of "readNode _ _ _"] option.case sum.case)
qed (simp add: enumerateWalk_def wp_liftE Let_def)

lemma Enumerate_wp:
  assumes "fanoutOk (pFanoutBits (params (cur s)))" "proofsOk L (enStructure s)" "dirDepth (cur s) = 0 \<Longrightarrow> dir (cur s) = None"
    and post: "\<And>e c. enumerated L (enBlocks s) (cur s) e \<Longrightarrow> proofsOk L c \<Longrightarrow> Q e (s\<lparr>enStructure := c\<rparr>)"
  shows "returns (Enumerate L g g') Q s"
proof -
  let ?E = "\<lparr>weBlocks = enBlocks s, weStructure = enStructure s, weState = cur s, weGeneration = g\<rparr>"
  have same: "enumerated L (enBlocks s) (cur s) e \<Longrightarrow> Q e s" for e using post [of e "enStructure s"] assms(2) by simp
  have "returns (enumerateWalk L ?E) (\<lambda>e w. Q e s \<and> Q e (s\<lparr>enStructure := rememberSegments (enStructure s) (newProofs w)\<rparr>)) newWalker"
    by (rule enumerateWalk_wp) (use assms(1-3) in \<open>auto intro!: post same rememberSegments_ok\<close>)
  then show ?thesis
    unfolding Enumerate_def wp_bind [of "gets id"] wp_gets id_apply
    by (cases "enumerateWalk L ?E newWalker"; cases "fst (enumerateWalk L ?E newWalker)") (simp_all add: wp_def [of "enumerateWalk _ _"])
qed

section \<open>The enumeration of a head the writer published\<close>

lemma ceilDiv_step: "0 < m \<Longrightarrow> m < n \<Longrightarrow> ceilDiv n m = Suc (ceilDiv (n - m) m)"
  by (simp add: ceilDiv_def le_div_geq le_mod_geq)

lemma chunks_step:
  assumes "0 < m" "xs \<noteq> []"
  shows "chunks m xs = take m xs # chunks m (drop m xs)"
proof (cases "length xs \<le> m")
  case True
  then show ?thesis using assms by (simp add: chunks_def ceilDiv_one ceilDiv_def [of 0])
next
  case False
  then show ?thesis using assms(1)
    by (simp add: chunks_def ceilDiv_step map_upt_Suc add.commute del: upt_Suc)
qed

text \<open>The non-null entries of a vector with their positions.\<close>

definition entriesAt :: "nat \<Rightarrow> 'd link list \<Rightarrow> (nat \<times> 'd cid) list" where
  "entriesAt i vec = concat (map (\<lambda>(j, l). case l of None \<Rightarrow> [] | Some c \<Rightarrow> [(j, c)]) (enumerate i vec))"

lemma entriesAt_append: "entriesAt i (xs @ ys) = entriesAt i xs @ entriesAt (i + length xs) ys"
  by (simp add: entriesAt_def enumerate_append_eq)

lemma entriesAt_Nil [simp]: "entriesAt i [] = []"
  by (simp add: entriesAt_def)

lemma entriesAt_chunks:
  assumes "0 < m"
  shows "concat (map (\<lambda>(j, ch). entriesAt (i + j * m) ch) (enumerate k (chunks m vec))) = entriesAt (i + k * m) vec"
proof (induction "length vec" arbitrary: vec k rule: less_induct)
  case less
  show ?case
  proof (cases "vec = []")
    case False
    have "concat (map (\<lambda>(j, ch). entriesAt (i + j * m) ch) (enumerate (Suc k) (chunks m (drop m vec)))) = entriesAt (i + Suc k * m) (drop m vec)"
      using False assms by (intro less) simp
    then have "concat (map (\<lambda>(j, ch). entriesAt (i + j * m) ch) (enumerate k (chunks m vec))) =
        entriesAt (i + k * m) (take m vec) @ entriesAt (i + Suc k * m) (drop m vec)"
      using False assms by (simp add: chunks_step)
    also have "\<dots> = entriesAt (i + k * m) (take m vec @ drop m vec)"
      unfolding entriesAt_append by (cases "length vec \<le> m") (simp_all add: add.assoc add.commute [of m])
    finally show ?thesis by simp
  qed (use assms in simp)
qed

lemma trim_split: "\<exists>n. kids = trimTrailingNulls kids @ replicate n None"
proof (induction kids rule: rev_induct)
  case (snoc k kids)
  then obtain n where "kids = trimTrailingNulls kids @ replicate n None" ..
  then have "kids @ [None] = trimTrailingNulls kids @ replicate (Suc n) None" by (metis append.assoc replicate_append_same replicate_Suc)
  moreover have "trimTrailingNulls (kids @ [None]) = trimTrailingNulls kids" by (simp add: trimTrailingNulls_def)
  ultimately have "k = None \<Longrightarrow> ?case" by (intro exI [of _ "Suc n"]) simp
  moreover have "k \<noteq> None \<Longrightarrow> ?case" by (intro exI [of _ 0]) (auto simp: trimTrailingNulls_def)
  ultimately show ?case by blast
qed (simp add: trimTrailingNulls_def)

lemma trim_set: "k \<in> set kids \<Longrightarrow> k \<noteq> None \<Longrightarrow> k \<in> set (trimTrailingNulls kids)"
  using arg_cong [where f = set, OF trim_split [of kids, THEN someI_ex]] by (auto split: if_splits)

lemma concat_trim:
  assumes "\<And>j. f j None = []"
  shows "concat (map (\<lambda>(j, kid). f j kid) (enumerate i (trimTrailingNulls kids))) = concat (map (\<lambda>(j, kid). f j kid) (enumerate i kids))"
proof -
  obtain n where n: "kids = trimTrailingNulls kids @ replicate n None" using trim_split by blast
  have "concat (map (\<lambda>(j, kid). f j kid) (enumerate k (replicate n None))) = []" for k n
    using assms by (auto simp: set_zip enumerate_eq_zip)
  then show ?thesis by (subst (2) n) (simp add: enumerate_append_eq)
qed

lemma leavesOf_None: "leavesOf K F d None i = []" "pagesOf K d None = []"
  by (cases d; simp)+

lemma kidsOf_page:
  assumes "lib_ok L" "pageStored L s kids" "pageCid L kids = Some c" "\<not> getFault (enBlocks s) c"
  shows "kidsOf L (enBlocks s) c = trimTrailingNulls kids"
  using assms dirC.roundtrip [OF assms(1), of "\<lparr>dKids = kids\<rparr>"]
  by (auto simp: pageStored_def pageCid_def kidsOf_def held_def has_get canonDirNode_def)

lemma leaves_canonical:
  assumes L: "lib_ok L" and F: "0 < F"
  shows "dirStored L s F d vec \<Longrightarrow> vec \<noteq> [] \<Longrightarrow> length vec \<le> F ^ d \<Longrightarrow>
    (\<And>c. c \<in> set (pagesOf (kidsOf L (enBlocks s)) d (dirRoot L F d vec)) \<Longrightarrow> \<not> getFault (enBlocks s) c) \<Longrightarrow>
    leavesOf (kidsOf L (enBlocks s)) F d (dirRoot L F d vec) i = entriesAt i vec"
proof (induction d arbitrary: vec i)
  case 0
  then obtain l where "vec = [l]" by (cases vec) auto
  then show ?case by (simp add: entriesAt_def split: option.splits)
next
  case (Suc d)
  let ?K = "kidsOf L (enBlocks s)" and ?kids = "map (dirRoot L F d) (chunks (F ^ d) vec)"
  obtain c where c: "pageCid L ?kids = Some c" using pageCid_Some [OF L] by blast
  then have K: "?K c = trimTrailingNulls ?kids" using Suc.prems(1,4) by (intro kidsOf_page [OF L]) auto
  have ch: "leavesOf ?K F d (dirRoot L F d ch) j = entriesAt j ch" if m: "ch \<in> set (chunks (F ^ d) vec)" for ch j
  proof (rule Suc.IH)
    show "ch \<noteq> []" "length ch \<le> F ^ d" using m F by (auto simp: chunks_def less_ceilDiv)
    fix p assume p: "p \<in> set (pagesOf ?K d (dirRoot L F d ch))"
    then have "dirRoot L F d ch \<noteq> None" by (intro notI) (simp add: leavesOf_None)
    then have "dirRoot L F d ch \<in> set (?K c)" using trim_set [of "dirRoot L F d ch" ?kids] m K by simp
    then show "\<not> getFault (enBlocks s) p" using p c by (intro Suc.prems(4)) auto
  qed (use Suc.prems(1) m in simp)
  have "leavesOf ?K F (Suc d) (dirRoot L F (Suc d) vec) i = concat (map (\<lambda>(j, kid). leavesOf ?K F d kid (i + j * F ^ d)) (enumerate 0 ?kids))"
    using c K by (simp add: concat_trim leavesOf_None)
  also have "\<dots> = concat (map (\<lambda>(j, ch). entriesAt (i + j * F ^ d) ch) (enumerate 0 (chunks (F ^ d) vec)))"
    by (rule arg_cong [of _ _ concat], rule nth_equalityI) (simp_all add: nth_enumerate_eq ch)
  also have "\<dots> = entriesAt i vec" using entriesAt_chunks [of "F ^ d" i 0 vec] F by simp
  finally show ?case .
qed

text \<open>The sealed windows of a head that have rows, ascending.\<close>

definition sealedWindows :: "Params \<Rightarrow> 'd Row list \<Rightarrow> u64 \<Rightarrow> u64 list" where
  "sealedWindows p rows x = filter (\<lambda>w. winRows (pSegBits p) w rows \<noteq> [])
     (map (\<lambda>i. baseOf p + of_nat i) [0..<unat (ord (x + 1) (pSegBits p)) - unat (baseOf p)])"

lemma entriesAt_map:
  "map (\<lambda>(j, c). (g j, Some c)) (entriesAt 0 (map f [0..<n])) = map (\<lambda>i. (g i, f i)) (filter (\<lambda>i. f i \<noteq> None) [0..<n])"
  by (induction n) (auto simp: entriesAt_append, auto simp: entriesAt_def)

lemma sealed_entries:
  assumes st: "segsStored L s p rows (unat (ord (x + 1) (pSegBits p)) - unat (baseOf p))"
  shows "map (\<lambda>(j, c). (baseOf p + of_nat j, Some c)) (entriesAt 0 (sealedVec L p rows (unat (ord (x + 1) (pSegBits p)) - unat (baseOf p)))) =
    map (\<lambda>w. (w, segCid L (segOf p rows w))) (sealedWindows p rows x)"
proof -
  let ?n = "unat (ord (x + 1) (pSegBits p)) - unat (baseOf p)"
  have some: "segLink L p rows (baseOf p + of_nat i) \<noteq> None \<longleftrightarrow> winRows (pSegBits p) (baseOf p + of_nat i) rows \<noteq> []" if "i < ?n" for i
    using st that segCid_Some [of L s "segOf p rows (baseOf p + of_nat i)"] by (auto simp: segLink_def segsStored_def)
  have "map (\<lambda>(j, c). (baseOf p + of_nat j, Some c)) (entriesAt 0 (sealedVec L p rows ?n)) = map (\<lambda>i. (baseOf p + of_nat i, segLink L p rows (baseOf p + of_nat i)))
      (filter (\<lambda>i. segLink L p rows (baseOf p + of_nat i) \<noteq> None) [0..<?n])"
    unfolding sealedVec_def by (rule entriesAt_map)
  also have "\<dots> = map (\<lambda>w. (w, segCid L (segOf p rows w))) (sealedWindows p rows x)"
    unfolding sealedWindows_def filter_map map_map o_def using some
    by (intro map_cong filter_cong) (auto simp: segLink_def)
  finally show ?thesis .
qed

lemma enumerated_windows:
  assumes L: "lib_ok L" and ok: "headOk L s (cur s) p rows (Some x)" and e: "enumerated L (enBlocks s) (cur s) e"
  shows "map (\<lambda>y. (slOrd y, Some (slCID y))) (emSealed e) = map (\<lambda>w. (w, segCid L (segOf p rows w))) (sealedWindows p rows x)"
proof -
  let ?st = "cur s" and ?n = "unat (ord (x + 1) (pSegBits p)) - unat (baseOf p)"
  let ?vec = "sealedVec L p rows ?n" and ?F = "fan (pFanoutBits p)" and ?d = "unat (dirDepth (cur s))" and ?K = "kidsOf L (enBlocks s)"
  have p: "params ?st = p" "dirBase ?st = baseOf p" and fb: "fanoutOk (pFanoutBits p)"
    and d: "dirOk L s (pFanoutBits p) ?vec (dir ?st) (dirDepth ?st)" and st: "segsStored L s p rows ?n"
    using ok by (auto simp: headOk_def bodyOk_def sealedOk_def paramsOk_def dirBase_def)
  have leaves: "leavesOf ?K ?F ?d (dir ?st) 0 = entriesAt 0 ?vec"
  proof (cases "?vec = []")
    case True
    then show ?thesis using d by (simp add: dirOk_def leavesOf_None)
  next
    case False
    then have v: "dir ?st = dirRoot L ?F ?d ?vec" "dirStored L s ?F ?d ?vec"
      using d [unfolded dirOk_def if_not_P [OF False]] by blast+
    have len: "length ?vec \<le> ?F ^ ?d" using dirOk_depth(1) [OF fb d] by (simp add: depthFor_def split: if_splits)
    show ?thesis unfolding v(1)
      by (rule leaves_canonical [OF L _ v(2) False len]) (use e v(1) p(1) in \<open>auto simp: enumerated_def Let_def\<close>)
  qed
  have "map (\<lambda>y. (slOrd y, Some (slCID y))) (emSealed e) = map (\<lambda>(j, c). (baseOf p + of_nat j, Some c)) (entriesAt 0 ?vec)"
    using e unfolding enumerated_def Let_def p leaves by (auto simp: o_def case_prod_unfold)
  also note sealed_entries [OF st]
  finally show ?thesis .
qed

lemma enumerated_empty:
  assumes "headOk L s (cur s) p rows None" "enumerated L (enBlocks s) (cur s) e"
  shows "emSealed e = [] \<and> emDirPages e = [] \<and> emOpen e = None"
  using assms by (auto simp: headOk_def bodyOk_def enumerated_def Let_def leavesOf_None)

end
