(* ===== verification/History.thy ===== *)
theory History
  imports ApplySpec Enumerate
begin

text \<open>
  Every archive a process can have made: one created by \<open>New\<close> and taken through any sequence of the operations of
  \<open>archive/\<close>, each of which may succeed or fail, while others add blocks to the store.
\<close>

section \<open>Histories\<close>

text \<open>Someone else's writes to the store: no block goes missing, and reads and writes may fail or work again.\<close>

definition elsewhere :: "('b, 'd) lib \<Rightarrow> ('b, 'd) engine \<Rightarrow> ('b, 'd) engine \<Rightarrow> bool" where
  "elsewhere L s t \<longleftrightarrow> (\<exists>bs. t = s\<lparr>enBlocks := bs\<rparr> \<and> (\<forall>c b. has L (enBlocks s) c b \<longrightarrow> has L bs c b))"

inductive reach :: "('b, 'd) lib \<Rightarrow> Params \<Rightarrow> ('b, 'd) engine \<Rightarrow> bool" for L p where
  created: "cacheOk L s \<Longrightarrow> proofsOk L (enStructure s) \<Longrightarrow> New L p s = (Inr st, t) \<Longrightarrow> reach L p t"
| others: "reach L p s \<Longrightarrow> elsewhere L s t \<Longrightarrow> reach L p t"
| applied: "reach L p s \<Longrightarrow> ApplyRefs L cfg batch n s = (r, t) \<Longrightarrow> reach L p t"
| truncated: "reach L p s \<Longrightarrow> Truncate L slot s = (r, t) \<Longrightarrow> reach L p t"
| retained: "reach L p s \<Longrightarrow> TruncateRetainingWindow L slot ws s = (r, t) \<Longrightarrow> reach L p t"
| emptied: "reach L p s \<Longrightarrow> TruncateToEmpty L s = (r, t) \<Longrightarrow> reach L p t"
| looked: "reach L p s \<Longrightarrow> LookupSlot L x s = (r, t) \<Longrightarrow> reach L p t"
| hashes: "reach L p s \<Longrightarrow> LookupVHs L x vhs s = (r', t) \<Longrightarrow> reach L p t"
| listed: "reach L p s \<Longrightarrow> Enumerate L g g' s = (e, t) \<Longrightarrow> reach L p t"
| reopened: "reach L p s \<Longrightarrow> CloneAt L s (root (cur s)) = (Inr (), t) \<Longrightarrow> reach L p t"

text \<open>What every reachable archive satisfies: it is the archive of some rows and some coverage.\<close>

definition archiveOk :: "('b, 'd) lib \<Rightarrow> Params \<Rightarrow> ('b, 'd) engine \<Rightarrow> bool" where
  "archiveOk L p s \<longleftrightarrow> cacheOk L s \<and> proofsOk L (enStructure s) \<and> (\<exists>rows syn. headOk L s (cur s) p rows syn)"

lemma wp_Inr: "wp m E Q s \<Longrightarrow> m s = (Inr a, t) \<Longrightarrow> Q a t"
  by (simp add: wp_def)

lemma deferred_Inr: "deferred f m s = (Inr a, t) \<Longrightarrow> \<exists>u. m s = (Inr a, u) \<and> t = f u"
  by (auto simp: deferred_def split: prod.splits)

lemma archiveOk_moves:
  assumes "moves L s t" "archiveOk L p s" "headOk L t (cur t) p rows syn"
  shows "archiveOk L p t"
proof -
  have "enStructure t = enStructure s" using assms(1) by (simp add: moves_def grows_def)
  then show ?thesis using assms(2,3) moves_cacheOk [OF assms(1)] unfolding archiveOk_def by auto
qed

lemma archiveOk_grows:
  assumes "grows L s t" "archiveOk L p s"
  shows "archiveOk L p t"
proof -
  obtain rows syn where "headOk L s (cur s) p rows syn" using assms(2) by (auto simp: archiveOk_def)
  then have "headOk L t (cur t) p rows syn" using headOk_grows [OF assms(1)] grows_cur [OF assms(1)] by simp
  then show ?thesis by (rule archiveOk_moves [OF grows_moves [OF assms(1)] assms(2)])
qed

lemma created_archiveOk:
  assumes L: "lib_ok L" and s: "cacheOk L s" "proofsOk L (enStructure s)" and new: "New L p s = (Inr st, t)"
  shows "archiveOk L p t"
proof -
  have chk: "pSegBits p \<le> 63" "\<not> (pFanoutBits p = 0 \<or> 32 < pFanoutBits p)" and pub: "publish L (emptyState p) s = (Inr st, t)"
    using new by (auto simp: New_def bind_Inr_iff check_def split: if_splits)
  obtain b c where "EncodeHead L (headObject (emptyState p)) = Inr (b, c)" using publish_Inr [OF pub] by blast
  then have "headNameRE (pName p)"
    using EncodeHead_Inr(1) by (fastforce simp: headObject_def emptyState_def HeadValidate_def ValidateHeadName_def bindE_Inr_iff split: if_splits)
  with chk have p: "paramsOk p" by (auto simp: paramsOk_def fanoutOk_def not_less word_less_nat_alt word_le_nat_alt u64_eq_iff)
  have "moves L s t \<and> headOk L t (cur t) p [] None"
    by (rule wp_Inr [OF New_wp [OF L p, where big = True and s = s and Q = "\<lambda>_ t. moves L s t \<and> headOk L t (cur t) p [] None"] new]) auto
  then show ?thesis using s by (auto simp: archiveOk_def moves_cacheOk) (simp add: moves_def grows_def)
qed

lemma applied_bound:
  assumes L: "lib_ok L" and ok: "headOk L s (cur s) p rows syn" and run: "ApplyRefs L cfg batch n s = (Inr r, t)"
  shows "n \<le> maxInt64"
proof (cases "covered (cur s) \<and> n \<le> syncedTo (cur s) \<and> lastSlot batch \<le> syncedTo (cur s)")
  case True
  then have "headOk L s (cur s) p rows (Some (syncedTo (cur s)))" using ok by (auto simp: headOk_def bodyOk_def split: option.splits)
  from headOk_bound [OF L this] True show ?thesis by (meson order_trans less_imp_le)
next
  case False
  have "\<exists>st resolved u v. applyBody L st resolved n u = (Inr r, v)"
    using run False by (auto simp: ApplyRefs_def bind_Inr_iff dest!: deferred_Inr) blast+
  then show ?thesis using applyBody_Inr by blast
qed

lemma applied_archiveOk:
  assumes L: "lib_ok L" and s: "archiveOk L p s" and run: "ApplyRefs L cfg batch n s = (r, t)"
  shows "archiveOk L p t"
proof (cases r)
  case (Inl e)
  then show ?thesis using ApplyRefs_fail [OF L, of cfg batch n] run s by (auto simp: failKeeps_def intro: archiveOk_grows)
next
  case (Inr a)
  obtain rows syn where ok: "cacheOk L s" "headOk L s (cur s) p rows syn" using s by (auto simp: archiveOk_def)
  from applied_bound [OF L ok(2)] run Inr have n: "n \<le> maxInt64" by simp
  have "True \<or> n < maxInt64" by simp
  from wp_Inr [OF ApplyRefs_wp [OF L ok n this refl], of cfg batch a t] run Inr show ?thesis by (blast intro: archiveOk_moves [OF _ s])
qed

lemma truncated_archiveOk:
  assumes L: "lib_ok L" and s: "archiveOk L p s" and run: "Truncate.truncate L slot ws retain s = (r, t)"
  shows "archiveOk L p t"
proof (cases r)
  case (Inl e)
  then show ?thesis using truncate_fail [OF L, of slot ws retain] run s by (auto simp: failKeeps_def intro: archiveOk_grows)
next
  case (Inr a)
  obtain rows syn where ok: "cacheOk L s" "headOk L s (cur s) p rows syn" using s by (auto simp: archiveOk_def)
  then have st: "params (cur s) = p" "syn = (if covered (cur s) then Some (syncedTo (cur s)) else None)"
    by (auto simp: headOk_def bodyOk_def split: option.splits)
  have c: "covered (cur s)" "slot \<le> syncedTo (cur s)" "pOriginSlot p \<le> slot"
    using run Inr st(1) by (auto simp: Truncate.truncate_def bind_Inr_iff Let_def not_less split: if_splits)
  then have ok': "headOk L s (cur s) p rows (Some (syncedTo (cur s)))" using ok st by simp
  have "wp (Truncate.truncate L slot ws retain) (\<lambda>e. envErr L True s e \<or> retain \<and> \<not> blobsHeld L s (upTo slot rows))
      (\<lambda>_ u. moves L s u \<and> headOk L u (cur u) p (upTo slot rows) (Some slot)) s"
    by (rule truncate_wp [OF L ok(1) ok' c(3,2)]) simp
  from wp_Inr [OF this] run Inr show ?thesis by (blast intro: archiveOk_moves [OF _ s])
qed

lemma emptied_archiveOk:
  assumes L: "lib_ok L" and s: "archiveOk L p s" and run: "TruncateToEmpty L s = (r, t)"
  shows "archiveOk L p t"
proof (cases r)
  case (Inl e)
  then show ?thesis using TruncateToEmpty_fail [OF L] run s by (auto simp: failKeeps_def intro: archiveOk_grows)
next
  case (Inr a)
  obtain rows syn where ok: "cacheOk L s" "headOk L s (cur s) p rows syn" using s by (auto simp: archiveOk_def)
  have "wp (TruncateToEmpty L) (envErr L True s) (\<lambda>_ t. moves L s t \<and> headOk L t (cur t) p [] None) s"
    by (rule TruncateToEmpty_wp [OF L ok(2)]) simp
  from wp_Inr [OF this] run Inr show ?thesis by (blast intro: archiveOk_moves [OF _ s])
qed

lemma stored_held:
  assumes "\<And>c b. held L s c b \<Longrightarrow> held L t c b"
  shows "segStored L s seg \<Longrightarrow> segStored L t seg" "dirStored L s F d vec \<Longrightarrow> dirStored L t F d vec"
    "segsStored L s p rows n \<Longrightarrow> segsStored L t p rows n" "dirOk L s fb vec dir0 depth \<Longrightarrow> dirOk L t fb vec dir0 depth"
    "sealedOk L s st p rows w \<Longrightarrow> sealedOk L t st p rows w"
proof -
  show seg: "segStored L s seg \<Longrightarrow> segStored L t seg" for seg using assms by (auto simp: segStored_def)
  have page: "pageStored L s kids \<Longrightarrow> pageStored L t kids" for kids using assms by (auto simp: pageStored_def)
  show dir: "dirStored L s F d vec \<Longrightarrow> dirStored L t F d vec" for F d vec by (induction d arbitrary: vec) (auto intro: page)
  show segs: "segsStored L s p rows n \<Longrightarrow> segsStored L t p rows n" by (auto simp: segsStored_def intro: seg)
  show dirOk: "dirOk L s fb vec dir0 depth \<Longrightarrow> dirOk L t fb vec dir0 depth" for fb vec dir0 depth by (auto simp: dirOk_def intro: dir)
  show "sealedOk L s st p rows w \<Longrightarrow> sealedOk L t st p rows w"
    using dirOk by (auto simp: sealedOk_def segsStored_def intro: seg)
qed

lemma headOk_held:
  assumes "\<And>c b. held L s c b \<Longrightarrow> held L t c b" "headOk L s st p rows syn"
  shows "headOk L t st p rows syn"
proof -
  have "bodyOk L t st p rows syn" using assms(2) stored_held(1,5) [OF assms(1)] unfolding headOk_def bodyOk_def
    by (auto split: option.splits)
  then show ?thesis using assms by (auto simp: headOk_def)
qed

lemma archiveOk_held:
  assumes mono: "\<And>c b. held L s c b \<Longrightarrow> held L t c b" and same: "enCache t = enCache s" "cur t = cur s"
    and pf: "proofsOk L (enStructure t)" and s: "archiveOk L p s"
  shows "archiveOk L p t"
proof -
  obtain rows syn where ok: "headOk L s (cur s) p rows syn" "cacheOk L s" using s by (auto simp: archiveOk_def)
  have "headOk L t (cur t) p rows syn" using headOk_held [OF mono ok(1)] same(2) by simp
  moreover have "cacheOk L t" using ok(2) mono unfolding cacheOk_def cacheSound_def same(1) by blast
  ultimately show ?thesis using pf by (auto simp: archiveOk_def)
qed

lemma others_archiveOk:
  assumes "archiveOk L p s" "elsewhere L s t"
  shows "archiveOk L p t"
  using assms(2) assms(1) by (intro archiveOk_held [OF _ _ _ _ assms(1)]) (auto simp: elsewhere_def held_def archiveOk_def)

lemma archiveOk_structure: "archiveOk L p s \<Longrightarrow> proofsOk L c \<Longrightarrow> archiveOk L p (s\<lparr>enStructure := c\<rparr>)"
  by (rule archiveOk_held [of L s]) (simp_all add: held_def)

lemma Enumerate_Inl: "Enumerate L g g' s = (Inl e, t) \<Longrightarrow> t = s"
  by (auto simp: Enumerate_def bind_Inl_iff bind_Inr_iff check_def split: prod.splits sum.splits if_splits)

lemma dirOk_zero:
  assumes "fanoutOk fb" "dirOk L s fb vec dir0 0"
  shows "dir0 = None"
proof -
  have "vec = []" using dirOk_depth(1) [OF assms] by (simp add: depthFor_def split: if_splits)
  then show ?thesis using assms(2) by (simp add: dirOk_def)
qed

lemma headOk_walkable:
  assumes "headOk L s st p rows syn"
  shows "fanoutOk (pFanoutBits (params st))" "dirDepth st = 0 \<Longrightarrow> dir st = None"
proof -
  have b: "bodyOk L s st p rows syn" using assms by (simp add: headOk_def)
  then show fb: "fanoutOk (pFanoutBits (params st))" by (simp add: bodyOk_def paramsOk_def)
  show "dir st = None" if "dirDepth st = 0"
  proof (cases syn)
    case (Some x)
    then have "dirOk L s (pFanoutBits p) (sealedVec L p rows (unat (ord (x + 1) (pSegBits p)) - unat (baseOf p))) (dir st) 0" "params st = p"
      using b that by (simp_all add: bodyOk_def sealedOk_def)
    with fb show ?thesis by (auto intro: dirOk_zero)
  qed (use b in \<open>simp add: bodyOk_def\<close>)
qed

lemma listed_archiveOk:
  assumes s: "archiveOk L p s" and run: "Enumerate L g g' s = (r, t)"
  shows "archiveOk L p t"
proof (cases r)
  case (Inl e)
  then show ?thesis using Enumerate_Inl run s by metis
next
  case (Inr a)
  obtain rows syn where ok: "headOk L s (cur s) p rows syn" "proofsOk L (enStructure s)" using s by (auto simp: archiveOk_def)
  note w = headOk_walkable [OF ok(1)]
  have "wp (Enumerate L g g') (\<lambda>_. True) (\<lambda>_. archiveOk L p) s"
    by (rule Enumerate_wp [OF w(1) ok(2) w(2)]) (simp_all add: archiveOk_structure [OF s])
  from wp_Inr [OF this] run Inr show ?thesis by blast
qed

lemma load_published:
  assumes L: "lib_ok L" and ok: "headOk L s st p rows syn" and bs: "enBlocks s' = enBlocks s" and run: "LoadHead L (root st) s' = (Inr (), t)"
  shows "t = s'\<lparr>cur := st\<rparr>"
proof -
  obtain b c where enc: "EncodeHead L (headObject st) = Inr (b, c)" "held L s c b" "root st = Some c" and body: "bodyOk L s st p rows syn"
    using ok by (auto simp: headOk_def)
  have dec: "DecodeHead L b = Inr (headObject st)" using headC.roundtrip [OF L enc(1)] by simp
  have st: "stateOfHead (headObject st) c = st"
    using body enc(3) by (cases st) (auto simp: stateOfHead_def headObject_def bodyOk_def split: option.splits)
  have "\<exists>data obj. validatingGet L (enBlocks s') c = Inr data \<and> DecodeHead L data = Inr obj \<and> t = s'\<lparr>cur := stateOfHead obj c\<rparr>"
    using run enc(3) by (auto simp: LoadHead_def loadState_def bind_Inr_iff Let_def blocksGet_same liftS_def map_sum_def check_def
        eq_commute [of "Inr _" "validatingGet _ _ _"] validateIndexCID_def split: if_splits sum.splits)
  then show ?thesis using enc(2) dec st by (auto simp: bs held_def has_get split: if_splits)
qed

lemma reopened_archiveOk:
  assumes L: "lib_ok L" and s: "archiveOk L p s" and run: "CloneAt L s (root (cur s)) = (Inr (), t)"
  shows "cur t = cur s" "archiveOk L p t"
proof -
  obtain rows syn where ok: "headOk L s (cur s) p rows syn" "proofsOk L (enStructure s)" "cacheOk L s" using s by (auto simp: archiveOk_def)
  let ?s = "newHead (enBlocks s) (enCache s) (enStructure s)"
  have t: "t = ?s\<lparr>cur := cur s\<rparr>" using load_published [OF L ok(1), of ?s t] run by (simp add: CloneAt_def newHead_def)
  then show "cur t = cur s" by simp
  show "archiveOk L p t" using s by (rule archiveOk_held [rotated -1]) (simp_all add: t held_def newHead_def ok(2))
qed

lemma reach_archiveOk:
  assumes "lib_ok L" "reach L p s"
  shows "archiveOk L p s"
  using assms(2)
proof induction
  case (created s st t)
  then show ?case by (rule created_archiveOk [OF assms(1)])
next
  case (others s t)
  from others.IH others.hyps(2) show ?case by (rule others_archiveOk)
next
  case (applied s cfg batch n r t)
  from applied.IH applied.hyps(2) show ?case by (rule applied_archiveOk [OF assms(1)])
next
  case (truncated s slot r t)
  from truncated.IH truncated.hyps(2) [unfolded Truncate_def] show ?case by (rule truncated_archiveOk [OF assms(1)])
next
  case (retained s slot ws r t)
  from retained.IH retained.hyps(2) [unfolded TruncateRetainingWindow_def] show ?case by (rule truncated_archiveOk [OF assms(1)])
next
  case (emptied s r t)
  from emptied.IH emptied.hyps(2) show ?case by (rule emptied_archiveOk [OF assms(1)])
next
  case (looked s x r t)
  show ?case by (rule archiveOk_grows [OF keepsD [OF Lookup_grows(1) looked.hyps(2)] looked.IH])
next
  case (hashes s x vhs r' t)
  show ?case by (rule archiveOk_grows [OF keepsD [OF Lookup_grows(2) hashes.hyps(2)] hashes.IH])
next
  case (listed s g g' e t)
  from listed.IH listed.hyps(2) show ?case by (rule listed_archiveOk)
next
  case (reopened s t)
  from reopened.IH reopened.hyps(2) show ?case by (rule reopened_archiveOk(2) [OF assms(1)])
qed

section \<open>What the lookups tell about an archive\<close>

lemma rows_by_slot:
  assumes "rowsOk rows" "rowsOk rows'" "\<And>slot. specRow rows slot = specRow rows' slot"
  shows "rows = rows'"
proof -
  have mem: "r \<in> set rs \<longleftrightarrow> specRow rs (rSlot r) = Some r" if "rowsOk rs" for rs :: "'a Row list" and r
  proof -
    have d: "distinct (map rSlot rs)" using that by (simp add: rowsOk_def strict_sorted_iff)
    have "find (\<lambda>x. rSlot x = rSlot r) rs = Some r" if "r \<in> set rs" using d that by (induction rs) (auto simp: image_iff)
    then show ?thesis by (auto simp: specRow_def find_Some_iff)
  qed
  have "set rows = set rows'" using mem [OF assms(1)] mem [OF assms(2)] assms(3) by auto
  moreover have "inj_on rSlot (set rows \<union> set rows')"
    using assms(1) calculation by (auto simp: rowsOk_def strict_sorted_iff distinct_map)
  ultimately show ?thesis using assms(1,2) by (intro map_sorted_distinct_set_unique [of rSlot]) (auto simp: rowsOk_def strict_sorted_iff)
qed

lemma rows_by_lookup:
  assumes "rowsIn p rows x" "rowsIn p rows' x" "\<And>slot. specLookup p rows (Some x) slot = specLookup p rows' (Some x) slot"
  shows "rows = rows'"
proof (rule rows_by_slot)
  show ok: "rowsOk rows" "rowsOk rows'" using assms by (simp_all add: rowsIn_def)
  have row: "specRow rs slot = Some r \<Longrightarrow> rSlot r = slot \<and> rEntries r \<noteq> [] \<and> specStatus p (Some x) slot = StatusFound"
    if "rowsIn p rs x" for rs slot r
    using that by (auto simp: specRow_def find_Some_iff rowsIn_def rowsOk_def rowOk_def specStatus_def dest!: nth_mem)
  fix slot
  have same: "specStatus p (Some x) slot = StatusFound \<Longrightarrow>
      (case specRow rows slot of None \<Rightarrow> [] | Some r \<Rightarrow> rEntries r) = (case specRow rows' slot of None \<Rightarrow> [] | Some r \<Rightarrow> rEntries r)"
    using assms(3) [of slot] by (simp add: specLookup_def plainResult_def)
  show "specRow rows slot = specRow rows' slot"
    using same row [OF assms(1), of slot] row [OF assms(2), of slot]
    by (cases "specRow rows slot"; cases "specRow rows' slot") (auto intro: Row.expand)
qed

lemma headOk_Info: "headOk L s (cur s) p rows syn \<Longrightarrow> infoSyncedTo (Info s) = syn \<and> params (cur s) = p"
  by (auto simp: headOk_def bodyOk_def Info_def Let_def split: option.splits)

lemma lookup_run:
  assumes "lib_ok L" "cacheOk L s" "headOk L s (cur s) p rows syn" "LookupSlot L slot s = (Inr r, t)"
  shows "r = specLookup p rows syn slot"
proof -
  have "wp (LookupSlot L slot) (envErr L True s) (\<lambda>r _. r = specLookup p rows syn slot) s"
    by (rule LookupSlot_wp [OF assms(1,2)]) (use assms(3) in \<open>auto simp: headOk_def\<close>)
  from wp_Inr [OF this assms(4)] show ?thesis .
qed

lemma upTo_append: 
  assumes "rowsIn p rows x" "\<forall>r\<in>set new. x < rSlot r"
  shows "upTo x (rows @ new) = rows"
  using assms by (auto simp: rowsIn_def filter_id_conv filter_empty_conv not_le)

end
