(* ===== verification/Reopen.thy ===== *)
theory Reopen
  imports History
begin

text \<open>
  Opening a root that the engine published: \<open>Load\<close> (\<open>archive/archive.go\<close>) runs the geometry checks of
  \<open>archive/enumerate.go\<close> and gives the published state back, or refuses a head with too many sealed windows. The
  predicate \<open>faultless\<close>, under which no operation can fail for reasons outside the program, is here too.
\<close>

section \<open>An engine that cannot fail\<close>

definition faultless :: "('b, 'd) lib \<Rightarrow> ('b, 'd) engine \<Rightarrow> bool" where
  "faultless L s \<longleftrightarrow> (\<forall>c. \<not> getFault (enBlocks s) c \<and> \<not> putFault (enBlocks s) c) \<and> (\<forall>b. blen L b \<le> MaxIndexNodeBytes)"

lemma faultless_env: "faultless L s \<Longrightarrow> \<not> envErr L False s e"
  by (auto simp: faultless_def envErr_def not_less)

lemma faultless_moves: "moves L s t \<Longrightarrow> faultless L s \<Longrightarrow> faultless L t"
  by (simp add: faultless_def moves_def grows_def extends_def)

lemma faultless_run:
  assumes "faultless L s" "wp m (envErr L False s) Q s"
  shows "\<exists>a t. m s = (Inr a, t) \<and> Q a t"
proof -
  have "envErr L False s = (\<lambda>_. False)" using faultless_env [OF assms(1)] by blast
  then show ?thesis using assms(2) wp_total [of m Q s] by simp
qed

section \<open>Opening a published root\<close>

definition sealedCount :: "Params \<Rightarrow> u64 \<Rightarrow> u64" where
  "sealedCount p x = ord (x + 1) (pSegBits p) - baseOf p"

lemma depthFor_small:
  assumes "2 \<le> F" "depthFor F n d" "n \<le> 2 ^ 20"
  shows "d \<le> 20"
proof (rule ccontr)
  assume "\<not> d \<le> 20"
  then have "n \<noteq> 0" "F ^ (d - 1) < n" using assms(2) by (auto simp: depthFor_def split: if_splits)
  moreover have "2 ^ 20 \<le> F ^ (d - 1)"
    using \<open>\<not> d \<le> 20\<close> order_trans [OF power_increasing [of 20 "d - 1" "2 :: nat"] power_mono [OF assms(1), of "d - 1"]] by simp
  ultimately show False using assms(3) by simp
qed

lemma pages_small:
  assumes "fanoutOk fb" "unat n \<le> 2 ^ 20"
  shows "\<exists>p. canonicalDirectoryPages n fb = Some p \<and> unat p \<le> unat n + 20"
proof -
  note d = canonicalDepth_depthFor [OF assms(1), of n]
  have "unat (canonicalDepth n fb) \<le> 20" using depthFor_small [OF fan_ge2 [OF assms(1)] d(1) assms(2)] .
  moreover have "dirPages (fan fb) (unat n) (unat (canonicalDepth n fb)) \<le> unat n + unat (canonicalDepth n fb)"
    by (rule dirPages_le [OF fan_ge2 [OF assms(1)]])
  moreover have "\<exists>p. canonicalDirectoryPages n fb = Some p \<and>
      unat p = (if n = 0 then 0 else dirPages (fan fb) (unat n) (unat (canonicalDepth n fb)))"
    by (rule canonicalDirectoryPages_eq [OF assms(1)]) (use assms(2) in simp)
  ultimately show ?thesis by fastforce
qed

lemma geometry_published:
  assumes ok: "bodyOk L s st p rows (Some x)"
  shows "validateDirectoryGeometry st = (if 1048576 < sealedCount p x then Inl (BadGeometry ''outputs'')
     else Inr (ord (x + 1) (pSegBits p), sealedCount p x))"
proof -
  let ?o = "ord (x + 1) (pSegBits p)" and ?n = "sealedCount p x"
  have st: "params st = p" "covered st" "syncedTo st = x" "x \<noteq> maxUint64" "fanoutOk (pFanoutBits p)" "baseOf p \<le> ?o"
    and dir: "dirOk L s (pFanoutBits p) (sealedVec L p rows (unat ?o - unat (baseOf p))) (dir st) (dirDepth st)"
    using ok by (auto simp: bodyOk_def paramsOk_def sealedOk_def)
  have base: "dirBase st = baseOf p" using st(1) by (simp add: dirBase_def)
  have n: "of_nat (unat ?o - unat (baseOf p)) = ?n"
    unfolding sealedCount_def unat_sub_u64 [OF st(6), symmetric] by simp
  have depth: "dirDepth st = canonicalDepth ?n (pFanoutBits p)" using dir n by (simp add: dirOk_def)
  show ?thesis
  proof (cases "1048576 < ?n")
    case True
    then show ?thesis using st base leD [OF st(6)] by (simp add: validateDirectoryGeometry_def Let_def sealedCount_def)
  next
    case False
    then have small: "unat ?n \<le> 1048576" by (simp add: not_less word_le_nat_alt)
    then obtain q where q: "canonicalDirectoryPages ?n (pFanoutBits p) = Some q" "unat q \<le> unat ?n + 20"
      using pages_small [OF st(5), of ?n] by auto
    have "q \<le> 2097152" "q \<le> 4194302" using q(2) small by (simp_all add: word_le_nat_alt)
    moreover have "unat (4194304 - q - 2) = 4194302 - unat q"
    proof -
      have "unat (4194304 - q) = 4194304 - unat q" using q(2) small by (subst unat_sub_u64) (simp_all add: word_le_nat_alt)
      then show ?thesis using q(2) small by (subst unat_sub_u64) (simp_all add: word_le_nat_alt)
    qed
    then have "?n \<le> 4194304 - q - 2" using q(2) small by (simp add: word_le_nat_alt)
    ultimately show ?thesis using st base leD [OF st(6)] False depth q(1)
      by (simp add: validateDirectoryGeometry_def Let_def sealedCount_def not_less leD)
  qed
qed

lemma indexCid_ok:
  assumes "lib_ok L" "encodeNode L n = Inr (b, c)"
  shows "validateIndexCID (Some c) what = Inr c"
  using NodeCID_total [OF assms(1), of b] encodeNode_Inr(2) [OF assms(2)] by (auto simp: validateIndexCID_def)

lemma links_ok:
  assumes L: "lib_ok L" and ok: "bodyOk L s st p rows syn"
  shows "dir st = Some c \<Longrightarrow> validateIndexCID (dir st) what = Inr c" "openSeg st = Some c' \<Longrightarrow> validateIndexCID (openSeg st) what = Inr c'"
proof -
  show "openSeg st = Some c' \<Longrightarrow> validateIndexCID (openSeg st) what = Inr c'"
    using ok by (auto simp: bodyOk_def segCid_def intro!: indexCid_ok [OF L] EncodeSegment_Inr(4) split: option.splits sum.splits)
  show "validateIndexCID (dir st) what = Inr c" if d: "dir st = Some c"
  proof (cases syn)
    case (Some x)
    let ?v = "sealedVec L p rows (unat (ord (x + 1) (pSegBits p)) - unat (baseOf p))"
    have fb: "fanoutOk (pFanoutBits p)" and dir: "dirOk L s (pFanoutBits p) ?v (dir st) (dirDepth st)"
      using ok Some by (auto simp: bodyOk_def paramsOk_def sealedOk_def)
    then have v: "?v \<noteq> []" "dir st = dirRoot L (fan (pFanoutBits p)) (unat (dirDepth st)) ?v" using d by (auto simp: dirOk_def split: if_splits)
    have "1 \<le> unat (dirDepth st)" using dirOk_depth(1) [OF fb dir] v(1) by (auto simp: depthFor_def simp del: length_sealedVec split: if_splits)
    then obtain k where "unat (dirDepth st) = Suc k" by (cases "unat (dirDepth st)") auto
    with v(2) d show ?thesis
      by (auto simp: pageCid_def EncodeDirNode_def bindE_Inr_iff intro!: indexCid_ok [OF L] split: sum.splits)
  qed (use ok d in \<open>simp add: bodyOk_def\<close>)
qed

text \<open>Loading a published root gives its state back, unless more than 1048576 windows are sealed.\<close>

lemma Load_published_root:
  assumes L: "lib_ok L" and ok: "headOk L s st p rows (Some x)" and bs: "enBlocks s' = enBlocks s" and fine: "faultless L s"
  shows "LoadHead L (root st) s' = (if 1048576 < sealedCount p x then (Inl (BadGeometry ''outputs''), s') else (Inr (), s'\<lparr>cur := st\<rparr>))"
proof -
  obtain b c where enc: "EncodeHead L (headObject st) = Inr (b, c)" "held L s c b" "root st = Some c" and body: "bodyOk L s st p rows (Some x)"
    using ok by (auto simp: headOk_def)
  have get: "validatingGet L (enBlocks s') c = Inr b" "blen L b \<le> MaxIndexNodeBytes"
    using fine has_get [of L "enBlocks s" c b] enc(2) by (simp_all add: held_def faultless_def bs)
  have dec: "DecodeHead L b = Inr (headObject st)" using headC.roundtrip [OF L enc(1)] by simp
  have ver: "verifyBlockCID L c b = Inr ()" using enc(2) by (simp add: verifyBlockCID_def held_def has_def)
  have cid: "validateIndexCID (Some c) ''head root'' = Inr c" using indexCid_ok [OF L EncodeHead_Inr(7) [OF enc(1)]] .
  have st: "stateOfHead (headObject st) c = st"
    using body enc(3) by (cases st) (auto simp: stateOfHead_def headObject_def bodyOk_def)
  obtain o' where op: "openSeg st = Some o'" using body segCid_Some by (fastforce simp: bodyOk_def)
  have par: "covered st" "\<not> (pFanoutBits (params st) = 0 \<or> 32 < pFanoutBits (params st) \<or> 63 < pSegBits (params st))"
    using body by (auto simp: bodyOk_def paramsOk_def fanoutOk_def not_less word_le_nat_alt)
  note links = links_ok [OF L body]
  show ?thesis
    using geometry_published [OF body] par op links(2) [OF op, of "''open segment''"] links(1) [of _ "''directory root''"]
    by (cases "dir st") (auto simp: LoadHead_def loadState_def enc(3) cid blocksGet_def get dec ver st Let_def)
qed

end
