(* ===== verification/Sample.thy ===== *)
theory Sample
  imports Enumerate
begin

text \<open>
  The segment samples a restarted process takes of a durable root, the second half of \<open>archive/apply.go\<close>: the open
  segment, and the last non-empty sealed one, found from the right edge of the directory within a budget of page reads.
\<close>

section \<open>The source's functions\<close>

definition LastApplyStats :: "('b, 'd, IndexApplyStats) eng" where
  "LastApplyStats = gets lastApplyStats"

definition readSegmentSample :: "('b, 'd) lib \<Rightarrow> 'd link \<Rightarrow> SegmentState \<Rightarrow> ('b, 'd, 'd Segment \<times> SegmentSample) eng" where
  "readSegmentSample L l state = (case l of
     None \<Rightarrow> fail UndefinedCID
   | Some c \<Rightarrow>
       bind (blocksGet L c) (\<lambda>data.
       bind (check (blen L data \<le> MaxIndexNodeBytes) (BudgetExceeded ''segment'')) (\<lambda>_.
       bind (liftE (liftS (DecodeSegment L data))) (\<lambda>segment.
       ret (segment, \<lparr>ssState = state, ssEncodedBytes = blen L data, ssRows = length (sRows segment),
                      ssRefs = countRefs (sRows segment)\<rparr>)))))"

definition OpenSegmentSample :: "('b, 'd) lib \<Rightarrow> ('b, 'd, SegmentSample option) eng" where
  "OpenSegmentSample L = bind (gets cur) (\<lambda>st.
     if \<not> covered st then ret None
     else bind (readSegmentSample L (openSeg st) SegmentOpen) (\<lambda>(_, sample). ret (Some sample)))"

abbreviation (input) MaxLatestSealedSampleDirNodes :: nat where "MaxLatestSealedSampleDirNodes \<equiv> 1024"

text \<open>The loop of \<open>latestSealedInDir\<close> over the kids of a page, from the highest down; \<open>walk\<close> searches one kid and the
  number counts the kids left. The budget is passed along and returned.\<close>

primrec latestKids :: "('d link \<Rightarrow> u64 \<Rightarrow> nat \<Rightarrow> ('b, 'd, ('d cid \<times> u64) option \<times> nat) eng) \<Rightarrow> bool \<Rightarrow> u64 \<Rightarrow> u64 \<Rightarrow> nat \<Rightarrow>
    'd link list \<Rightarrow> nat \<Rightarrow> nat \<Rightarrow> ('b, 'd, ('d cid \<times> u64) option \<times> nat) eng" where
  "latestKids walk leaf childCapacity limit highest kids 0 left = ret (None, left)"
| "latestKids walk leaf childCapacity limit highest kids (Suc child) left = (case kids ! child of
     None \<Rightarrow> latestKids walk leaf childCapacity limit highest kids child left
   | Some c \<Rightarrow>
       let base = of_nat child * childCapacity;
           childLimit = (if child = highest \<and> limit - base < childCapacity then limit - base else childCapacity) in
       if leaf then ret (Some (c, of_nat child), left)
       else bind (walk (Some c) childLimit left) (\<lambda>(r, left'). case r of
              Some (found, offset) \<Rightarrow> ret (Some (found, base + offset), left')
            | None \<Rightarrow> latestKids walk leaf childCapacity limit highest kids child left'))"

primrec latestSealedInDir :: "('b, 'd) lib \<Rightarrow> u64 \<Rightarrow> nat \<Rightarrow> 'd link \<Rightarrow> u64 \<Rightarrow> nat \<Rightarrow> ('b, 'd, ('d cid \<times> u64) option \<times> nat) eng" where
  "latestSealedInDir L fanoutBits 0 node limit left = ret (None, left)"
| "latestSealedInDir L fanoutBits (Suc depth) node limit left =
     (if node = None \<or> limit = 0 then ret (None, left)
      else if left = 0 then fail (BudgetExceeded ''latest sealed search'')
      else bind (GetNode (dirs L) node) (\<lambda>page.
        if dKids page = [] then ret (None, left - 1)
        else let childCapacity = capacity (of_nat depth) fanoutBits;
                 highest = min (unat ((limit - 1) div childCapacity)) (length (dKids page) - 1)
             in latestKids (latestSealedInDir L fanoutBits depth) (depth = 0) childCapacity limit highest (dKids page)
                  (highest + 1) (left - 1)))"

definition LatestSealedSegmentSample :: "('b, 'd) lib \<Rightarrow> ('b, 'd, SegmentSample option) eng" where
  "LatestSealedSegmentSample L = bind (gets cur) (\<lambda>st.
     if \<not> covered st \<or> dirDepth st = 0 then ret None
     else
       bind (openOrd L st) (\<lambda>openW.
       let base = dirBase st; sealed = openW - base in
       bind (latestSealedInDir L (pFanoutBits (params st)) (unat (dirDepth st)) (dir st) sealed MaxLatestSealedSampleDirNodes) (\<lambda>(r, _).
       case r of
         None \<Rightarrow> ret None
       | Some (c, index) \<Rightarrow>
           bind (readSegmentSample L (Some c) SegmentSealed) (\<lambda>(segment, sample).
           bind (check (sSlot0 segment = windowStart (base + index) (pSegBits (params st)) \<and> sRows segment \<noteq> [])
             (BadStructure ''latest sealed segment'')) (\<lambda>_.
           ret (Some sample))))))"

section \<open>The search finds the last non-null entry\<close>

definition lastEntry :: "'d link list \<Rightarrow> ('d cid \<times> u64) option" where
  "lastEntry vec = (let es = entriesAt 0 vec in if es = [] then None else Some (snd (last es), of_nat (fst (last es))))"

lemma entriesAt_shift: "entriesAt (i + k) vec = map (\<lambda>(j, c). (i + j, c)) (entriesAt k vec)"
proof (induction vec arbitrary: k)
  case (Cons l vec)
  then show ?case using Cons [of "Suc k"] by (simp add: entriesAt_def split: option.splits)
qed simp

lemma lastEntry_append: "lastEntry (xs @ ys) = (case lastEntry ys of None \<Rightarrow> lastEntry xs | Some (c, off) \<Rightarrow> Some (c, of_nat (length xs) + off))"
  using entriesAt_shift [of "length xs" 0 ys]
  by (simp add: lastEntry_def entriesAt_append last_map case_prod_unfold Let_def)

lemma lastEntry_Nil [simp]: "lastEntry [] = None"
  by (simp add: lastEntry_def)

lemma lastEntry_single: "lastEntry [l] = map_option (\<lambda>c. (c, 0)) l"
  by (simp add: lastEntry_def entriesAt_def split: option.splits)

lemma entriesAt_trim: "entriesAt i (trimTrailingNulls vec) = entriesAt i vec"
  unfolding entriesAt_def by (rule concat_trim) simp

lemma lastEntry_trim: "lastEntry (trimTrailingNulls vec) = lastEntry vec"
  by (simp add: lastEntry_def entriesAt_trim)

text \<open>What may go wrong: the store, or a budget.\<close>

definition sampleErr :: "('b, 'd) lib \<Rightarrow> bool \<Rightarrow> ('b, 'd) engine \<Rightarrow> 'd err \<Rightarrow> bool" where
  "sampleErr L big s e \<longleftrightarrow> envErr L big s e \<or> (\<exists>m. e = BudgetExceeded m)"

lemma sampleErr_grows: "grows L s t \<Longrightarrow> sampleErr L big t = sampleErr L big s"
  by (simp add: sampleErr_def fun_eq_iff grows_env)

lemma getPage_wp:
  assumes "lib_ok L" "cacheOk L s" "pageStored L s kids" "pageCid L kids = Some c"
    and post: "\<And>t. grows L s t \<Longrightarrow> Q \<lparr>dKids = trimTrailingNulls kids\<rparr> t"
  shows "wp (GetNode (dirs L) (Some c)) (sampleErr L big s) Q s"
proof -
  obtain b where c: "EncodeDirNode L \<lparr>dKids = kids\<rparr> = Inr (b, c)" "held L s c b"
    using assms(3,4) by (auto simp: pageStored_def pageCid_def)
  show ?thesis
    by (rule wp_mono [OF dirS.store.get_law [OF assms(1,2), of "\<lparr>dKids = kids\<rparr>"]]) (use c in \<open>auto simp: canonDirNode_def sampleErr_def intro: post\<close>)
qed

lemma childLimit_eq:
  fixes n m child :: nat and cap limit :: u64
  assumes "0 < m" "unat cap = min m 18446744073709551615" "n < 18446744073709551615" "limit = of_nat n" "child < ceilDiv n m"
  shows "of_nat child * cap = of_nat (child * m)"
    "(if child = unat ((limit - 1) div cap) \<and> limit - of_nat child * cap < cap then limit - of_nat child * cap else cap) = of_nat (min m (n - child * m))"
    "unat ((limit - 1) div cap) = ceilDiv n m - 1"
proof -
  have c: "child * m < n" using assms(1,5) by (simp add: less_ceilDiv)
  have n: "unat limit = n" "unat (limit - 1) = n - 1" using assms(3,4) c by (simp_all add: unat_of_nat_u64 unat_sub_u64 word_le_nat_alt)
  have q: "ceilDiv n m - 1 = (n - 1) div m" using ceilDiv_Suc [OF assms(1), of "n - 1"] c by simp
  show hi: "unat ((limit - 1) div cap) = ceilDiv n m - 1"
    using q n assms(1-3) by (simp add: unat_div min_def div_eq_0_iff)
  show base: "of_nat child * cap = of_nat (child * m)"
  proof (cases "m \<le> 18446744073709551615")
    case True
    then have "cap = of_nat m" using assms(2) by (simp add: u64_eq_iff unat_of_nat_u64)
    then show ?thesis by simp
  next
    case False
    then have "child = 0" using c assms(3) by (cases child) auto
    then show ?thesis by simp
  qed
  have rest: "unat (limit - of_nat (child * m)) = n - child * m"
    using n c assms(3) by (simp add: unat_sub_u64 word_le_nat_alt unat_of_nat_u64 del: of_nat_mult)
  have tp: "child = ceilDiv n m - 1 \<or> m \<le> n - child * m"
  proof (cases "Suc child < ceilDiv n m")
    case True
    then have "m + child * m < n" using assms(1) by (simp add: less_ceilDiv)
    then show ?thesis by linarith
  next
    case False
    then show ?thesis using assms(5) by linarith
  qed
  have small: "n - child * m \<le> 18446744073709551615" using assms(3) by simp
  show "(if child = unat ((limit - 1) div cap) \<and> limit - of_nat child * cap < cap then limit - of_nat child * cap else cap) = of_nat (min m (n - child * m))"
    unfolding hi base u64_eq_iff if_distrib [of unat] word_less_nat_alt rest
    using tp small assms(2,5) less_ceilDiv [OF assms(1), of "Suc child" n] by (auto simp: min_def unat_of_nat_u64 split: if_splits)
qed

lemma latestLeaf_wp:
  "n \<le> length kids \<Longrightarrow> Q (lastEntry (take n kids), left) s \<Longrightarrow> wp (latestKids walk True cap limit highest kids n left) E Q s"
proof (induction n)
  case (Suc n)
  then have "take (Suc n) kids = take n kids @ [kids ! n]" by (simp add: take_Suc_conv_app_nth)
  then show ?case using Suc by (cases "kids ! n") (simp_all add: lastEntry_append lastEntry_single Let_def)
qed simp

lemma latestKids_wp:
  assumes walk: "\<And>child left s. child < length chs \<Longrightarrow> R ini s \<Longrightarrow> wp (walk (roots ! child) (lim child) left) E
      (\<lambda>r t. R ini t \<and> fst r = lastEntry (chs ! child)) s"
    and roots: "length roots = length chs" "\<And>l. l \<in> set roots \<Longrightarrow> l \<noteq> None"
    and base: "\<And>child. child < length chs \<Longrightarrow> of_nat child * cap = (of_nat (length (concat (take child chs))) :: u64)"
    and lim: "\<And>child. child < length chs \<Longrightarrow> (if child = highest \<and> limit - of_nat child * cap < cap then limit - of_nat child * cap else cap) = lim child"
    and post: "\<And>t left. R ini t \<Longrightarrow> Q (lastEntry (concat (take till chs)), left) t"
  shows "till \<le> length chs \<Longrightarrow> R ini s \<Longrightarrow> wp (latestKids walk False cap limit highest roots till left) E Q s"
  using post
proof (induction till arbitrary: s left Q)
  case (Suc n)
  have n: "n < length chs" using Suc.prems(1) by simp
  then obtain c where c: "roots ! n = Some c" using roots by (metis nth_mem not_None_eq)
  have cat: "lastEntry (concat (take (Suc n) chs)) = (case lastEntry (chs ! n) of None \<Rightarrow> lastEntry (concat (take n chs))
      | Some (x, off) \<Rightarrow> Some (x, of_nat n * cap + off))"
    unfolding base [OF n] using n by (simp add: take_Suc_conv_app_nth lastEntry_append)
  show ?case unfolding latestKids.simps c option.case Let_def lim [OF n] if_False wp_bind
  proof (rule wp_mono [OF walk [OF n Suc.prems(2), unfolded c]])
    fix r :: "('b cid \<times> u64) option \<times> nat" and t assume r: "R ini t \<and> fst r = lastEntry (chs ! n)"
    show "wp (case r of (r, left') \<Rightarrow> (case r of None \<Rightarrow> latestKids walk False cap limit highest roots n left'
        | Some (found, offset) \<Rightarrow> ret (Some (found, of_nat n * cap + offset), left'))) E Q t"
    proof (cases "lastEntry (chs ! n)")
      case None
      then have "wp (latestKids walk False cap limit highest roots n (snd r)) E Q t"
        using r n Suc.prems(3) cat by (intro Suc.IH) auto
      with None r show ?thesis by (cases r) simp
    next
      case (Some e)
      then show ?thesis using r Suc.prems(3) cat by (cases r) (auto split: prod.splits)
    qed
  qed simp
qed simp

lemma concat_take_chunks: "0 < m \<Longrightarrow> concat (take k (chunks m xs)) = take (k * m) xs"
proof (induction k arbitrary: xs)
  case (Suc k)
  then show ?case by (cases "xs = []") (simp_all add: chunks_step take_add [symmetric])
qed simp

lemma concat_chunks: "0 < m \<Longrightarrow> concat (chunks m xs) = xs"
  using concat_take_chunks [of m "length xs" xs] less_ceilDiv [of m "length xs" "length xs"] by (simp add: length_chunks not_less)

lemma dirRoot_0: "map (dirRoot L F 0) (chunks (Suc 0) vec) = vec"
proof (rule nth_equalityI)
  show "length (map (dirRoot L F 0) (chunks (Suc 0) vec)) = length vec" by (simp add: length_chunks ceilDiv_def)
  fix i assume "i < length (map (dirRoot L F 0) (chunks (Suc 0) vec))"
  then have "i < length (chunks (Suc 0) vec)" "i < length vec" by (simp_all add: length_chunks ceilDiv_def)
  then show "map (dirRoot L F 0) (chunks (Suc 0) vec) ! i = vec ! i"
    by (simp add: nth_chunks take_Suc hd_drop_conv_nth split: list.split)
qed

lemma trim_id: "None \<notin> set kids \<Longrightarrow> trimTrailingNulls kids = kids"
  by (metis trim_split in_set_conv_decomp append_Nil2 replicate_0 in_set_replicate append.assoc not0_implies_Suc replicate_Suc Un_iff set_append list.set_intros(1))

lemma trim_le: "length (trimTrailingNulls kids) \<le> length kids"
  using arg_cong [where f = length, OF trim_split [of kids, THEN someI_ex]] by simp

text \<open>One page: what is left to show is the loop over its kids.\<close>

lemma latestPage_wp:
  assumes L: "lib_ok L" "cacheOk L s" and page: "pageStored L s kids" "pageCid L kids = Some c" and lim: "limit \<noteq> 0"
    and empty: "trimTrailingNulls kids = [] \<Longrightarrow> res = None"
    and loop: "\<And>t left. grows L s t \<Longrightarrow> trimTrailingNulls kids \<noteq> [] \<Longrightarrow>
      wp (latestKids (latestSealedInDir L fb depth) (depth = 0) (capacity (of_nat depth) fb) limit
        (min (unat ((limit - 1) div capacity (of_nat depth) fb)) (length (trimTrailingNulls kids) - 1)) (trimTrailingNulls kids)
        (min (unat ((limit - 1) div capacity (of_nat depth) fb)) (length (trimTrailingNulls kids) - 1) + 1) left) (sampleErr L big s)
        (\<lambda>r u. grows L s u \<and> fst r = res) t"
  shows "wp (latestSealedInDir L fb (Suc depth) (Some c) limit left) (sampleErr L big s) (\<lambda>r t. grows L s t \<and> fst r = res) s"
proof (cases "left = 0")
  case False
  have "wp (GetNode (dirs L) (Some c)) (sampleErr L big s) (\<lambda>page. wp (if dKids page = [] then ret (None, left - 1)
        else let childCapacity = capacity (of_nat depth) fb; highest = min (unat ((limit - 1) div childCapacity)) (length (dKids page) - 1)
             in latestKids (latestSealedInDir L fb depth) (depth = 0) childCapacity limit highest (dKids page) (highest + 1) (left - 1))
      (sampleErr L big s) (\<lambda>r t. grows L s t \<and> fst r = res)) s"
    by (rule getPage_wp [OF L page]) (use empty loop in \<open>simp add: Let_def\<close>)
  then show ?thesis using False lim by simp
qed (use lim in \<open>simp add: sampleErr_def\<close>)

lemma latest_wp:
  assumes L: "lib_ok L" and fb: "fanoutOk fb"
  shows "depth < 64 \<Longrightarrow> cacheOk L s \<Longrightarrow> dirStored L s (fan fb) (Suc depth) vec \<Longrightarrow> vec \<noteq> [] \<Longrightarrow> length vec \<le> fan fb ^ Suc depth \<Longrightarrow>
    length vec < 18446744073709551615 \<Longrightarrow>
    wp (latestSealedInDir L fb (Suc depth) (dirRoot L (fan fb) (Suc depth) vec) (of_nat (length vec)) left) (sampleErr L big s)
      (\<lambda>r t. grows L s t \<and> fst r = lastEntry vec) s"
proof (induction depth arbitrary: vec s left)
  case 0
  let ?F = "fan fb"
  obtain c where c: "pageCid L vec = Some c" using pageCid_Some [OF L] by blast
  have st: "pageStored L s vec" and root: "dirRoot L ?F (Suc 0) vec = Some c"
    using 0(3) c dirRoot_0 [of L ?F vec] by simp_all
  have cap: "unat (capacity (of_nat 0) fb) = min 1 18446744073709551615" using unat_capacity [OF fb, of 0] by simp
  have hi: "unat ((of_nat (length vec) - 1) div capacity (of_nat 0) fb) = length vec - 1"
    using childLimit_eq(3) [OF _ cap 0(6) refl, of 0] 0(4) by (simp add: ceilDiv_def)
  have lim: "of_nat (length vec) \<noteq> (0 :: u64)" using 0(4,6) by (simp add: u64_eq_iff unat_of_nat_u64)
  show ?case unfolding root
  proof (rule latestPage_wp [OF L 0(2) st c lim])
    show "trimTrailingNulls vec = [] \<Longrightarrow> lastEntry vec = None" using lastEntry_trim [of vec] by simp
    fix t left assume t: "grows L s t" and ne: "trimTrailingNulls vec \<noteq> []"
    have n: "min (length vec - 1) (length (trimTrailingNulls vec) - 1) + 1 = length (trimTrailingNulls vec)"
      using ne trim_le [of vec] by (cases "trimTrailingNulls vec") auto
    show "wp (latestKids (latestSealedInDir L fb 0) (0 = 0) (capacity (of_nat 0) fb) (of_nat (length vec))
        (min (unat ((of_nat (length vec) - 1) div capacity (of_nat 0) fb)) (length (trimTrailingNulls vec) - 1)) (trimTrailingNulls vec)
        (min (unat ((of_nat (length vec) - 1) div capacity (of_nat 0) fb)) (length (trimTrailingNulls vec) - 1) + 1) left) (sampleErr L big s)
        (\<lambda>r u. grows L s u \<and> fst r = lastEntry vec) t"
      unfolding hi n simp_thms by (rule latestLeaf_wp) (use t lastEntry_trim [of vec] in simp_all)
  qed
next
  case (Suc depth)
  let ?F = "fan fb" and ?m = "fan fb ^ Suc depth" and ?n = "length vec"
  let ?chs = "chunks ?m vec" and ?cap = "capacity (of_nat (Suc depth)) fb"
  let ?kids = "map (dirRoot L ?F (Suc depth)) ?chs"
  obtain c where c: "pageCid L ?kids = Some c" using pageCid_Some [OF L] by blast
  have st: "pageStored L s ?kids" and sub: "\<And>ch. ch \<in> set ?chs \<Longrightarrow> dirStored L s ?F (Suc depth) ch"
    using Suc.prems(3) by (simp_all del: dirRoot.simps)
  have root: "dirRoot L ?F (Suc (Suc depth)) vec = Some c" using c by simp
  have some: "l \<noteq> None" if "l \<in> set ?kids" for l using that dirRoot_Some [OF L, of "Suc depth" ?F] by (auto simp del: dirRoot.simps)
  then have trim: "trimTrailingNulls ?kids = ?kids" by (intro trim_id) blast
  have m: "0 < ?m" by simp
  have cap: "unat ?cap = min ?m 18446744073709551615" using unat_capacity [OF fb, of "of_nat (Suc depth)"] Suc.prems(1)
    by (simp add: unat_of_nat_u64 del: of_nat_Suc power_Suc)
  note lims = childLimit_eq [OF m cap Suc.prems(6) refl]
  have ne: "0 < ceilDiv ?n ?m" using Suc.prems(4) by (simp add: less_ceilDiv)
  have hi: "min (unat ((of_nat ?n - 1) div ?cap)) (length ?kids - 1) = ceilDiv ?n ?m - 1"
    unfolding lims(3) [OF ne] by (simp add: length_chunks)
  have lim: "of_nat ?n \<noteq> (0 :: u64)" using Suc.prems(4,6) by (simp add: u64_eq_iff unat_of_nat_u64)
  show ?case unfolding root
  proof (rule latestPage_wp [OF L Suc.prems(2) st c lim], goal_cases)
    case 1
    then have "length ?kids = 0" unfolding trim by (simp only: list.size)
    with ne show ?case by (simp only: length_map length_chunks)
  next
    case (2 t left)
    have ch: "?chs ! i \<noteq> [] \<and> length (?chs ! i) \<le> ?m \<and> length (?chs ! i) < 18446744073709551615 \<and> length (?chs ! i) = min ?m (?n - i * ?m)"
      if "i < length ?chs" for i
      using that Suc.prems(6) by (auto simp: nth_chunks length_chunks less_ceilDiv simp del: power_Suc)
    have hn: "ceilDiv ?n ?m - 1 + 1 = length ?chs" using ne by (simp add: length_chunks)
    have nz: "(Suc depth = 0) = False" by simp
    show ?case unfolding trim hi hn nz
    proof (rule latestKids_wp [where R = "grows L" and ini = s and chs = ?chs and lim = "\<lambda>i. of_nat (length (?chs ! i))"])
      fix i left u assume i: "i < length ?chs" and u: "grows L s u"
      have "wp (latestSealedInDir L fb (Suc depth) (dirRoot L ?F (Suc depth) (?chs ! i)) (of_nat (length (?chs ! i))) left) (sampleErr L big u)
          (\<lambda>r t. grows L u t \<and> fst r = lastEntry (?chs ! i)) u"
        using ch [OF i] Suc.prems(1,2) u sub nth_mem [OF i] by (intro Suc.IH) (auto intro: cacheOk_grows dirStored_grows simp del: dirRoot.simps dirStored.simps)
      then show "wp (latestSealedInDir L fb (Suc depth) (?kids ! i) (of_nat (length (?chs ! i))) left) (sampleErr L big s)
          (\<lambda>r t. grows L s t \<and> fst r = lastEntry (?chs ! i)) u"
        unfolding sampleErr_grows [OF u] nth_map [OF i] by (rule wp_mono) (use u in \<open>auto intro: grows_trans\<close>)
    next
      fix i assume i: "i < length ?chs"
      then have i': "i < ceilDiv ?n ?m" by (simp only: length_chunks)
      show "of_nat i * ?cap = of_nat (length (concat (take i ?chs)))"
        unfolding concat_take_chunks [OF m] lims(1) [OF i'] using i' by (simp add: less_ceilDiv min_def del: power_Suc)
      show "(if i = ceilDiv ?n ?m - 1 \<and> of_nat ?n - of_nat i * ?cap < ?cap then of_nat ?n - of_nat i * ?cap else ?cap) = of_nat (length (?chs ! i))"
        using lims(2) [OF i', unfolded lims(3) [OF ne]] ch [OF i] by simp
    qed (use 2 some concat_chunks [OF m, of vec] in \<open>auto simp del: dirRoot.simps power_Suc\<close>)
  qed
qed

section \<open>The samples of a head\<close>

definition sampleOf :: "('b, 'd) lib \<Rightarrow> SegmentState \<Rightarrow> 'd Segment \<Rightarrow> SegmentSample \<Rightarrow> bool" where
  "sampleOf L state seg sample \<longleftrightarrow> (\<exists>b c. EncodeSegment L seg = Inr (b, c) \<and>
     sample = \<lparr>ssState = state, ssEncodedBytes = blen L b, ssRows = length (sRows seg), ssRefs = countRefs (sRows seg)\<rparr>)"

lemma readSegmentSample_wp:
  assumes "lib_ok L" "segStored L s seg" "segCid L seg = Some c"
    and post: "\<And>sample. sampleOf L state seg sample \<Longrightarrow> Q (seg, sample) s"
  shows "wp (readSegmentSample L (Some c) state) (sampleErr L big s) Q s"
proof -
  obtain b where b: "EncodeSegment L seg = Inr (b, c)" "held L s c b" using assms(2,3) by (auto simp: segStored_def segCid_def)
  have "wp (blocksGet L c) (sampleErr L big s) (\<lambda>x t. x = b \<and> t = s) s"
    by (rule wp_mono [OF blocksGet_wp [OF b(2), of big]]) (simp_all add: sampleErr_def)
  then have "wp (blocksGet L c) (sampleErr L big s) (\<lambda>data. wp (bind (check (blen L data \<le> MaxIndexNodeBytes) (BudgetExceeded ''segment'')) (\<lambda>_.
       bind (liftE (liftS (DecodeSegment L data))) (\<lambda>segment.
       ret (segment, \<lparr>ssState = state, ssEncodedBytes = blen L data, ssRows = length (sRows segment), ssRefs = countRefs (sRows segment)\<rparr>))))
       (sampleErr L big s) Q) s"
    by (rule wp_mono) (use b post segC.roundtrip [OF assms(1) b(1)] in \<open>auto simp: sampleErr_def sampleOf_def liftS_def wp_liftE\<close>)
  then show ?thesis unfolding readSegmentSample_def option.case wp_bind [of "blocksGet _ _"] .
qed

lemma OpenSegmentSample_wp:
  assumes L: "lib_ok L" "cacheOk L s" and ok: "headOk L s (cur s) p rows syn"
    and post: "\<And>r t. grows L s t \<Longrightarrow> (case syn of None \<Rightarrow> r = None
      | Some x \<Rightarrow> \<exists>sample. r = Some sample \<and> sampleOf L SegmentOpen (segOf p rows (ord (x + 1) (pSegBits p))) sample) \<Longrightarrow> Q r t"
  shows "wp (OpenSegmentSample L) (sampleErr L big s) Q s"
proof (cases syn)
  case None
  then show ?thesis using ok post [of s None] by (simp add: OpenSegmentSample_def headOk_def bodyOk_def)
next
  case (Some x)
  let ?seg = "segOf p rows (ord (x + 1) (pSegBits p))"
  have c: "covered (cur s)" "segStored L s ?seg" "openSeg (cur s) = segCid L ?seg" using ok Some by (auto simp: headOk_def bodyOk_def)
  then obtain id where id: "segCid L ?seg = Some id" using segCid_Some by blast
  have "wp (readSegmentSample L (Some id) SegmentOpen) (sampleErr L big s) (\<lambda>(_, sample). Q (Some sample)) s"
    by (rule readSegmentSample_wp [OF L(1) c(2) id]) (use post Some in auto)
  then show ?thesis using c id by (simp add: OpenSegmentSample_def case_prod_unfold)
qed

lemma lastEntry_sealed:
  assumes "segsStored L s p rows (unat (ord (x + 1) (pSegBits p)) - unat (baseOf p))"
  shows "lastEntry (sealedVec L p rows (unat (ord (x + 1) (pSegBits p)) - unat (baseOf p))) =
    (if sealedWindows p rows x = [] then None
     else Some (the (segCid L (segOf p rows (last (sealedWindows p rows x)))), last (sealedWindows p rows x) - baseOf p))"
    "sealedWindows p rows x \<noteq> [] \<Longrightarrow> segCid L (segOf p rows (last (sealedWindows p rows x))) \<noteq> None"
proof -
  let ?es = "entriesAt 0 (sealedVec L p rows (unat (ord (x + 1) (pSegBits p)) - unat (baseOf p)))" and ?ws = "sealedWindows p rows x"
  note eq = sealed_entries [OF assms]
  have len: "?es = [] \<longleftrightarrow> ?ws = []" using arg_cong [where f = length, OF eq] by auto
  have lst: "(baseOf p + of_nat (fst (last ?es)), Some (snd (last ?es))) = (last ?ws, segCid L (segOf p rows (last ?ws)))" if "?ws \<noteq> []"
    using arg_cong [where f = last, OF eq] that len by (simp add: last_map case_prod_unfold)
  show "segCid L (segOf p rows (last ?ws)) \<noteq> None" if "?ws \<noteq> []" using lst [OF that] by (metis Pair_inject option.distinct(1))
  show "lastEntry (sealedVec L p rows (unat (ord (x + 1) (pSegBits p)) - unat (baseOf p))) =
    (if ?ws = [] then None else Some (the (segCid L (segOf p rows (last ?ws))), last ?ws - baseOf p))"
  proof (cases "?ws = []")
    case False
    then have "?es \<noteq> []" "of_nat (fst (last ?es)) = last ?ws - baseOf p" "segCid L (segOf p rows (last ?ws)) = Some (snd (last ?es))"
      using lst [OF False] len by (metis Pair_inject add_diff_cancel_left')+
    then show ?thesis using False by (simp add: lastEntry_def Let_def)
  qed (use len in \<open>simp add: lastEntry_def Let_def\<close>)
qed

lemma sealedWindows_stored:
  "w \<in> set (sealedWindows p rows x) \<Longrightarrow> segsStored L s p rows (unat (ord (x + 1) (pSegBits p)) - unat (baseOf p)) \<Longrightarrow>
    segStored L s (segOf p rows w) \<and> sRows (segOf p rows w) \<noteq> []"
  by (auto simp: sealedWindows_def segsStored_def segOf_def)

lemma latest_sample_wp:
  assumes L: "lib_ok L" and st: "segsStored L s p rows (unat (ord (x + 1) (pSegBits p)) - unat (baseOf p))"
    and post: "\<And>r. (if sealedWindows p rows x = [] then r = None
      else \<exists>sample. r = Some sample \<and> sampleOf L SegmentSealed (segOf p rows (last (sealedWindows p rows x))) sample) \<Longrightarrow> Q r s"
  shows "wp (case lastEntry (sealedVec L p rows (unat (ord (x + 1) (pSegBits p)) - unat (baseOf p))) of None \<Rightarrow> ret None
       | Some (c, index) \<Rightarrow>
           bind (readSegmentSample L (Some c) SegmentSealed) (\<lambda>(segment, sample).
           bind (check (sSlot0 segment = windowStart (baseOf p + index) (pSegBits p) \<and> sRows segment \<noteq> []) (BadStructure msg)) (\<lambda>_.
           ret (Some sample)))) (sampleErr L big s) Q s"
proof (cases "sealedWindows p rows x = []")
  case True
  then show ?thesis using post [of None] unfolding lastEntry_sealed(1) [OF st] by simp
next
  case False
  let ?w = "last (sealedWindows p rows x)"
  have w: "segStored L s (segOf p rows ?w)" "sRows (segOf p rows ?w) \<noteq> []" using sealedWindows_stored [OF last_in_set [OF False] st] by simp_all
  obtain c where c: "segCid L (segOf p rows ?w) = Some c" using segCid_Some [OF w(1)] by blast
  have "wp (readSegmentSample L (Some c) SegmentSealed) (sampleErr L big s) (\<lambda>r. wp (case r of (segment, sample) \<Rightarrow>
       bind (check (sSlot0 segment = windowStart (baseOf p + (?w - baseOf p)) (pSegBits p) \<and> sRows segment \<noteq> []) (BadStructure msg)) (\<lambda>_.
       ret (Some sample))) (sampleErr L big s) Q) s"
    by (rule readSegmentSample_wp [OF L w(1) c]) (use w(2) post False in \<open>simp add: segOf_def\<close>)
  then show ?thesis unfolding lastEntry_sealed(1) [OF st] using False c by simp
qed

lemma LatestSealedSegmentSample_wp:
  assumes L: "lib_ok L" "cacheOk L s" and ok: "headOk L s (cur s) p rows (Some x)"
    and post: "\<And>r t. grows L s t \<Longrightarrow> (if sealedWindows p rows x = [] then r = None
      else \<exists>sample. r = Some sample \<and> sampleOf L SegmentSealed (segOf p rows (last (sealedWindows p rows x))) sample) \<Longrightarrow> Q r t"
  shows "wp (LatestSealedSegmentSample L) (sampleErr L big s) Q s"
proof -
  let ?n = "unat (ord (x + 1) (pSegBits p)) - unat (baseOf p)" and ?st = "cur s" and ?ws = "sealedWindows p rows x"
  let ?vec = "sealedVec L p rows ?n" and ?d = "unat (dirDepth (cur s))"
  have body: "bodyOk L s ?st p rows (Some x)" using ok by (simp add: headOk_def)
  then have p: "params ?st = p" "dirBase ?st = baseOf p" "covered ?st" and fb: "fanoutOk (pFanoutBits p)" and base: "baseOf p \<le> ord (x + 1) (pSegBits p)"
    and d: "dirOk L s (pFanoutBits p) ?vec (dir ?st) (dirDepth ?st)" and st: "segsStored L s p rows ?n"
    by (auto simp: bodyOk_def sealedOk_def paramsOk_def dirBase_def)
  show ?thesis
  proof (cases "dirDepth ?st = 0")
    case True
    then have "?vec = []" using dirOk_depth(1) [OF fb d] by (auto simp: depthFor_def sealedVec_def split: if_splits)
    then have "?ws = []" using lastEntry_sealed(1) [OF st] by (auto split: if_splits)
    then show ?thesis using True post [of s None] by (simp add: LatestSealedSegmentSample_def)
  next
    case False
    then obtain d' where d': "?d = Suc d'" "d' < 64" using dirOk_depth(2) [OF fb d] by (cases ?d) (auto simp: unat_eq_zero)
    have ne: "?vec \<noteq> []" using dirOk_depth(1) [OF fb d] d' by (auto simp: depthFor_def sealedVec_def)
    have v: "dir ?st = dirRoot L (fan (pFanoutBits p)) (Suc d') ?vec" "dirStored L s (fan (pFanoutBits p)) (Suc d') ?vec"
      "length ?vec < 18446744073709551615" using d [unfolded dirOk_def if_not_P [OF ne]] unfolding d'(1) by blast+
    have len: "length ?vec \<le> fan (pFanoutBits p) ^ Suc d'" using dirOk_depth(1) [OF fb d] unfolding d'(1) by (simp add: depthFor_def split: if_splits)
    have lim: "ord (x + 1) (pSegBits p) - baseOf p = of_nat (length ?vec)"
      using base v(3) by (simp add: u64_eq_iff unat_sub_u64 unat_of_nat_u64 sealedVec_def)
    let ?E = "sampleErr L big s" and ?B = "MaxLatestSealedSampleDirNodes"
    let ?fin = "\<lambda>r. case r of None \<Rightarrow> ret None | Some (c, index) \<Rightarrow>
           bind (readSegmentSample L (Some c) SegmentSealed) (\<lambda>(segment, sample).
           bind (check (sSlot0 segment = windowStart (baseOf p + index) (pSegBits p) \<and> sRows segment \<noteq> []) (BadStructure ''latest sealed segment'')) (\<lambda>_.
           ret (Some sample)))"
    have latest: "wp (latestSealedInDir L (pFanoutBits p) (Suc d') (dir ?st) (of_nat (length ?vec)) ?B) ?E (\<lambda>r. wp (?fin (fst r)) ?E Q) u" if u: "grows L s u" for u
    proof -
      have "wp (latestSealedInDir L (pFanoutBits p) (Suc d') (dir ?st) (of_nat (length ?vec)) ?B) ?E (\<lambda>r t. grows L u t \<and> fst r = lastEntry ?vec) u"
        unfolding v(1) sampleErr_grows [OF u, symmetric]
        by (rule latest_wp [OF L(1) fb d'(2) cacheOk_grows [OF u L(2)] dirStored_grows [OF u v(2)] ne len v(3)])
      then show ?thesis
      proof (rule wp_mono)
        fix r t assume r: "grows L u t \<and> fst r = lastEntry ?vec"
        then have t: "grows L s t" using u by (blast intro: grows_trans)
        have "segsStored L t p rows ?n" using st t unfolding segsStored_def segStored_def by (blast intro: grows_held)
        then show "wp (?fin (fst r)) ?E Q t"
          using r post [OF t] unfolding sampleErr_grows [OF t, symmetric] by (auto intro!: latest_sample_wp [OF L(1)])
      qed simp
    qed
    have "wp (openOrd L ?st) ?E (\<lambda>openW. wp (latestSealedInDir L (pFanoutBits p) ?d (dir ?st) (openW - baseOf p) ?B) ?E (\<lambda>r. wp (?fin (fst r)) ?E Q)) s"
      by (rule wp_mono [OF openOrd_wp [OF L body, where Q = "\<lambda>w t. w = ord (x + 1) (pSegBits p) \<and> grows L s t" and big = big]])
        (use latest in \<open>auto simp: lim d'(1) sampleErr_def\<close>)
    then show ?thesis
      unfolding LatestSealedSegmentSample_def Let_def case_prod_unfold wp_bind [of "gets _"] wp_gets p wp_bind [of "openOrd _ _"]
        wp_bind [of "latestSealedInDir _ _ _ _ _ _"]
      using False p(3) by (simp only: simp_thms if_False wp_bind [of "openOrd _ _"] wp_bind [of "latestSealedInDir _ _ _ _ _ _"])
  qed
qed

end
