(* ===== verification/Manifest.thy ===== *)
theory Manifest
  imports SchemaCodec
begin

text \<open>
  Filter manifests, \<open>schema/manifest.go\<close>: the content-addressed statement of a chain head's source
  schedule, linked to the statement it replaced. The encoding leaves out every key that does not apply
  to a source's type and the end block of an open-ended source; the decoder refuses every other
  spelling. The round trip is the \<open>node_codec\<close> contract with the canonical form \<open>canonManifest\<close>.
\<close>

abbreviation (input) ManifestVersion :: u64 where "ManifestVersion \<equiv> 1"
abbreviation (input) AddressSize :: nat where "AddressSize \<equiv> 20"
abbreviation (input) TopicSize :: nat where "TopicSize \<equiv> 32"

definition SourceInboxEvents :: string where "SourceInboxEvents = ''inbox-events''"
definition SourceBlobTxs :: string where "SourceBlobTxs = ''blob-txs''"

record Source =
  srcType :: string
  srcAddress :: bytes
  srcTopic :: bytes
  srcSenders :: "bytes list"
  srcFromBlock :: u64
  srcUntilBlock :: u64
  srcOpenEnded :: bool

record 'd Manifest =
  mV :: u64
  mHead :: string
  mSources :: "Source list"
  mPrev :: "'d link"

fun sendersOk :: "nat \<Rightarrow> bytes list \<Rightarrow> serr + unit" where
  "sendersOk i [] = Inr ()"
| "sendersOk i (b # bs) = (if length b \<noteq> AddressSize then Inl (BadSource i ''sender size'') else sendersOk i bs)"

definition SourceValidate :: "nat \<Rightarrow> Source \<Rightarrow> serr + unit" where
  "SourceValidate i s =
     (if length (srcAddress s) \<noteq> AddressSize then Inl (BadSource i ''address size'')
      else bindE
        (if srcType s = SourceInboxEvents then
           (if length (srcTopic s) \<noteq> TopicSize then Inl (BadSource i ''topic size'')
            else if srcSenders s \<noteq> [] then Inl (BadSource i ''senders on inbox-events'')
            else Inr ())
         else if srcType s = SourceBlobTxs then
           (if srcSenders s = [] then Inl (BadSource i ''empty allowlist'')
            else bindE (sendersOk i (srcSenders s)) (\<lambda>_.
              if srcTopic s \<noteq> [] then Inl (BadSource i ''topic on blob-txs'') else Inr ()))
         else Inl (BadSource i ''unknown type''))
        (\<lambda>_. if \<not> srcOpenEnded s \<and> srcUntilBlock s < srcFromBlock s
              then Inl (BadSource i ''until precedes from'') else Inr ()))"

fun sourcesValidate :: "nat \<Rightarrow> Source list \<Rightarrow> serr + unit" where
  "sourcesValidate i [] = Inr ()"
| "sourcesValidate i (s # ss) = bindE (SourceValidate i s) (\<lambda>_. sourcesValidate (Suc i) ss)"

definition ManifestValidate :: "'d Manifest \<Rightarrow> serr + unit" where
  "ManifestValidate m =
     (if mV m \<noteq> ManifestVersion then Inl (UnknownVersion ''manifest'' (sint (mV m)))
      else if \<not> headNameRE (mHead m) then Inl (BadHeadName (mHead m))
      else if mSources m = [] then Inl (EmptySources (mHead m))
      else sourcesValidate 0 (mSources m))"

section \<open>Encoding\<close>

definition sourceNode :: "Source \<Rightarrow> 'd node" where
  "sourceNode s = NMap
     ([(''type'', NString (srcType s)), (''address'', NBytes (srcAddress s))] @
      (if srcType s = SourceInboxEvents then [(''topic'', NBytes (srcTopic s))] else []) @
      (if srcType s = SourceBlobTxs then [(''senders'', NList (map NBytes (srcSenders s)))] else []) @
      [(''from_block'', qpInt (srcFromBlock s))] @
      (if \<not> srcOpenEnded s then [(''until_block'', qpInt (srcUntilBlock s))] else []))"

definition manifestNode :: "'d Manifest \<Rightarrow> 'd node" where
  "manifestNode m = NMap
     [(''v'', qpInt (mV m)),
      (''head'', NString (mHead m)),
      (''sources'', NList (map sourceNode (mSources m))),
      (''prev'', nullableLink (mPrev m))]"

definition EncodeManifest :: "('b, 'd) lib \<Rightarrow> 'd Manifest \<Rightarrow> serr + 'b \<times> 'd cid" where
  "EncodeManifest L m =
     bindE (ManifestValidate m) (\<lambda>_.
     bindE (checkCBORInt ''manifest'' ''v'' (mV m)) (\<lambda>_.
     bindE (checkCBORInts ''manifest''
       (concat (map (\<lambda>s. (''from_block'', srcFromBlock s) #
          (if \<not> srcOpenEnded s then [(''until_block'', srcUntilBlock s)] else [])) (mSources m)))) (\<lambda>_.
     encodeNode L (manifestNode m))))"

section \<open>Decoding\<close>

definition manifestKeys :: "string list" where
  "manifestKeys = [''v'', ''head'', ''sources'', ''prev'']"

definition sourceKeys :: "string list" where
  "sourceKeys = [''type'', ''address'', ''topic'', ''senders'', ''from_block'', ''until_block'']"

definition checkManifestVersion :: "'d node \<Rightarrow> serr + unit" where
  "checkManifestVersion n = bindE (asInt (NotAnInt ''manifest'' ''v'') n) (\<lambda>v.
     if v \<noteq> 1 then Inl (UnknownVersion ''manifest'' v) else Inr ())"

definition sourceBytes :: "string \<Rightarrow> 'd node \<Rightarrow> serr + bytes" where
  "sourceBytes key n = asBytes (NotBytes ''manifest'' key) n"

definition decodeSenders :: "'d node \<Rightarrow> serr + bytes list" where
  "decodeSenders n = bindE (asList (NotAList ''manifest'' ''senders'') n) (\<lambda>xs.
     mapE (\<lambda>_. asBytes (NotBytes ''manifest'' ''senders'')) 0 xs)"

definition decodeUntil :: "nat \<Rightarrow> 'd node option \<Rightarrow> serr + u64 \<times> bool" where
  "decodeUntil idx ub = (case ub of
     None \<Rightarrow> Inr (0, True)
   | Some ubNode \<Rightarrow>
       if ubNode = NNull then Inl (ExplicitNull idx ''until_block'')
       else bindE (fieldUint ''manifest'' ''until_block'' ubNode) (\<lambda>u. Inr (u, False)))"

definition decodeSourceFields :: "nat \<Rightarrow> 'd fields \<Rightarrow> serr + Source" where
  "decodeSourceFields idx present = (case present ''type'' of
     None \<Rightarrow> Inl (MissingField ''source'' ''type'')
   | Some typeNode \<Rightarrow>
     bindE (asString (NotAString ''source'' ''type'') typeNode) (\<lambda>typ.
     bindE (if typ = SourceInboxEvents then Inr ''topic''
            else if typ = SourceBlobTxs then Inr ''senders''
            else Inl (BadSource idx ''unknown type'')) (\<lambda>own.
     if list_ex (\<lambda>key. present key \<noteq> None \<and>
          key \<notin> {''type'', ''address'', ''from_block'', ''until_block'', own}) sourceKeys
     then Inl (BadSource idx ''field of another type'')
     else
     bindE (requireFields ''source'' present [''type'', ''address'', ''from_block'', own]) (\<lambda>_.
     bindE (sourceBytes ''address'' (fld present ''address'')) (\<lambda>address.
     bindE (fieldUint ''manifest'' ''from_block'' (fld present ''from_block'')) (\<lambda>from.
     bindE (decodeUntil idx (present ''until_block'')) (\<lambda>(until, openEnded).
     bindE (if typ = SourceInboxEvents then sourceBytes ''topic'' (fld present ''topic'') else Inr []) (\<lambda>topic.
     bindE (if typ = SourceBlobTxs then decodeSenders (fld present ''senders'') else Inr []) (\<lambda>senders.
     Inr \<lparr>srcType = typ, srcAddress = address, srcTopic = topic, srcSenders = senders,
          srcFromBlock = from, srcUntilBlock = until, srcOpenEnded = openEnded\<rparr>)))))))))"

definition decodeSource :: "nat \<Rightarrow> 'd node \<Rightarrow> serr + Source" where
  "decodeSource idx n = (case n of
     NMap kvs \<Rightarrow> bindE (collectFields ''source'' sourceKeys Map.empty kvs) (decodeSourceFields idx)
   | _ \<Rightarrow> Inl (NotAMap ''source''))"

definition DecodeManifest :: "('b, 'd) lib \<Rightarrow> 'b \<Rightarrow> serr + 'd Manifest" where
  "DecodeManifest L block =
     bindE (decodeNode L block) (\<lambda>n.
     bindE (mapFields ''manifest'' n manifestKeys) (\<lambda>fm.
     bindE (checkManifestVersion (fld fm ''v'')) (\<lambda>_.
     bindE (fieldString ''manifest'' ''head'' (fld fm ''head'')) (\<lambda>head.
     bindE (asList (NotAList ''manifest'' ''sources'') (fld fm ''sources'')) (\<lambda>srcNodes.
     bindE (mapE decodeSource 0 srcNodes) (\<lambda>sources.
     bindE (fieldNullableLink ''manifest'' ''prev'' (fld fm ''prev'')) (\<lambda>prev.
     let m = \<lparr>mV = ManifestVersion, mHead = head, mSources = sources, mPrev = prev\<rparr>
     in bindE (ManifestValidate m) (\<lambda>_. Inr m))))))))"

section \<open>Round trip\<close>

text \<open>The one field that does not survive: the end block of a source that has none.\<close>

definition canonSource :: "Source \<Rightarrow> Source" where
  "canonSource s = (if srcOpenEnded s then s\<lparr>srcUntilBlock := 0\<rparr> else s)"

definition canonManifest :: "'d Manifest \<Rightarrow> 'd Manifest" where
  "canonManifest m = m\<lparr>mSources := map canonSource (mSources m)\<rparr>"

lemma type_strings [simp]: "SourceInboxEvents \<noteq> SourceBlobTxs" "SourceBlobTxs \<noteq> SourceInboxEvents"
  by (simp_all add: SourceInboxEvents_def SourceBlobTxs_def)

lemma collectFields_canon:
  assumes "distinct (map fst kvs)" "fst ` set kvs \<subseteq> set want"
  shows "collectFields obj want Map.empty (sort_key rfc7049_key (map (map_prod id canonNode) kvs)) =
    Inr (map_of (map (map_prod id canonNode) kvs))"
proof -
  let ?ys = "map (map_prod id canonNode) kvs"
  have d: "distinct (map fst ?ys)" using assms(1) by (simp add: comp_def)
  then have ds: "distinct (map fst (sort_key rfc7049_key ?ys))" by (simp only: distinct_map distinct_sort set_sort)
  have "map_of (rev (sort_key rfc7049_key ?ys)) = map_of (sort_key rfc7049_key ?ys)"
    using ds map_of_inject_set [of "rev (sort_key rfc7049_key ?ys)" "sort_key rfc7049_key ?ys"]
    by (simp flip: rev_map)
  moreover have "fst ` set (sort_key rfc7049_key ?ys) \<subseteq> set want" using assms(2) by (simp add: image_image)
  ultimately show ?thesis using collectFields_ok map_of_canon [OF assms(1)] by (metis map_add_empty empty_map_add)
qed

lemma mapE_map: "mapE f i (map g xs) = mapE (\<lambda>j x. f j (g x)) i xs"
  by (induction xs arbitrary: i) simp_all

lemma mapE_asBytes: "mapE (\<lambda>_. asBytes e) i (map NBytes bs) = Inr bs"
  by (rule mapE_map_inv) (simp add: asBytes_def)

definition sourceInts :: "Source \<Rightarrow> bool" where
  "sourceInts s \<longleftrightarrow> srcFromBlock s \<le> maxInt64 \<and> (\<not> srcOpenEnded s \<longrightarrow> srcUntilBlock s \<le> maxInt64)"

lemma SourceValidate_type:
  "SourceValidate i s = Inr () \<Longrightarrow>
     srcType s = SourceInboxEvents \<and> srcSenders s = [] \<or> srcType s = SourceBlobTxs \<and> srcTopic s = []"
  by (auto simp: SourceValidate_def bindE_Inr_iff split: if_splits)

lemma decodeSource_canon:
  assumes "distinct (map fst kvs)" "fst ` set kvs \<subseteq> set sourceKeys"
  shows "decodeSource j (canonNode (NMap kvs)) = decodeSourceFields j (map_of (map (map_prod id canonNode) kvs))"
  using collectFields_canon [OF assms] by (simp add: decodeSource_def)

lemma source_roundtrip:
  assumes v: "SourceValidate i s = Inr ()" and ints: "sourceInts s"
  shows "decodeSource j (canonNode (sourceNode s :: 'd node)) = Inr (canonSource s)"
proof -
  define kvs :: "(string \<times> 'd node) list" where "kvs =
    [(''type'', NString (srcType s)), (''address'', NBytes (srcAddress s))] @
      (if srcType s = SourceInboxEvents then [(''topic'', NBytes (srcTopic s))] else []) @
      (if srcType s = SourceBlobTxs then [(''senders'', NList (map NBytes (srcSenders s)))] else []) @
      [(''from_block'', qpInt (srcFromBlock s))] @
      (if \<not> srcOpenEnded s then [(''until_block'', qpInt (srcUntilBlock s))] else [])"
  have "decodeSource j (canonNode (NMap kvs)) = decodeSourceFields j (map_of (map (map_prod id canonNode) kvs))"
    by (rule decodeSource_canon) (auto simp: kvs_def sourceKeys_def)
  also have "\<dots> = Inr (canonSource s)"
    using SourceValidate_type [OF v]
  proof (elim disjE conjE)
    assume "srcType s = SourceInboxEvents" "srcSenders s = []"
    then show ?thesis using ints
      by (cases s; cases "srcOpenEnded s")
        (simp_all add: kvs_def decodeSourceFields_def sourceKeys_def sourceInts_def asString_def
          fld_def sourceBytes_def asBytes_def fieldUint_qpInt decodeUntil_def canonSource_def)
  next
    assume "srcType s = SourceBlobTxs" "srcTopic s = []"
    then show ?thesis using ints
      by (cases s; cases "srcOpenEnded s")
        (simp_all add: kvs_def decodeSourceFields_def sourceKeys_def sourceInts_def asString_def
          fld_def sourceBytes_def fieldUint_qpInt decodeUntil_def canonSource_def decodeSenders_def
          asList_def mapE_asBytes comp_def, simp_all add: asBytes_def)
  qed
  finally show ?thesis by (simp add: kvs_def sourceNode_def)
qed

lemma wfNode_sourceNode: "sourceInts s \<Longrightarrow> wfNode (sourceNode s)"
  by (auto simp: sourceNode_def sourceInts_def wfNode_qpInt list_all_iff)

lemma SourceValidate_canon [simp]: "SourceValidate i (canonSource s) = SourceValidate i s"
  by (simp add: SourceValidate_def canonSource_def)

lemma sourcesValidate_canon [simp]: "sourcesValidate i (map canonSource ss) = sourcesValidate i ss"
  by (induction ss arbitrary: i) simp_all

lemma ManifestValidate_canon [simp]: "ManifestValidate (canonManifest m) = ManifestValidate m"
  by (simp add: ManifestValidate_def canonManifest_def)

lemma sourcesValidate_Inr: "sourcesValidate i ss = Inr () \<Longrightarrow> s \<in> set ss \<Longrightarrow> \<exists>j. SourceValidate j s = Inr ()"
  by (induction ss arbitrary: i) (auto simp: bindE_Inr_iff)

definition manifestEncodable :: "'d Manifest \<Rightarrow> bool" where
  "manifestEncodable m \<longleftrightarrow> ManifestValidate m = Inr () \<and> (\<forall>s\<in>set (mSources m). sourceInts s)"

lemma EncodeManifest_iff:
  "EncodeManifest L m = Inr (b, c) \<longleftrightarrow> manifestEncodable m \<and> encodeNode L (manifestNode m) = Inr (b, c)"
  by (auto simp: EncodeManifest_def bindE_Inr_iff manifestEncodable_def sourceInts_def ManifestValidate_def
      maxInt64_def split: if_splits)

lemma wfNode_manifestNode: "manifestEncodable m \<Longrightarrow> wfNode (manifestNode m)"
  by (auto simp: manifestNode_def manifestEncodable_def wfNode_sourceNode list_all_iff ManifestValidate_def
      maxInt64_def intro!: wfNode_qpInt split: if_splits)

lemma manifest_roundtrip:
  fixes m :: "'d Manifest"
  assumes L: "lib_ok L" and enc: "EncodeManifest L m = Inr (b, c)"
  shows "DecodeManifest L b = Inr (canonManifest m)"
proof -
  have e: "manifestEncodable m" and n: "encodeNode L (manifestNode m) = Inr (b, c)"
    using enc by (simp_all add: EncodeManifest_iff)
  have v: "ManifestValidate m = Inr ()" and ints: "\<forall>s\<in>set (mSources m). sourceInts s"
    using e by (simp_all add: manifestEncodable_def)
  have V: "mV m = 1" using v by (simp add: ManifestValidate_def split: if_splits)
  have srcs: "mapE decodeSource 0 (map (canonNode \<circ> (sourceNode :: Source \<Rightarrow> 'd node)) (mSources m)) = Inr (map canonSource (mSources m))"
  proof -
    have "decodeSource j ((canonNode \<circ> (sourceNode :: Source \<Rightarrow> 'd node)) s) = Inr (canonSource s)" if "s \<in> set (mSources m)" for j s
      using v that ints sourcesValidate_Inr source_roundtrip
      by (auto simp: ManifestValidate_def split: if_splits) blast
    then have "mapE (\<lambda>j s. decodeSource j ((canonNode \<circ> (sourceNode :: Source \<Rightarrow> 'd node)) s)) 0 (mSources m) = Inr (map canonSource (mSources m))"
      by (rule mapE_total)
    then show ?thesis by (simp add: mapE_map)
  qed
  have "mapFields ''manifest'' (canonNode (manifestNode m)) manifestKeys =
    Inr (map_of [(''v'', qpInt (mV m)), (''head'', NString (mHead m)),
      (''sources'', NList (map (canonNode \<circ> sourceNode) (mSources m))), (''prev'', nullableLink (mPrev m))])"
    unfolding manifestNode_def by (subst mapFields_canon) (auto simp: manifestKeys_def)
  moreover have "canonManifest m = \<lparr>mV = 1, mHead = mHead m, mSources = map canonSource (mSources m), mPrev = mPrev m\<rparr>"
    using V by (cases m) (simp add: canonManifest_def)
  moreover from this have "ManifestValidate \<lparr>mV = 1, mHead = mHead m, mSources = map canonSource (mSources m), mPrev = mPrev m\<rparr> = Inr ()"
    using ManifestValidate_canon [of m] v by simp
  ultimately show ?thesis
    using decode_encodeNode [OF L wfNode_manifestNode [OF e] n] srcs V
    by (simp add: DecodeManifest_def Let_def fld_def checkManifestVersion_def asInt_def asList_def
        fieldString_def asString_def qpInt_def)
qed

lemma sourceNode_canon [simp]: "sourceNode (canonSource s) = sourceNode s"
  by (simp add: sourceNode_def canonSource_def)

lemma sourceInts_canon [simp]: "sourceInts (canonSource s) = sourceInts s"
  by (simp add: sourceInts_def canonSource_def)

lemma EncodeManifest_canon: "EncodeManifest L (canonManifest m) = EncodeManifest L m"
proof -
  have "manifestNode (canonManifest m) = manifestNode m"
    by (simp add: manifestNode_def canonManifest_def comp_def)
  moreover have "(\<lambda>s. (''from_block'', srcFromBlock s) #
      (if \<not> srcOpenEnded s then [(''until_block'', srcUntilBlock s)] else [])) \<circ> canonSource =
    (\<lambda>s. (''from_block'', srcFromBlock s) #
      (if \<not> srcOpenEnded s then [(''until_block'', srcUntilBlock s)] else []))"
    by (simp add: fun_eq_iff canonSource_def)
  ultimately show ?thesis
    by (simp add: EncodeManifest_def) (simp add: canonManifest_def)
qed

interpretation manC: node_codec lib_ok NodeCID EncodeManifest DecodeManifest canonManifest manifestEncodable
proof unfold_locales
qed (auto simp: manifest_roundtrip EncodeManifest_iff wfNode_manifestNode encodeNode_total EncodeManifest_canon
    dest: NodeCID_inj encodeNode_Inr(2))

end
