(* ===== verification/Concrete.thy ===== *)
theory Concrete
  imports Reopen Sample Manifest
begin

text \<open>
  A concrete instance of everything the model takes as a parameter, and a small archive made with it: the library
  routines, a block store with one blob, and the engine after \<open>New\<close> and after one \<open>ApplyRefs\<close>. It shows that the
  hypotheses of the theorems hold somewhere.
\<close>

section \<open>Library routines\<close>

text \<open>Blocks are the data-model nodes themselves in canonical form, and the digest of a block is the block.\<close>

datatype wdig = WDig "wdig node"

definition wLib :: "(wdig node, wdig) lib" where
  "wLib = \<lparr>cborEncode = (\<lambda>n. if wfNode n then Some (canonNode n) else None), cborDecode = (\<lambda>b. Some b),
    mhSum = (\<lambda>t n b. Some (32, WDig b)), blen = (\<lambda>b. 100)\<rparr>"

lemma wLib_ok: "lib_ok wLib"
  by (simp add: lib_ok_def wLib_def)

section \<open>An archive\<close>

definition wParams :: Params where
  "wParams = \<lparr>pName = ''w'', pNet = ''n'', pOriginSlot = 1, pSegBits = 1, pFanoutBits = 1\<rparr>"

definition wBlob :: "wdig cid" where
  "wBlob = Cid 1 codecRaw SHA2_256 32 (WDig NNull)"

definition wBlocks :: "(wdig node, wdig) blocks" where
  "wBlocks = \<lparr>contents = [cidHash wBlob \<mapsto> NNull], getFault = (\<lambda>_. False), putFault = (\<lambda>_. False)\<rparr>"

definition wResolver :: "wdig resolver" where
  "wResolver vh = Inr (Some wBlob, True)"

definition wBatch :: "RefRow list" where
  "wBatch = [\<lparr>rrSlot = 1, rrVHs = [7, 8]\<rparr>, \<lparr>rrSlot = 4, rrVHs = [9]\<rparr>, \<lparr>rrSlot = 6, rrVHs = [7]\<rparr>]"

definition wStart :: "(wdig node, wdig) engine" where
  "wStart = newHead wBlocks None []"

definition wNew :: "(wdig node, wdig) engine" where
  "wNew = snd (New wLib wParams wStart)"

definition wFull :: "(wdig node, wdig) engine" where
  "wFull = snd (ApplyRefs wLib (Some wResolver) wBatch 6 wNew)"

definition wRows :: "wdig Row list" where
  "wRows = map (rowOf wResolver) wBatch"

lemma wParams_ok: "paramsOk wParams"
  by (simp add: paramsOk_def wParams_def fanoutOk_def headNameRE_def headNameChar_def)

lemma wStart_ok: "faultless wLib wStart" "cacheOk wLib wStart" "proofsOk wLib (enStructure wStart)" "held wLib wStart wBlob NNull"
  by (simp_all add: faultless_def wStart_def newHead_def wBlocks_def wLib_def cacheOk_def proofsOk_def held_def has_def wBlob_def
      prefixSum_def cidPrefix_def)

lemma wNew_run: "\<exists>st. New wLib wParams wStart = (Inr st, wNew) \<and> moves wLib wStart wNew \<and> headOk wLib wNew (cur wNew) wParams [] None"
proof -
  have "wp (New wLib wParams) (envErr wLib False wStart) (\<lambda>_ t. moves wLib wStart t \<and> headOk wLib t (cur t) wParams [] None) wStart"
    by (rule New_wp [OF wLib_ok wParams_ok]) (simp_all add: wParams_def maxInt64_def)
  from faultless_run [OF wStart_ok(1) this] show ?thesis by (auto simp: wNew_def)
qed

lemma wNew_ok:
  "faultless wLib wNew" "cacheOk wLib wNew" "headOk wLib wNew (cur wNew) wParams [] None" "held wLib wNew wBlob NNull" "reach wLib wParams wNew"
  using wNew_run wStart_ok by (auto intro: faultless_moves moves_cacheOk moves_held reach.created)

lemma wAvailable: "moves wLib wStart s \<Longrightarrow> available wLib s wResolver vh"
  using moves_held [OF _ wStart_ok(4)] by (auto simp: available_def wResolver_def)

lemma wBatch_shape: "shapeOk wParams wBatch 6"
  by (simp add: shapeOk_def wParams_def wBatch_def)

lemma wFull_run: "\<exists>r. ApplyRefs wLib (Some wResolver) wBatch 6 wNew = (Inr r, wFull) \<and> moves wLib wNew wFull \<and>
    headOk wLib wFull (cur wFull) wParams wRows (Some 6)"
proof -
  have "wp (ApplyRefs wLib (Some wResolver) wBatch 6) (envErr wLib False wNew)
      (\<lambda>_ t. moves wLib wNew t \<and> headOk wLib t (cur t) wParams ([] @ wRows) (Some 6)) wNew"
    unfolding wRows_def
    by (rule ApplyRefs_extend_wp [OF wLib_ok wNew_ok(2,3) wBatch_shape])
      (use wNew_run in \<open>auto intro: wAvailable simp: resumeSlot_def wParams_def wBatch_def maxInt64_def\<close>)
  from faultless_run [OF wNew_ok(1) this] show ?thesis by (auto simp: wFull_def)
qed

lemma wFull_ok:
  "faultless wLib wFull" "cacheOk wLib wFull" "headOk wLib wFull (cur wFull) wParams wRows (Some 6)" "held wLib wFull wBlob NNull"
  "reach wLib wParams wFull"
  using wFull_run wNew_ok by (auto intro: faultless_moves moves_cacheOk moves_held reach.applied)

text \<open>The same rows in two batches.\<close>

definition wHalf :: "(wdig node, wdig) engine" where
  "wHalf = snd (ApplyRefs wLib (Some wResolver) (take 1 wBatch) 3 wNew)"

definition wTwice :: "(wdig node, wdig) engine" where
  "wTwice = snd (ApplyRefs wLib (Some wResolver) (drop 1 wBatch) 6 wHalf)"

lemma wHalf_run: "\<exists>r. ApplyRefs wLib (Some wResolver) (take 1 wBatch) 3 wNew = (Inr r, wHalf) \<and> moves wLib wNew wHalf \<and>
    headOk wLib wHalf (cur wHalf) wParams (map (rowOf wResolver) (take 1 wBatch)) (Some 3)"
proof -
  have "wp (ApplyRefs wLib (Some wResolver) (take 1 wBatch) 3) (envErr wLib False wNew)
      (\<lambda>_ t. moves wLib wNew t \<and> headOk wLib t (cur t) wParams ([] @ map (rowOf wResolver) (take 1 wBatch)) (Some 3)) wNew"
    by (rule ApplyRefs_extend_wp [OF wLib_ok wNew_ok(2,3)])
      (use wNew_run in \<open>auto intro: wAvailable simp: resumeSlot_def shapeOk_def wParams_def wBatch_def maxInt64_def\<close>)
  from faultless_run [OF wNew_ok(1) this] show ?thesis by (auto simp: wHalf_def)
qed

lemma wHalf_ok: "faultless wLib wHalf" "cacheOk wLib wHalf" "reach wLib wParams wHalf" "held wLib wHalf wBlob NNull"
  using wHalf_run wNew_ok by (auto intro: faultless_moves moves_cacheOk moves_held reach.applied)

lemma wTwice_run: "\<exists>r. ApplyRefs wLib (Some wResolver) (drop 1 wBatch) 6 wHalf = (Inr r, wTwice) \<and> moves wLib wHalf wTwice \<and>
    headOk wLib wTwice (cur wTwice) wParams wRows (Some 6)"
proof -
  have ok: "headOk wLib wHalf (cur wHalf) wParams (map (rowOf wResolver) (take 1 wBatch)) (Some 3)" using wHalf_run by blast
  have rows: "wRows = map (rowOf wResolver) (take 1 wBatch) @ map (rowOf wResolver) (drop 1 wBatch)"
    by (simp only: wRows_def map_append [symmetric] append_take_drop_id)
  have "wp (ApplyRefs wLib (Some wResolver) (drop 1 wBatch) 6) (envErr wLib False wHalf)
      (\<lambda>_ t. moves wLib wHalf t \<and> headOk wLib t (cur t) wParams wRows (Some 6)) wHalf"
    unfolding rows
    by (rule ApplyRefs_extend_wp [OF wLib_ok wHalf_ok(2) ok])
      (use wHalf_ok(4) in \<open>auto simp: resumeSlot_def shapeOk_def available_def wResolver_def wParams_def wBatch_def maxInt64_def\<close>)
  from faultless_run [OF wHalf_ok(1) this] show ?thesis by (auto simp: wTwice_def)
qed

lemma wTwice_ok:
  "cacheOk wLib wTwice" "headOk wLib wTwice (cur wTwice) wParams wRows (Some 6)" "reach wLib wParams wTwice" "faultless wLib wTwice"
  using wTwice_run wHalf_ok by (auto intro: faultless_moves moves_cacheOk reach.applied)

lemma LookupSlot_total:
  assumes "lib_ok L" "faultless L s" "cacheOk L s" "headOk L s (cur s) p rows syn"
  shows "fst (LookupSlot L slot s) = Inr (specLookup p rows syn slot)"
proof -
  have "wp (LookupSlot L slot) (envErr L False s) (\<lambda>r _. r = specLookup p rows syn slot) s"
    by (rule LookupSlot_wp [OF assms(1,3)]) (use assms(4) in \<open>auto simp: headOk_def\<close>)
  from faultless_run [OF assms(2) this] show ?thesis by auto
qed

definition wManifest :: "wdig Manifest" where
  "wManifest = \<lparr>mV = 1, mHead = ''w'', mSources = [\<lparr>srcType = SourceInboxEvents, srcAddress = replicate 20 1, srcTopic = replicate 32 2,
     srcSenders = [], srcFromBlock = 3, srcUntilBlock = 9, srcOpenEnded = True\<rparr>], mPrev = None\<rparr>"

end
