(* ===== verification/Epoch.thy ===== *)
theory Epoch
  imports Blockstore
begin

text \<open>
  The protection epochs of \<open>store/epoch.go\<close>: the application's view of the block store, which records the
  multihash of everything it reads or writes while a collection runs, and the collector's deletions, which
  recheck that record. Every operation holds the lifecycle lock and the lock of its key's shard for its whole
  body, so operations are atomic and a concurrent run is a sequence of them.
\<close>

section \<open>State\<close>

record 'd epochState =
  esId :: u64
  esShards :: "nat \<Rightarrow> 'd mhash set"
  esProtected :: int

text \<open>Epoch states are heap objects that the coordinator and the handles point to: a pointer is an index into
  \<open>epStates\<close>, and allocation appends.\<close>

record ('b, 'd) epochs =
  epBase :: "('b, 'd) blocks"
  epStates :: "'d epochState list"
  epActive :: "nat option"
  epNextID :: u64

record BlockstoreEpoch =
  beState :: nat
  beEnded :: bool
  beEndCount :: int

type_synonym ('b, 'd, 'a) ep = "(('b, 'd) epochs, 'd err, 'a) op"

definition NewBlockstoreEpochs :: "('b, 'd) blocks \<Rightarrow> ('b, 'd) epochs" where
  "NewBlockstoreEpochs base = \<lparr>epBase = base, epStates = [], epActive = None, epNextID = 0\<rparr>"

section \<open>The base store\<close>

text \<open>The operations of the validating store besides \<open>Get\<close>, which it inherits from the store below.\<close>

definition baseHas :: "('b, 'd) blocks \<Rightarrow> 'd cid \<Rightarrow> 'd err + bool" where
  "baseHas bs c = (if getFault bs c then Inl IOErr else Inr (contents bs (cidHash c) \<noteq> None))"

definition baseGetSize :: "('b, 'd) lib \<Rightarrow> ('b, 'd) blocks \<Rightarrow> 'd cid \<Rightarrow> 'd err + nat" where
  "baseGetSize L bs c = (if getFault bs c then Inl IOErr
     else case contents bs (cidHash c) of None \<Rightarrow> Inl (NotFound c) | Some data \<Rightarrow> Inr (blen L data))"

definition baseDelete :: "('b, 'd) blocks \<Rightarrow> 'd cid \<Rightarrow> ('d err + unit) \<times> ('b, 'd) blocks" where
  "baseDelete bs c = (if putFault bs c then (Inl IOErr, bs)
     else (Inr (), bs\<lparr>contents := (contents bs)(cidHash c := None)\<rparr>))"

fun basePutMany :: "('b, 'd) blocks \<Rightarrow> ('d cid \<times> 'b) list \<Rightarrow> ('d err + unit) \<times> ('b, 'd) blocks" where
  "basePutMany bs [] = (Inr (), bs)"
| "basePutMany bs ((c, data) # input) = (case basePut bs c data of
     (Inl e, bs') \<Rightarrow> (Inl e, bs')
   | (Inr _, bs') \<Rightarrow> basePutMany bs' input)"

section \<open>Keys and shards\<close>

abbreviation (input) epochShardCount :: nat where "epochShardCount \<equiv> 4096"

definition multihashKey :: "'d cid \<Rightarrow> 'd mhash" where
  "multihashKey c = cidHash c"

definition epochShardIndex :: "bytes \<Rightarrow> nat" where
  "epochShardIndex key =
     unat (foldl (\<lambda>hash b. (hash XOR ucast b) * 16777619) (2166136261 :: 32 word) key AND 4095)"

definition shardOf :: "'d cidLib \<Rightarrow> 'd mhash \<Rightarrow> nat" where
  "shardOf K key = epochShardIndex (mhBytes K key)"

definition touch :: "'d epochState \<Rightarrow> nat \<Rightarrow> 'd mhash \<Rightarrow> 'd epochState" where
  "touch state shard key =
     (if key \<in> esShards state shard then state
      else state\<lparr>esShards := (esShards state)(shard := insert key (esShards state shard)), esProtected := esProtected state + 1\<rparr>)"

text \<open>\<open>touch\<close> through the pointer that \<open>withKey\<close> hands to its callback: nil when no epoch is active.\<close>

definition touchAt :: "'d cidLib \<Rightarrow> nat option \<Rightarrow> 'd mhash \<Rightarrow> ('b, 'd) epochs \<Rightarrow> ('b, 'd) epochs" where
  "touchAt K state key s = (case state of
     None \<Rightarrow> s
   | Some a \<Rightarrow> s\<lparr>epStates := (epStates s)[a := touch (epStates s ! a) (shardOf K key) key]\<rparr>)"

definition touchMany :: "'d cidLib \<Rightarrow> nat option \<Rightarrow> ('d cid \<times> 'b) list \<Rightarrow> ('b, 'd) epochs \<Rightarrow> ('b, 'd) epochs" where
  "touchMany K state input s = foldl (\<lambda>t (c, _). touchAt K state (multihashKey c) t) s input"

definition withKey :: "'d cid \<Rightarrow> (nat option \<Rightarrow> 'd mhash \<Rightarrow> ('b, 'd, 'a) ep) \<Rightarrow> ('b, 'd, 'a) ep" where
  "withKey c fn s = fn (epActive s) (multihashKey c) s"

section \<open>Epochs\<close>

definition Begin :: "('b, 'd, BlockstoreEpoch) ep" where
  "Begin s = (case epActive s of
     Some a \<Rightarrow> (Inl (EpochActive (esId (epStates s ! a))), s)
   | None \<Rightarrow>
       let id1 = epNextID s + 1;
           id2 = (if id1 = 0 then id1 + 1 else id1);
           a = length (epStates s)
       in (Inr \<lparr>beState = a, beEnded = False, beEndCount = 0\<rparr>,
           s\<lparr>epNextID := id2, epStates := epStates s @ [\<lparr>esId = id2, esShards = (\<lambda>_. {}), esProtected = 0\<rparr>], epActive := Some a\<rparr>))"

definition ActiveEpoch :: "('b, 'd) epochs \<Rightarrow> u64" where
  "ActiveEpoch s = (case epActive s of None \<Rightarrow> 0 | Some a \<Rightarrow> esId (epStates s ! a))"

definition CollectionGeneration :: "('b, 'd) epochs \<Rightarrow> u64" where
  "CollectionGeneration s = epNextID s"

definition Protected :: "BlockstoreEpoch \<Rightarrow> ('b, 'd) epochs \<Rightarrow> int" where
  "Protected e s = esProtected (epStates s ! beState e)"

text \<open>\<open>DeleteCandidate\<close> returns whether it deleted and whether it found the block protected.\<close>

definition DeleteCandidate :: "'d cidLib \<Rightarrow> BlockstoreEpoch \<Rightarrow> 'd cid \<Rightarrow> ('b, 'd, bool \<times> bool) ep" where
  "DeleteCandidate K e c s =
     (if epActive s \<noteq> Some (beState e) then (Inl EpochEnded, s)
      else let key = multihashKey c in
        if key \<in> esShards (epStates s ! beState e) (shardOf K key) then (Inr (False, True), s)
        else case baseDelete (epBase s) c of
          (Inl err, bs) \<Rightarrow> (Inl err, s\<lparr>epBase := bs\<rparr>)
        | (Inr _, bs) \<Rightarrow> (Inr (True, False), s\<lparr>epBase := bs\<rparr>))"

definition End :: "BlockstoreEpoch \<Rightarrow> ('b, 'd) epochs \<Rightarrow> BlockstoreEpoch \<times> ('b, 'd) epochs" where
  "End e s = (if beEnded e then (e, s)
     else (e\<lparr>beEnded := True, beEndCount := esProtected (epStates s ! beState e)\<rparr>,
           if epActive s = Some (beState e) then s\<lparr>epActive := None\<rparr> else s))"

section \<open>The application's view\<close>

definition appDeleteBlock :: "'d cid \<Rightarrow> ('b, 'd, unit) ep" where
  "appDeleteBlock c = withKey c (\<lambda>_ _ s. case baseDelete (epBase s) c of (r, bs) \<Rightarrow> (r, s\<lparr>epBase := bs\<rparr>))"

definition appHas :: "'d cidLib \<Rightarrow> 'd cid \<Rightarrow> ('b, 'd, bool) ep" where
  "appHas K c = withKey c (\<lambda>state key s. case baseHas (epBase s) c of
     Inl e \<Rightarrow> (Inl e, s)
   | Inr present \<Rightarrow> (Inr present, if present then touchAt K state key s else s))"

definition appGet :: "('b, 'd) lib \<Rightarrow> 'd cidLib \<Rightarrow> 'd cid \<Rightarrow> ('b, 'd, 'b) ep" where
  "appGet L K c = withKey c (\<lambda>state key s. case validatingGet L (epBase s) c of
     Inl e \<Rightarrow> (Inl e, s)
   | Inr data \<Rightarrow> (Inr data, touchAt K state key s))"

definition appGetSize :: "('b, 'd) lib \<Rightarrow> 'd cidLib \<Rightarrow> 'd cid \<Rightarrow> ('b, 'd, nat) ep" where
  "appGetSize L K c = withKey c (\<lambda>state key s. case baseGetSize L (epBase s) c of
     Inl e \<Rightarrow> (Inl e, s)
   | Inr n \<Rightarrow> (Inr n, touchAt K state key s))"

definition appPut :: "'d cidLib \<Rightarrow> 'd cid \<Rightarrow> 'b \<Rightarrow> ('b, 'd, unit) ep" where
  "appPut K c data = withKey c (\<lambda>state key s. case basePut (epBase s) c data of
     (Inl e, bs) \<Rightarrow> (Inl e, s\<lparr>epBase := bs\<rparr>)
   | (Inr _, bs) \<Rightarrow> (Inr (), touchAt K state key (s\<lparr>epBase := bs\<rparr>)))"

text \<open>\<open>PutMany\<close> takes the locks of all shards of its input in ascending order and touches the whole input, whether
  the write succeeded or not.\<close>

definition appPutMany :: "'d cidLib \<Rightarrow> ('d cid \<times> 'b) list \<Rightarrow> ('b, 'd, unit) ep" where
  "appPutMany K input s = (case basePutMany (epBase s) input of (r, bs) \<Rightarrow>
     let s' = s\<lparr>epBase := bs\<rparr> in
     if epActive s = None \<or> input = [] then (r, s')
     else (r, touchMany K (epActive s) input s'))"

text \<open>\<open>AllKeysChan\<close> is refused during an epoch; while it drains, the lifecycle lock keeps an epoch from beginning.\<close>

definition appAllKeysChan :: "('b, 'd, unit) ep" where
  "appAllKeysChan s = (case epActive s of None \<Rightarrow> (Inr (), s) | Some a \<Rightarrow> (Inl (EpochActive (esId (epStates s ! a))), s))"

section \<open>Runs\<close>

text \<open>What the application asks of its view. \<open>AFaults\<close> changes which store accesses fail.\<close>

datatype ('b, 'd) action =
    AHas "'d cid"
  | AGet "'d cid"
  | AGetSize "'d cid"
  | APut "'d cid" 'b
  | APutMany "('d cid \<times> 'b) list"
  | ADelete "'d cid"
  | AList
  | AFaults "'d cid \<Rightarrow> bool" "'d cid \<Rightarrow> bool"

primrec runApp :: "('b, 'd) lib \<Rightarrow> 'd cidLib \<Rightarrow> ('b, 'd) action \<Rightarrow> ('b, 'd) epochs \<Rightarrow> ('b, 'd) epochs" where
  "runApp L K (AHas c) s = snd (appHas K c s)"
| "runApp L K (AGet c) s = snd (appGet L K c s)"
| "runApp L K (AGetSize c) s = snd (appGetSize L K c s)"
| "runApp L K (APut c data) s = snd (appPut K c data s)"
| "runApp L K (APutMany input) s = snd (appPutMany K input s)"
| "runApp L K (ADelete c) s = snd (appDeleteBlock c s)"
| "runApp L K AList s = snd (appAllKeysChan s)"
| "runApp L K (AFaults g p) s = s\<lparr>epBase := (epBase s)\<lparr>getFault := g, putFault := p\<rparr>\<rparr>"

datatype ('b, 'd) epStep =
    SApp "('b, 'd) action"
  | SBegin
  | SEnd BlockstoreEpoch
  | SDelete BlockstoreEpoch "'d cid"

primrec epDo :: "('b, 'd) lib \<Rightarrow> 'd cidLib \<Rightarrow> ('b, 'd) epochs \<Rightarrow> ('b, 'd) epStep \<Rightarrow> ('b, 'd) epochs" where
  "epDo L K s (SApp a) = runApp L K a s"
| "epDo L K s SBegin = snd (Begin s)"
| "epDo L K s (SEnd e) = snd (End e s)"
| "epDo L K s (SDelete e c) = snd (DeleteCandidate K e c s)"

text \<open>The keys a step of the application must leave protected: what it read successfully or wrote.\<close>

primrec appTouches :: "('b, 'd) lib \<Rightarrow> ('b, 'd) blocks \<Rightarrow> ('b, 'd) action \<Rightarrow> 'd mhash set" where
  "appTouches L bs (AHas c) = (if baseHas bs c = Inr True then {cidHash c} else {})"
| "appTouches L bs (AGet c) = (if \<exists>data. validatingGet L bs c = Inr data then {cidHash c} else {})"
| "appTouches L bs (AGetSize c) = (if \<exists>n. baseGetSize L bs c = Inr n then {cidHash c} else {})"
| "appTouches L bs (APut c data) = (if putFault bs c then {} else {cidHash c})"
| "appTouches L bs (APutMany input) = cidHash ` fst ` set input"
| "appTouches L bs (ADelete c) = {}"
| "appTouches L bs AList = {}"
| "appTouches L bs (AFaults g p) = {}"

fun stepTouches :: "('b, 'd) lib \<Rightarrow> ('b, 'd) epochs \<Rightarrow> ('b, 'd) epStep \<Rightarrow> 'd mhash set" where
  "stepTouches L s (SApp a) = appTouches L (epBase s) a"
| "stepTouches L s _ = {}"

primrec touchedAlong :: "('b, 'd) lib \<Rightarrow> 'd cidLib \<Rightarrow> ('b, 'd) epochs \<Rightarrow> ('b, 'd) epStep list \<Rightarrow> 'd mhash set" where
  "touchedAlong L K s [] = {}"
| "touchedAlong L K s (l # ls) = stepTouches L s l \<union> touchedAlong L K (epDo L K s l) ls"

fun endsEpoch :: "nat \<Rightarrow> ('b, 'd) epStep \<Rightarrow> bool" where
  "endsEpoch a (SEnd e) \<longleftrightarrow> beState e = a"
| "endsEpoch a _ \<longleftrightarrow> False"

fun deletesKey :: "'d mhash \<Rightarrow> ('b, 'd) epStep \<Rightarrow> bool" where
  "deletesKey k (SApp (ADelete c)) \<longleftrightarrow> cidHash c = k"
| "deletesKey k _ \<longleftrightarrow> False"

section \<open>The record of an epoch\<close>

definition touchedKeys :: "'d epochState \<Rightarrow> 'd mhash set" where
  "touchedKeys state = (\<Union>i. esShards state i)"

definition stateInv :: "'d cidLib \<Rightarrow> 'd epochState \<Rightarrow> bool" where
  "stateInv K state \<longleftrightarrow> (\<forall>i. \<forall>k\<in>esShards state i. shardOf K k = i) \<and> finite (touchedKeys state) \<and>
     esProtected state = int (card (touchedKeys state))"

definition epInv :: "'d cidLib \<Rightarrow> ('b, 'd) epochs \<Rightarrow> bool" where
  "epInv K s \<longleftrightarrow> (\<forall>st\<in>set (epStates s). stateInv K st) \<and>
     (\<forall>a. epActive s = Some a \<longrightarrow> a < length (epStates s) \<and> esId (epStates s ! a) = epNextID s \<and> epNextID s \<noteq> 0)"

text \<open>The keys protected at state \<open>a\<close>.\<close>

definition keysAt :: "('b, 'd) epochs \<Rightarrow> nat \<Rightarrow> 'd mhash set" where
  "keysAt s a = touchedKeys (epStates s ! a)"

lemma touchedKeys_touch [simp]: "touchedKeys (touch st i k) = insert k (touchedKeys st)" if "k \<in> touchedKeys st \<longrightarrow> k \<in> esShards st i"
  using that by (auto simp: touchedKeys_def touch_def split: if_splits)

lemma stateInv_mem: "stateInv K st \<Longrightarrow> k \<in> touchedKeys st \<longleftrightarrow> k \<in> esShards st (shardOf K k)"
  by (auto simp: stateInv_def touchedKeys_def)

lemma touchedKeys_shard: "stateInv K st \<Longrightarrow> touchedKeys (touch st (shardOf K k) k) = insert k (touchedKeys st)"
  by (simp add: stateInv_mem)

lemma touch_id [simp]: "esId (touch st i k) = esId st"
  by (simp add: touch_def)

lemma stateInv_touch:
  assumes st: "stateInv K st" shows "stateInv K (touch st (shardOf K k) k)"
proof (cases "k \<in> esShards st (shardOf K k)")
  case False
  then have new: "k \<notin> touchedKeys st" using stateInv_mem [OF st] by simp
  have "esProtected (touch st (shardOf K k) k) = esProtected st + 1" using False by (simp add: touch_def)
  moreover have "\<forall>i. \<forall>x\<in>esShards (touch st (shardOf K k) k) i. shardOf K x = i"
    using st False by (auto simp: touch_def stateInv_def)
  ultimately show ?thesis using st new by (simp add: stateInv_def touchedKeys_shard [OF st])
qed (use st in \<open>simp add: touch_def\<close>)

lemma stateInv_empty: "stateInv K \<lparr>esId = i, esShards = (\<lambda>_. {}), esProtected = 0\<rparr>"
  by (simp add: stateInv_def touchedKeys_def)

lemma touchAt_simps [simp]:
  "epBase (touchAt K st k s) = epBase s" "epActive (touchAt K st k s) = epActive s" "epNextID (touchAt K st k s) = epNextID s"
  "length (epStates (touchAt K st k s)) = length (epStates s)" "touchAt K None k s = s"
  by (simp_all add: touchAt_def split: option.splits)

lemma update_nth_touch: "esId (xs[i := touch (xs ! i) j k] ! a) = esId (xs ! a)"
  by (cases "i < length xs"; cases "a = i") (simp_all add: list_update_beyond)

lemma touchAt_id [simp]: "esId (epStates (touchAt K st k s) ! a) = esId (epStates s ! a)"
  by (cases st; cases "a < length (epStates s)") (auto simp: touchAt_def update_nth_touch)

lemma touchAt_inv:
  assumes "epInv K s" shows "epInv K (touchAt K (epActive s) k s)"
proof (cases "epActive s")
  case (Some a)
  with assms have a: "a < length (epStates s)" by (simp add: epInv_def)
  then have "stateInv K (touch (epStates s ! a) (shardOf K k) k)" using assms by (auto simp: epInv_def intro: stateInv_touch)
  moreover have "set (epStates (touchAt K (epActive s) k s)) \<subseteq> insert (touch (epStates s ! a) (shardOf K k) k) (set (epStates s))"
    by (simp add: Some touchAt_def set_update_subset_insert)
  ultimately have "\<forall>st\<in>set (epStates (touchAt K (epActive s) k s)). stateInv K st"
    using assms unfolding epInv_def by blast
  with assms show ?thesis by (simp add: epInv_def)
qed (use assms in simp)

lemma touchAt_keys:
  assumes "epInv K s" "b < length (epStates s)"
  shows "keysAt (touchAt K (epActive s) k s) b = (if epActive s = Some b then insert k (keysAt s b) else keysAt s b)"
proof (cases "epActive s = Some b")
  case True
  have "stateInv K (epStates s ! b)" using assms by (simp add: epInv_def)
  with True assms(2) show ?thesis by (simp add: keysAt_def touchAt_def touchedKeys_shard)
next
  case False
  then show ?thesis by (cases "epActive s") (auto simp: keysAt_def touchAt_def)
qed

lemma epInv_base [simp]: "epInv K (s\<lparr>epBase := bs\<rparr>) = epInv K s" "keysAt (s\<lparr>epBase := bs\<rparr>) = keysAt s"
  by (simp_all add: epInv_def keysAt_def fun_eq_iff)

lemma touchMany_simps [simp]:
  "epBase (touchMany K st input s) = epBase s" "epActive (touchMany K st input s) = epActive s"
  "epNextID (touchMany K st input s) = epNextID s" "length (epStates (touchMany K st input s)) = length (epStates s)"
  unfolding touchMany_def by (induction input arbitrary: s) auto

lemma touchMany_Nil [simp]: "touchMany K st [] s = s"
  by (simp add: touchMany_def)

lemma touchMany_Cons [simp]: "touchMany K st ((c, data) # input) s = touchMany K st input (touchAt K st (cidHash c) s)"
  by (simp add: touchMany_def multihashKey_def)

lemma touchMany_inv: "epInv K s \<Longrightarrow> epActive s = st \<Longrightarrow> epInv K (touchMany K st input s)"
proof (induction input arbitrary: s)
  case (Cons x input)
  then show ?case using touchAt_inv [OF Cons.prems(1)] by (cases x) auto
qed simp

lemma touchMany_keys:
  "epInv K s \<Longrightarrow> epActive s = st \<Longrightarrow> b < length (epStates s) \<Longrightarrow>
    keysAt (touchMany K st input s) b = (if epActive s = Some b then cidHash ` fst ` set input \<union> keysAt s b else keysAt s b)"
proof (induction input arbitrary: s)
  case (Cons x input)
  obtain c data where x: "x = (c, data)" by (cases x)
  let ?s = "touchAt K st (cidHash c) s"
  have inv: "epInv K ?s" using touchAt_inv [OF Cons.prems(1)] Cons.prems(2) by simp
  have keys: "keysAt ?s b = (if epActive s = Some b then insert (cidHash c) (keysAt s b) else keysAt s b)"
    using touchAt_keys [OF Cons.prems(1,3)] Cons.prems(2) by simp
  have "keysAt (touchMany K st input ?s) b =
      (if epActive ?s = Some b then cidHash ` fst ` set input \<union> keysAt ?s b else keysAt ?s b)"
    using Cons.prems by (intro Cons.IH [OF inv]) simp_all
  then show ?case by (simp add: x keys)
qed simp


lemmas app_defs = appHas_def appGet_def appGetSize_def appPut_def appPutMany_def appDeleteBlock_def appAllKeysChan_def
  withKey_def multihashKey_def

lemma runApp_inv:
  assumes "epInv K s" shows "epInv K (runApp L K a s)"
  using assms touchAt_inv [OF assms] touchAt_inv [of K "s\<lparr>epBase := bs\<rparr>" for bs] touchMany_inv [of K "s\<lparr>epBase := bs\<rparr>" "epActive s" for bs]
  by (cases a) (auto simp: app_defs Let_def split: sum.splits prod.splits option.splits)

lemma runApp_simps [simp]:
  "epActive (runApp L K a s) = epActive s" "epNextID (runApp L K a s) = epNextID s"
  "length (epStates (runApp L K a s)) = length (epStates s)"
  by (cases a; auto simp: app_defs Let_def split: sum.splits prod.splits option.splits)+

lemma touchAt_keys_at:
  "epInv K s \<Longrightarrow> b < length (epStates s) \<Longrightarrow> epActive s = st \<Longrightarrow>
    keysAt (touchAt K st k s) b = (if st = Some b then insert k (keysAt s b) else keysAt s b)"
  using touchAt_keys by metis

lemma runApp_keys:
  assumes "epInv K s" "b < length (epStates s)"
  shows "keysAt (runApp L K a s) b = (if epActive s = Some b then appTouches L (epBase s) a \<union> keysAt s b else keysAt s b)"
  using assms
  by (cases a) (simp_all add: app_defs Let_def basePut_def touchAt_keys_at touchMany_keys split: sum.split prod.split option.split)

text \<open>The blocks of the store change only as the application asks.\<close>

lemma basePutMany_contents: "basePutMany bs input = (r, bs') \<Longrightarrow> contents bs k \<noteq> None \<Longrightarrow> contents bs' k \<noteq> None"
  by (induction bs input rule: basePutMany.induct) (auto simp: basePut_def split: sum.splits prod.splits if_splits)

lemma runApp_contents:
  "contents (epBase s) k \<noteq> None \<Longrightarrow> \<not> deletesKey k (SApp a) \<Longrightarrow> contents (epBase (runApp L K a s)) k \<noteq> None"
  by (cases a) (auto simp: app_defs Let_def basePut_def baseDelete_def dest: basePutMany_contents
    split: sum.splits prod.splits option.splits if_splits)

lemma Begin_spec:
  "epActive s = Some a \<Longrightarrow> Begin s = (Inl (EpochActive (esId (epStates s ! a))), s)"
  "epActive s = None \<Longrightarrow> \<exists>id. id \<noteq> 0 \<and> id \<noteq> epNextID s \<and>
     Begin s = (Inr \<lparr>beState = length (epStates s), beEnded = False, beEndCount = 0\<rparr>,
       s\<lparr>epNextID := id, epStates := epStates s @ [\<lparr>esId = id, esShards = (\<lambda>_. {}), esProtected = 0\<rparr>], epActive := Some (length (epStates s))\<rparr>)"
proof -
  show "Begin s = (Inl (EpochActive (esId (epStates s ! a))), s)" if "epActive s = Some a" using that by (simp add: Begin_def)
  have "(if epNextID s + 1 = 0 then epNextID s + 1 + 1 else epNextID s + 1) \<noteq> epNextID s" by auto
  then show "\<exists>id. id \<noteq> 0 \<and> id \<noteq> epNextID s \<and>
     Begin s = (Inr \<lparr>beState = length (epStates s), beEnded = False, beEndCount = 0\<rparr>,
       s\<lparr>epNextID := id, epStates := epStates s @ [\<lparr>esId = id, esShards = (\<lambda>_. {}), esProtected = 0\<rparr>], epActive := Some (length (epStates s))\<rparr>)"
    if "epActive s = None"
    using that by (intro exI [of _ "if epNextID s + 1 = 0 then epNextID s + 1 + 1 else epNextID s + 1"]) (auto simp: Begin_def Let_def)
qed

lemma DeleteCandidate_frame [simp]:
  "epActive (snd (DeleteCandidate K e c s)) = epActive s" "epStates (snd (DeleteCandidate K e c s)) = epStates s"
  "epNextID (snd (DeleteCandidate K e c s)) = epNextID s"
  by (auto simp: DeleteCandidate_def Let_def split: sum.splits prod.splits)

lemma End_frame [simp]:
  "epStates (snd (End e s)) = epStates s" "epNextID (snd (End e s)) = epNextID s" "epBase (snd (End e s)) = epBase s"
  by (auto simp: End_def)

lemma End_active: "epActive (snd (End e s)) = None \<or> epActive (snd (End e s)) = epActive s"
  by (auto simp: End_def)

lemma epDo_inv:
  assumes "epInv K s" shows "epInv K (epDo L K s l)"
proof (cases l)
  case SBegin
  show ?thesis
  proof (cases "epActive s")
    case None
    from Begin_spec(2) [OF this] assms SBegin show ?thesis by (auto simp: epInv_def stateInv_empty)
  next
    case (Some a)
    with SBegin assms Begin_spec(1) [OF Some] show ?thesis by simp
  qed
next
  case (SEnd e)
  with assms End_active [of e s] show ?thesis by (auto simp: epInv_def)
next
  case (SDelete e c)
  with assms show ?thesis by (simp add: epInv_def)
qed (use assms runApp_inv in simp)

text \<open>While epoch \<open>a\<close> is active nobody else begins one, and its record grows by exactly the keys the step touches.\<close>

lemma epDo_keys:
  assumes inv: "epInv K s" and a: "epActive s = Some a" and ne: "\<not> endsEpoch a l"
  shows "epActive (epDo L K s l) = Some a \<and> keysAt (epDo L K s l) a = stepTouches L s l \<union> keysAt s a"
proof -
  have "a < length (epStates s)" using inv a by (simp add: epInv_def)
  then show ?thesis using ne a runApp_keys [OF inv] Begin_spec(1) [OF a]
    by (cases l) (auto simp: keysAt_def End_def)
qed

lemma DeleteCandidate_protected:
  assumes "epInv K s" "epActive s = Some a" "k \<in> keysAt s a"
  shows "contents (epBase (snd (DeleteCandidate K e c s))) k = contents (epBase s) k"
proof -
  have "stateInv K (epStates s ! a)" using assms by (simp add: epInv_def)
  with assms(2,3) show ?thesis
    by (auto simp: DeleteCandidate_def Let_def multihashKey_def keysAt_def stateInv_mem baseDelete_def split: if_splits)
qed

lemma epDo_contents:
  assumes inv: "epInv K s" and a: "epActive s = Some a" and k: "k \<in> keysAt s a" "contents (epBase s) k \<noteq> None"
    and ok: "\<not> endsEpoch a l" "\<not> deletesKey k l"
  shows "contents (epBase (epDo L K s l)) k \<noteq> None"
  using runApp_contents [OF k(2)] DeleteCandidate_protected [OF inv a k(1)] Begin_spec(1) [OF a] k ok
  by (cases l) (auto simp del: not_None_eq)

lemma run_protects:
  assumes "epInv K s" "epActive s = Some a" "\<forall>l\<in>set ls. \<not> endsEpoch a l"
  shows "epInv K (foldl (epDo L K) s ls) \<and> epActive (foldl (epDo L K) s ls) = Some a \<and>
    keysAt (foldl (epDo L K) s ls) a = touchedAlong L K s ls \<union> keysAt s a"
  using assms
proof (induction ls arbitrary: s)
  case (Cons l ls)
  have k: "epActive (epDo L K s l) = Some a \<and> keysAt (epDo L K s l) a = stepTouches L s l \<union> keysAt s a"
    using Cons.prems by (intro epDo_keys) auto
  show ?case using Cons.IH [OF epDo_inv [OF Cons.prems(1)]] k Cons.prems(3) by auto
qed simp

lemma run_contents:
  assumes "epInv K s" "epActive s = Some a" "k \<in> keysAt s a" "contents (epBase s) k \<noteq> None"
    "\<forall>l\<in>set ls. \<not> endsEpoch a l \<and> \<not> deletesKey k l"
  shows "contents (epBase (foldl (epDo L K) s ls)) k \<noteq> None"
  using assms
proof (induction ls arbitrary: s)
  case (Cons l ls)
  have k: "epActive (epDo L K s l) = Some a \<and> keysAt (epDo L K s l) a = stepTouches L s l \<union> keysAt s a"
    using Cons.prems by (intro epDo_keys) auto
  have "contents (epBase (epDo L K s l)) k \<noteq> None" using Cons.prems by (intro epDo_contents) auto
  then show ?case using Cons.IH [OF epDo_inv [OF Cons.prems(1)]] k Cons.prems(3,5) by auto
qed simp

lemma run_nextID:
  "epInv K s \<Longrightarrow> epActive s = Some a \<Longrightarrow> \<forall>l\<in>set ls. \<not> endsEpoch a l \<Longrightarrow> epNextID (foldl (epDo L K) s ls) = epNextID s"
proof (induction ls arbitrary: s)
  case (Cons l ls)
  have "epNextID (epDo L K s l) = epNextID s" using Begin_spec(1) [OF Cons.prems(2)] by (cases l) simp_all
  moreover have "epActive (epDo L K s l) = Some a" using epDo_keys [OF Cons.prems(1,2)] Cons.prems(3) by simp
  ultimately show ?case using Cons.IH [OF epDo_inv [OF Cons.prems(1)]] Cons.prems(3) by simp
qed simp

end
