(* ===== verification/Catalog.thy ===== *)
theory Catalog
  imports Blockstore "HOL-Library.List_Lexorder"
begin

text \<open>
  The node-local key-value structures of package \<open>catalog\<close>: the blob catalog (\<open>catalog.go\<close>), which maps a versioned
  hash to a blob, and the pin ledger (\<open>ledger.go\<close>). Both live in one ordered key-value database and are told apart
  by the first byte of the key.
\<close>

section \<open>The key-value database\<close>

text \<open>The rows in key order. \<open>kvFaults\<close> says, access by access, whether the database or the context fails; past its end
  nothing fails.\<close>

record kvdb =
  kvRows :: "(bytes \<times> bytes) list"
  kvFaults :: "bool list"

type_synonym ('d, 'a) kv = "(kvdb, 'd err, 'a) op"

definition faultOr :: "'d err \<Rightarrow> ('d, unit) kv" where
  "faultOr e s = (case kvFaults s of
     [] \<Rightarrow> (Inr (), s)
   | f # fs \<Rightarrow> (if f then Inl e else Inr (), s\<lparr>kvFaults := fs\<rparr>))"

definition ctxErr :: "('d, unit) kv" where
  "ctxErr = faultOr Cancelled"

datatype batchOp = BSet bytes bytes | BDelete bytes

primrec rowSet :: "bytes \<Rightarrow> bytes \<Rightarrow> (bytes \<times> bytes) list \<Rightarrow> (bytes \<times> bytes) list" where
  "rowSet k v [] = [(k, v)]"
| "rowSet k v (r # rows) =
     (if k = fst r then (k, v) # rows else if k < fst r then (k, v) # r # rows else r # rowSet k v rows)"

definition rowDelete :: "bytes \<Rightarrow> (bytes \<times> bytes) list \<Rightarrow> (bytes \<times> bytes) list" where
  "rowDelete k rows = filter (\<lambda>r. fst r \<noteq> k) rows"

primrec batchStep :: "(bytes \<times> bytes) list \<Rightarrow> batchOp \<Rightarrow> (bytes \<times> bytes) list" where
  "batchStep rows (BSet k v) = rowSet k v rows"
| "batchStep rows (BDelete k) = rowDelete k rows"

text \<open>A nil upper bound is unbounded.\<close>

definition inRange :: "bytes \<Rightarrow> bytes option \<Rightarrow> bytes \<Rightarrow> bool" where
  "inRange lo hi k \<longleftrightarrow> lo \<le> k \<and> (case hi of None \<Rightarrow> True | Some h \<Rightarrow> k < h)"

definition kvCommit :: "batchOp list \<Rightarrow> ('d, unit) kv" where
  "kvCommit batch = bind (faultOr KVErr) (\<lambda>_. modify (\<lambda>s. s\<lparr>kvRows := foldl batchStep (kvRows s) batch\<rparr>))"

definition kvSet :: "bytes \<Rightarrow> bytes \<Rightarrow> ('d, unit) kv" where
  "kvSet k v = kvCommit [BSet k v]"

definition kvDelete :: "bytes \<Rightarrow> ('d, unit) kv" where
  "kvDelete k = kvCommit [BDelete k]"

definition kvDeleteRange :: "bytes \<Rightarrow> bytes option \<Rightarrow> ('d, unit) kv" where
  "kvDeleteRange lo hi = bind (faultOr KVErr) (\<lambda>_.
     modify (\<lambda>s. s\<lparr>kvRows := filter (\<lambda>r. \<not> inRange lo hi (fst r)) (kvRows s)\<rparr>))"

text \<open>Absence (\<open>pebble.ErrNotFound\<close>) is \<open>None\<close>.\<close>

definition kvGet :: "bytes \<Rightarrow> ('d, bytes option) kv" where
  "kvGet k = bind (faultOr KVErr) (\<lambda>_. gets (\<lambda>s. map_of (kvRows s) k))"

text \<open>A complete iteration; the fault is the one \<open>NewIter\<close> or \<open>it.Error()\<close> reports.\<close>

definition kvIter :: "bytes \<Rightarrow> bytes option \<Rightarrow> ('d, (bytes \<times> bytes) list) kv" where
  "kvIter lo hi = bind (faultOr KVErr) (\<lambda>_. gets (\<lambda>s. filter (\<lambda>r. inRange lo hi (fst r)) (kvRows s)))"

section \<open>Keys\<close>

abbreviation (input) prefixCatalog :: byte where "prefixCatalog \<equiv> 99"
abbreviation (input) prefixLedger :: byte where "prefixLedger \<equiv> 112"
abbreviation (input) nameSep :: byte where "nameSep \<equiv> 0"

text \<open>The bytes of a Go string.\<close>

definition strBytes :: "string \<Rightarrow> bytes" where
  "strBytes s = map (\<lambda>c. word_of_nat (of_char c)) s"

definition bytesStr :: "bytes \<Rightarrow> string" where
  "bytesStr bs = map (\<lambda>b. char_of (unat b)) bs"

fun kubLoop :: "bytes \<Rightarrow> bytes option" where
  "kubLoop [] = None"
| "kubLoop (b # rest) = (if b < 255 then Some (rev ((b + 1) # rest)) else kubLoop rest)"

definition keyUpperBound :: "bytes \<Rightarrow> bytes option" where
  "keyUpperBound pre = kubLoop (rev pre)"

definition catalogKey :: "vhash \<Rightarrow> bytes" where
  "catalogKey vh = prefixCatalog # vhBytes vh"

definition headPrefix :: "string \<Rightarrow> bytes" where
  "headPrefix head = prefixLedger # strBytes head @ [nameSep]"

definition purposePrefix :: "string \<Rightarrow> string \<Rightarrow> bytes" where
  "purposePrefix head purpose = headPrefix head @ strBytes purpose @ [nameSep]"

definition ledgerKey :: "'d cidLib \<Rightarrow> string \<Rightarrow> string \<Rightarrow> 'd cid \<Rightarrow> bytes" where
  "ledgerKey K head purpose c = purposePrefix head purpose @ cidBytes K c"

section \<open>The blob catalog\<close>

definition CatalogPut :: "'d cidLib \<Rightarrow> vhash \<Rightarrow> 'd link \<Rightarrow> ('d, unit) kv" where
  "CatalogPut K vh blob = bind ctxErr (\<lambda>_. case blob of
     None \<Rightarrow> fail (CatalogErr ''undefined CID'')
   | Some c \<Rightarrow> kvSet (catalogKey vh) (cidBytes K c))"

text \<open>The loop that fills the batch; an error leaves the database as it was.\<close>

fun stageEntries :: "'d cidLib \<Rightarrow> (vhash \<times> 'd link) list \<Rightarrow> 'd err + batchOp list" where
  "stageEntries K [] = Inr []"
| "stageEntries K ((vh, blob) # entries) = (case blob of
     None \<Rightarrow> Inl (CatalogErr ''undefined CID'')
   | Some c \<Rightarrow> bindE (stageEntries K entries) (\<lambda>b. Inr (BSet (catalogKey vh) (cidBytes K c) # b)))"

definition PutBatch :: "'d cidLib \<Rightarrow> (vhash \<times> 'd link) list \<Rightarrow> ('d, unit) kv" where
  "PutBatch K entries = bind ctxErr (\<lambda>_.
     if entries = [] then ret ()
     else bind (liftE (stageEntries K entries)) kvCommit)"

definition ResolveBlob :: "'d cidLib \<Rightarrow> vhash \<Rightarrow> ('d, 'd link \<times> bool) kv" where
  "ResolveBlob K vh = bind ctxErr (\<lambda>_. bind (kvGet (catalogKey vh)) (\<lambda>v. case v of
     None \<Rightarrow> ret (None, False)
   | Some b \<Rightarrow> (case cidCast K b of
       None \<Rightarrow> fail (CatalogErr ''undecodable CID'')
     | Some c \<Rightarrow> ret (Some c, True))))"

definition Clear :: "('d, unit) kv" where
  "Clear = bind ctxErr (\<lambda>_. kvDeleteRange [prefixCatalog] (keyUpperBound [prefixCatalog]))"

section \<open>The pin ledger\<close>

text \<open>A \<open>time.Time\<close> as nanoseconds since the Unix epoch; the zero time is midnight, 1 January of year 1.\<close>

type_synonym gotime = int

definition zeroTime :: gotime where
  "zeroTime = - 62135596800 * 1000000000"

definition Unix :: "gotime \<Rightarrow> int" where
  "Unix t = t div 1000000000"

record 'd PinEntry =
  pePurpose :: string
  peCID :: "'d link"
  peRecursive :: bool
  peExpiry :: gotime

definition Expires :: "'d PinEntry \<Rightarrow> bool" where
  "Expires e \<longleftrightarrow> peExpiry e \<noteq> zeroTime"

abbreviation (input) flagRecursive :: byte where "flagRecursive \<equiv> 1"
abbreviation (input) flagExpires :: byte where "flagExpires \<equiv> 2"

definition encodePinValue :: "bool \<Rightarrow> gotime \<Rightarrow> bytes" where
  "encodePinValue recursive expiry =
     (let flags = (if recursive then flagRecursive else 0) in
      if expiry = zeroTime then [flags]
      else (flags OR flagExpires) # beBytes 8 (ucast (word_of_int (Unix expiry) :: u64)))"

definition decodePinValue :: "bytes \<Rightarrow> 'd err + bool \<times> gotime" where
  "decodePinValue val = (case val of
     [] \<Rightarrow> Inr (False, zeroTime)
   | flags # rest \<Rightarrow>
       let recursive = (flags AND flagRecursive \<noteq> 0) in
       if flags AND flagExpires = 0 then Inr (recursive, zeroTime)
       else if length val < 9 then Inl (CatalogErr ''short value'')
       else Inr (recursive, sint (ucast (ofBE (take 8 rest)) :: u64) * 1000000000))"

definition checkName :: "string \<Rightarrow> string \<Rightarrow> 'd err + unit" where
  "checkName kind s =
     (if s = [] then Inl (CatalogErr (''empty '' @ kind))
      else if nameSep \<in> set (strBytes s) then Inl (CatalogErr (''NUL in '' @ kind))
      else Inr ())"

definition checkNames :: "string \<Rightarrow> string \<Rightarrow> 'd err + unit" where
  "checkNames head purpose = bindE (checkName ''head'' head) (\<lambda>_. checkName ''purpose'' purpose)"

definition ledgerAdd :: "'d cidLib \<Rightarrow> string \<Rightarrow> string \<Rightarrow> 'd link \<Rightarrow> bool \<Rightarrow> gotime \<Rightarrow> ('d, unit) kv" where
  "ledgerAdd K head purpose c recursive expiry =
     bind ctxErr (\<lambda>_. bind (liftE (checkNames head purpose)) (\<lambda>_. case c of
       None \<Rightarrow> fail (CatalogErr ''undefined CID'')
     | Some x \<Rightarrow> kvSet (ledgerKey K head purpose x) (encodePinValue recursive expiry)))"

definition Add :: "'d cidLib \<Rightarrow> string \<Rightarrow> string \<Rightarrow> 'd link \<Rightarrow> bool \<Rightarrow> ('d, unit) kv" where
  "Add K head purpose c recursive = ledgerAdd K head purpose c recursive zeroTime"

definition AddExpiring :: "'d cidLib \<Rightarrow> string \<Rightarrow> string \<Rightarrow> 'd link \<Rightarrow> bool \<Rightarrow> gotime \<Rightarrow> ('d, unit) kv" where
  "AddExpiring K head purpose c recursive expiry = ledgerAdd K head purpose c recursive expiry"

fun stagePins :: "'d cidLib \<Rightarrow> string \<Rightarrow> (bytes \<Rightarrow> 'd PinEntry \<Rightarrow> batchOp) \<Rightarrow> 'd PinEntry list \<Rightarrow> 'd err + batchOp list" where
  "stagePins K head f [] = Inr []"
| "stagePins K head f (p # pins) = bindE (checkName ''purpose'' (pePurpose p)) (\<lambda>_. case peCID p of
     None \<Rightarrow> Inl (CatalogErr ''undefined CID'')
   | Some c \<Rightarrow> bindE (stagePins K head f pins) (\<lambda>b. Inr (f (ledgerKey K head (pePurpose p) c) p # b)))"

definition pinBatch :: "'d cidLib \<Rightarrow> string \<Rightarrow> (bytes \<Rightarrow> 'd PinEntry \<Rightarrow> batchOp) \<Rightarrow> 'd PinEntry list \<Rightarrow> ('d, unit) kv" where
  "pinBatch K head f pins = bind ctxErr (\<lambda>_.
     if pins = [] then ret ()
     else bind (liftE (checkName ''head'' head)) (\<lambda>_. bind (liftE (stagePins K head f pins)) kvCommit))"

definition AddBatch :: "'d cidLib \<Rightarrow> string \<Rightarrow> 'd PinEntry list \<Rightarrow> ('d, unit) kv" where
  "AddBatch K head pins = pinBatch K head (\<lambda>k p. BSet k (encodePinValue (peRecursive p) (peExpiry p))) pins"

definition RemoveBatch :: "'d cidLib \<Rightarrow> string \<Rightarrow> 'd PinEntry list \<Rightarrow> ('d, unit) kv" where
  "RemoveBatch K head pins = pinBatch K head (\<lambda>k _. BDelete k) pins"

definition Remove :: "'d cidLib \<Rightarrow> string \<Rightarrow> string \<Rightarrow> 'd link \<Rightarrow> ('d, unit) kv" where
  "Remove K head purpose c =
     bind ctxErr (\<lambda>_. bind (liftE (checkNames head purpose)) (\<lambda>_. case c of
       None \<Rightarrow> fail (CatalogErr ''undefined CID'')
     | Some x \<Rightarrow> kvDelete (ledgerKey K head purpose x)))"

definition decodePin :: "'d cidLib \<Rightarrow> nat \<Rightarrow> bytes \<times> bytes \<Rightarrow> 'd err + 'd PinEntry" where
  "decodePin K purposeAt row =
     (let rest = drop purposeAt (fst row); name = takeWhile (\<lambda>b. b \<noteq> nameSep) rest in
      if nameSep \<notin> set rest then Inl (CatalogErr ''no purpose terminator'')
      else case cidCast K (drop (length name + 1) rest) of
        None \<Rightarrow> Inl (CatalogErr ''undecodable CID'')
      | Some c \<Rightarrow> bindE (decodePinValue (snd row)) (\<lambda>(recursive, expiry).
          Inr \<lparr>pePurpose = bytesStr name, peCID = Some c, peRecursive = recursive, peExpiry = expiry\<rparr>))"

definition scan :: "'d cidLib \<Rightarrow> bytes \<Rightarrow> nat \<Rightarrow> ('d, 'd PinEntry list) kv" where
  "scan K pre purposeAt = bind (kvIter pre (keyUpperBound pre)) (\<lambda>rows. liftE (mapE (\<lambda>_. decodePin K purposeAt) 0 rows))"

definition List :: "'d cidLib \<Rightarrow> string \<Rightarrow> string \<Rightarrow> ('d, 'd PinEntry list) kv" where
  "List K head purpose = bind ctxErr (\<lambda>_. bind (liftE (checkNames head purpose)) (\<lambda>_.
     scan K (purposePrefix head purpose) (length (headPrefix head))))"

definition ListAll :: "'d cidLib \<Rightarrow> string \<Rightarrow> ('d, 'd PinEntry list) kv" where
  "ListAll K head = bind ctxErr (\<lambda>_. bind (liftE (checkName ''head'' head)) (\<lambda>_.
     scan K (headPrefix head) (length (headPrefix head))))"

section \<open>Ranges and prefixes\<close>

lemma append_le_append [simp]: "p @ x \<le> p @ y \<longleftrightarrow> x \<le> (y :: bytes)"
  by (induction p) auto

lemma append_less_append [simp]: "p @ x < p @ y \<longleftrightarrow> x < (y :: bytes)"
  by (induction p) auto

lemma prefix_le: "p \<le> p @ (r :: bytes)"
  using append_le_append [of p "[]" r] by simp

lemma less_incr_byte:
  assumes "b < (255 :: byte)" shows "x < b + 1 \<longleftrightarrow> x \<le> b"
proof -
  have "unat b < 255" using assms by (simp add: word_less_nat_alt)
  then have "unat (b + 1) = Suc (unat b)" by (simp add: unat_word_ariths)
  then show ?thesis by (simp add: word_less_nat_alt word_le_nat_alt less_Suc_eq_le)
qed

lemma range_last_byte:
  assumes b: "b < (255 :: byte)"
  shows "p @ [b] \<le> k \<and> k < p @ [b + 1] \<longleftrightarrow> (\<exists>r. k = p @ b # r)"
proof (induction p arbitrary: k)
  case Nil
  show ?case by (cases k) (auto simp: less_incr_byte [OF b])
next
  case (Cons a p)
  have "a # p @ [b] \<le> k \<and> k < a # p @ [b + 1] \<longleftrightarrow> (\<exists>k'. k = a # k' \<and> p @ [b] \<le> k' \<and> k' < p @ [b + 1])"
    by (cases k) auto
  then show ?case using Cons.IH by auto
qed

lemma byte_max: "(255 :: byte) \<le> x \<longleftrightarrow> x = 255"
proof -
  have "unat x < 2 ^ LENGTH(8)" by (rule unsigned_less)
  then have "unat x \<le> 255" by simp
  then show ?thesis by (auto simp: word_le_nat_alt word_unat_eq_iff)
qed

lemma inRange_prefix: "inRange pre (keyUpperBound pre) k \<longleftrightarrow> (\<exists>r. k = pre @ r)"
proof (induction pre arbitrary: k rule: rev_induct)
  case Nil
  show ?case by (simp add: inRange_def keyUpperBound_def)
next
  case (snoc b p)
  show ?case
  proof (cases "b < 255")
    case True
    then show ?thesis using range_last_byte [OF True, of p k] by (simp add: inRange_def keyUpperBound_def)
  next
    case False
    then have b: "b = 255" using byte_max [of b] by (simp add: not_less)
    have "inRange (p @ [b]) (keyUpperBound (p @ [b])) k \<longleftrightarrow> p @ [b] \<le> k \<and> inRange p (keyUpperBound p) k"
      using prefix_le [of p "[b]"] False by (auto simp: inRange_def keyUpperBound_def)
    also have "\<dots> \<longleftrightarrow> (\<exists>r. k = p @ r \<and> [255] \<le> r)" using b by (auto simp: snoc.IH)
    also have "\<dots> \<longleftrightarrow> (\<exists>r. k = p @ 255 # r)"
    proof -
      have "[255] \<le> r \<longleftrightarrow> (\<exists>r'. r = (255 :: byte) # r')" for r
        using byte_max less_imp_le by (cases r) fastforce+
      then show ?thesis by auto
    qed
    finally show ?thesis by (simp add: b)
  qed
qed

section \<open>Rows\<close>

definition kvSorted :: "(bytes \<times> bytes) list \<Rightarrow> bool" where
  "kvSorted rows \<longleftrightarrow> sorted_wrt (<) (map fst rows)"

lemma kvSorted_distinct: "kvSorted rows \<Longrightarrow> distinct (map fst rows)"
  unfolding kvSorted_def by (simp add: strict_sorted_iff flip: sorted_wrt_map)

lemma set_rowSet: "kvSorted rows \<Longrightarrow> set (rowSet k v rows) = insert (k, v) {r \<in> set rows. fst r \<noteq> k}"
  by (induction rows) (auto simp: kvSorted_def)

lemma kvSorted_rowSet: "kvSorted rows \<Longrightarrow> kvSorted (rowSet k v rows)"
proof (induction rows)
  case (Cons r rows)
  then have "kvSorted rows" by (simp add: kvSorted_def)
  with Cons show ?case using set_rowSet [of rows k v] by (fastforce simp: kvSorted_def)
qed (simp add: kvSorted_def)

lemma kvSorted_filter: "kvSorted rows \<Longrightarrow> kvSorted (filter P rows)"
  by (simp add: kvSorted_def sorted_wrt_map sorted_wrt_filter)

lemma map_of_rowSet: "kvSorted rows \<Longrightarrow> map_of (rowSet k v rows) = (map_of rows)(k \<mapsto> v)"
proof (induction rows)
  case (Cons r rows)
  then have "kvSorted rows" by (simp add: kvSorted_def)
  with Cons show ?case by (cases r) (auto simp: fun_eq_iff)
qed simp

lemma map_of_filter_key: "map_of (filter (\<lambda>r. P (fst r)) rows) = (\<lambda>k. if P k then map_of rows k else None)"
  by (induction rows) (auto simp: fun_eq_iff)

lemma map_of_rowDelete: "map_of (rowDelete k rows) = (map_of rows)(k := None)"
  using map_of_filter_key [of "\<lambda>x. x \<noteq> k" rows] by (auto simp: rowDelete_def fun_eq_iff)

section \<open>Reading keys back\<close>

definition validName :: "string \<Rightarrow> bool" where
  "validName s \<longleftrightarrow> s \<noteq> [] \<and> 0 \<notin> set (strBytes s)"

lemma checkName_iff [simp]: "checkName kind s = Inr u \<longleftrightarrow> validName s"
  by (auto simp: checkName_def validName_def)

lemma checkName_valid: "validName s \<Longrightarrow> checkName kind s = Inr ()"
  by simp

lemma checkNames_iff [simp]: "checkNames head purpose = Inr u \<longleftrightarrow> validName head \<and> validName purpose"
  by (auto simp: checkNames_def bindE_Inr_iff)

lemma bytesStr_strBytes [simp]: "bytesStr (strBytes s) = s"
proof -
  have "char_of (unat (word_of_nat (of_char c) :: byte)) = c" for c
    using nat_of_char_less_256 [of c] by (simp add: unat_of_nat)
  then show ?thesis by (simp add: bytesStr_def strBytes_def comp_def)
qed

lemma strBytes_inject [simp]: "strBytes s = strBytes t \<longleftrightarrow> s = t"
  by (metis bytesStr_strBytes)

lemma split_at_zero:
  assumes "0 \<notin> set x" "0 \<notin> set y"
  shows "x @ 0 # r = y @ 0 # r' \<longleftrightarrow> x = y \<and> r = (r' :: bytes)"
  using assms
proof (induction x arbitrary: y)
  case Nil
  then show ?case by (cases y) auto
next
  case (Cons a x)
  then show ?case by (cases y) auto
qed

lemma headPrefix_key: "ledgerKey K h p c = headPrefix h @ strBytes p @ 0 # cidBytes K c"
  by (simp add: ledgerKey_def purposePrefix_def)

lemma headPrefix_split:
  "validName h \<Longrightarrow> validName h' \<Longrightarrow> headPrefix h @ r = headPrefix h' @ r' \<longleftrightarrow> h = h' \<and> r = r'"
  by (simp add: headPrefix_def validName_def split_at_zero)

lemma ledgerKey_inject:
  assumes "cidLib_ok K" "validName h" "validName h'" "validName p" "validName p'"
  shows "ledgerKey K h p c = ledgerKey K h' p' c' \<longleftrightarrow> h = h' \<and> p = p' \<and> c = c'"
  using assms by (simp add: headPrefix_key headPrefix_split split_at_zero validName_def cidBytes_inject)

lemma catalogKey_inject: "catalogKey vh = catalogKey vh' \<longleftrightarrow> vh = vh'"
  by (metis catalogKey_def list.inject ofBE_vhBytes)

lemma catalogKey_ledgerKey: "catalogKey vh \<noteq> ledgerKey K h p c" "ledgerKey K h p c \<noteq> catalogKey vh"
  by (auto simp: catalogKey_def headPrefix_key headPrefix_def)

definition storedTime :: "gotime \<Rightarrow> gotime" where
  "storedTime t = (if t = zeroTime then zeroTime else sint (word_of_int (Unix t) :: u64) * 1000000000)"

lemma be64_roundtrip: "ucast (ofBE (beBytes 8 (ucast (w :: u64)))) = w"
proof -
  have "ofBE (beBytes 8 (ucast w)) = take_bit 64 (ucast w :: vhash)" by (simp add: ofBE_beBytes)
  then show ?thesis by (auto intro!: bit_word_eqI simp: bit_simps)
qed

lemma decode_encode: "decodePinValue (encodePinValue recursive t) = Inr (recursive, storedTime t)"
  by (simp add: decodePinValue_def encodePinValue_def storedTime_def Let_def be64_roundtrip)

lemma storedTime_exact:
  assumes "- (2 ^ 63) \<le> Unix t" "Unix t < 2 ^ 63" shows "storedTime t = Unix t * 1000000000"
proof -
  have "sint (word_of_int (Unix t) :: u64) = Unix t" using assms by (simp add: signed_of_int signed_take_bit_int_eq_self)
  then show ?thesis by (simp add: storedTime_def zeroTime_def Unix_def)
qed

lemma decodePin_ledgerKey:
  assumes "cidLib_ok K" "validName p"
  shows "decodePin K (length (headPrefix h)) (ledgerKey K h p c, v) = bindE (decodePinValue v) (\<lambda>(recursive, expiry).
     Inr \<lparr>pePurpose = p, peCID = Some c, peRecursive = recursive, peExpiry = expiry\<rparr>)"
proof -
  have "takeWhile (\<lambda>b. b \<noteq> 0) (strBytes p @ 0 # cidBytes K c) = strBytes p"
    using assms(2) by (subst takeWhile_append2) (auto simp: validName_def)
  then show ?thesis using assms by (simp add: decodePin_def headPrefix_key cidCast_cidBytes)
qed

section \<open>What the database stands for\<close>

definition catalogOf :: "'d cidLib \<Rightarrow> kvdb \<Rightarrow> vhash \<rightharpoonup> 'd cid" where
  "catalogOf K s vh = (case map_of (kvRows s) (catalogKey vh) of None \<Rightarrow> None | Some b \<Rightarrow> cidCast K b)"

definition ledgerOf :: "'d cidLib \<Rightarrow> kvdb \<Rightarrow> string \<times> string \<times> 'd cid \<rightharpoonup> bool \<times> gotime" where
  "ledgerOf K s = (\<lambda>(h, p, c). if validName h \<and> validName p then
     (case map_of (kvRows s) (ledgerKey K h p c) of
        None \<Rightarrow> None
      | Some v \<Rightarrow> (case decodePinValue v :: 'd err + bool \<times> gotime of Inl _ \<Rightarrow> None | Inr x \<Rightarrow> Some x)) else None)"

definition kvRowOk :: "'d cidLib \<Rightarrow> bytes \<times> bytes \<Rightarrow> bool" where
  "kvRowOk K row \<longleftrightarrow> (\<exists>vh c. row = (catalogKey vh, cidBytes K c)) \<or>
     (\<exists>h p c recursive t. validName h \<and> validName p \<and> row = (ledgerKey K h p c, encodePinValue recursive t))"

definition kvWf :: "'d cidLib \<Rightarrow> kvdb \<Rightarrow> bool" where
  "kvWf K s \<longleftrightarrow> kvSorted (kvRows s) \<and> (\<forall>row\<in>set (kvRows s). kvRowOk K row)"

lemma kvRowOk_ledger: "validName h \<Longrightarrow> validName p \<Longrightarrow> kvRowOk K (ledgerKey K h p c, encodePinValue recursive t)"
  unfolding kvRowOk_def by blast

text \<open>The operations see the database only through its rows.\<close>

definition sameRows :: "kvdb \<Rightarrow> kvdb \<Rightarrow> bool" where
  "sameRows s t \<longleftrightarrow> kvRows s = kvRows t"

lemma sameRows_abs:
  assumes "sameRows s t"
  shows "kvWf K t = kvWf K s" "ledgerOf K t = ledgerOf K s" "catalogOf K t = catalogOf K s"
  using assms by (auto simp: sameRows_def kvWf_def ledgerOf_def catalogOf_def)

lemma faultOr_rows: "faultOr e s = (r, t) \<Longrightarrow> sameRows s t"
  by (auto simp: faultOr_def sameRows_def split: list.splits if_splits)

lemma ctxErr_rows: "ctxErr s = (r, t) \<Longrightarrow> sameRows s t"
  by (auto simp: ctxErr_def dest: faultOr_rows)

lemma sameRows_trans: "sameRows s t \<Longrightarrow> sameRows t u \<Longrightarrow> sameRows s u"
  by (simp add: sameRows_def)

lemma sameRows_refl [simp]: "sameRows s s"
  by (simp add: sameRows_def)

definition setPins :: "string \<Rightarrow> 'd PinEntry list \<Rightarrow> (string \<times> string \<times> 'd cid \<rightharpoonup> bool \<times> gotime) \<Rightarrow> (string \<times> string \<times> 'd cid \<rightharpoonup> bool \<times> gotime)" where
  "setPins h pins m = foldl (\<lambda>m p. m((h, pePurpose p, the (peCID p)) \<mapsto> (peRecursive p, storedTime (peExpiry p)))) m pins"

definition dropPins :: "string \<Rightarrow> 'd PinEntry list \<Rightarrow> (string \<times> string \<times> 'd cid \<rightharpoonup> bool \<times> gotime) \<Rightarrow> (string \<times> string \<times> 'd cid \<rightharpoonup> bool \<times> gotime)" where
  "dropPins h pins m = foldl (\<lambda>m p. m((h, pePurpose p, the (peCID p)) := None)) m pins"

lemma setPins_simps [simp]: "setPins h [] m = m"
  "setPins h (p # pins) m = setPins h pins (m((h, pePurpose p, the (peCID p)) \<mapsto> (peRecursive p, storedTime (peExpiry p))))"
  by (simp_all add: setPins_def)

lemma dropPins_simps [simp]: "dropPins h [] m = m"
  "dropPins h (p # pins) m = dropPins h pins (m((h, pePurpose p, the (peCID p)) := None))"
  by (simp_all add: dropPins_def)

lemma rowSet_wf: "kvWf K s \<Longrightarrow> kvRowOk K (k, v) \<Longrightarrow> kvWf K (s\<lparr>kvRows := rowSet k v (kvRows s)\<rparr>)"
  by (auto simp: kvWf_def set_rowSet kvSorted_rowSet)

lemma rowDelete_wf: "kvWf K s \<Longrightarrow> kvWf K (s\<lparr>kvRows := rowDelete k (kvRows s)\<rparr>)"
  by (auto simp: kvWf_def rowDelete_def kvSorted_filter)

lemma rowSet_ledger:
  assumes "cidLib_ok K" "kvWf K s" "validName h" "validName p"
  shows "ledgerOf K (s\<lparr>kvRows := rowSet (ledgerKey K h p c) (encodePinValue recursive t) (kvRows s)\<rparr>) =
      (ledgerOf K s)((h, p, c) \<mapsto> (recursive, storedTime t))"
    "catalogOf K (s\<lparr>kvRows := rowSet (ledgerKey K h p c) v (kvRows s)\<rparr>) = catalogOf K s"
  using assms ledgerKey_inject [OF assms(1)]
  by (auto simp: fun_eq_iff ledgerOf_def catalogOf_def kvWf_def map_of_rowSet decode_encode catalogKey_ledgerKey
   )

lemma rowDelete_ledger:
  assumes "cidLib_ok K" "validName h" "validName p"
  shows "ledgerOf K (s\<lparr>kvRows := rowDelete (ledgerKey K h p c) (kvRows s)\<rparr>) = (ledgerOf K s)((h, p, c) := None)"
    "catalogOf K (s\<lparr>kvRows := rowDelete (ledgerKey K h p c) (kvRows s)\<rparr>) = catalogOf K s"
  using assms ledgerKey_inject [OF assms(1)]
  by (auto simp: fun_eq_iff ledgerOf_def catalogOf_def map_of_rowDelete catalogKey_ledgerKey)

lemma rowSet_catalog:
  assumes "cidLib_ok K" "kvWf K s"
  shows "catalogOf K (s\<lparr>kvRows := rowSet (catalogKey vh) (cidBytes K c) (kvRows s)\<rparr>) = (catalogOf K s)(vh \<mapsto> c)"
    "ledgerOf K (s\<lparr>kvRows := rowSet (catalogKey vh) v (kvRows s)\<rparr>) = ledgerOf K s"
  using assms
  by (auto simp: fun_eq_iff ledgerOf_def catalogOf_def kvWf_def map_of_rowSet catalogKey_ledgerKey catalogKey_inject
    cidCast_cidBytes)

section \<open>The operations\<close>

text \<open>What an operation does to the pins and the catalog when it succeeds; when it fails it does nothing.\<close>

definition kvDoes :: "'d cidLib \<Rightarrow> ('d, 'a) kv \<Rightarrow> ((string \<times> string \<times> 'd cid \<rightharpoonup> bool \<times> gotime) \<Rightarrow> (string \<times> string \<times> 'd cid \<rightharpoonup> bool \<times> gotime)) \<Rightarrow>
    ((vhash \<rightharpoonup> 'd cid) \<Rightarrow> (vhash \<rightharpoonup> 'd cid)) \<Rightarrow> bool" where
  "kvDoes K m f g \<longleftrightarrow> (\<forall>s. kvWf K s \<longrightarrow> (case m s of
      (Inl e, t) \<Rightarrow> sameRows s t
    | (Inr _, t) \<Rightarrow> kvWf K t \<and> ledgerOf K t = f (ledgerOf K s) \<and> catalogOf K t = g (catalogOf K s)))"

lemma kvDoes_ctx:
  fixes m :: "('d, 'a) kv"
  shows "kvDoes K m f g \<Longrightarrow> kvDoes K (bind ctxErr (\<lambda>_. m)) f g"
  unfolding kvDoes_def
proof (intro allI impI)
  fix s assume m: "\<forall>s. kvWf K s \<longrightarrow> (case m s of (Inl e, t) \<Rightarrow> sameRows s t
      | (Inr _, t) \<Rightarrow> kvWf K t \<and> ledgerOf K t = f (ledgerOf K s) \<and> catalogOf K t = g (catalogOf K s))" and wf: "kvWf K s"
  obtain r t where c: "(ctxErr :: ('d, unit) kv) s = (r, t)" by (cases "(ctxErr :: ('d, unit) kv) s")
  note st = ctxErr_rows [OF c]
  have "kvWf K t" using wf by (simp only: sameRows_abs(1) [OF st])
  note mt = m [rule_format, OF this]
  show "case bind ctxErr (\<lambda>_. m) s of (Inl e, t) \<Rightarrow> sameRows s t
      | (Inr _, t) \<Rightarrow> kvWf K t \<and> ledgerOf K t = f (ledgerOf K s) \<and> catalogOf K t = g (catalogOf K s)"
    using st sameRows_trans [OF st] mt
    by (cases r; cases "m t"; cases "fst (m t)") (simp_all add: bind_def c sameRows_abs(2,3) [OF st])
qed

lemma kvDoes_pure: "kvDoes K (fail e) f g" "kvDoes K (ret a) id id"
  by (auto simp: kvDoes_def)

lemma kvDoes_liftE: "(\<And>a. r = Inr a \<Longrightarrow> kvDoes K (m a) f g) \<Longrightarrow> kvDoes K (bind (liftE r) m) f g"
  by (cases r) (auto simp: kvDoes_def bind_def)

lemma kvDoes_write:
  fixes K :: "'d cidLib"
  assumes F: "\<And>s. kvWf K s \<Longrightarrow> let t = s\<lparr>kvRows := F (kvRows s)\<rparr> in
    kvWf K t \<and> ledgerOf K t = f (ledgerOf K s) \<and> catalogOf K t = g (catalogOf K s)"
  shows "kvDoes K (bind (faultOr KVErr) (\<lambda>_. modify (\<lambda>s. s\<lparr>kvRows := F (kvRows s)\<rparr>))) f g"
  unfolding kvDoes_def
proof (intro allI impI)
  fix s assume wf: "kvWf K s"
  obtain r u where run: "(faultOr KVErr :: ('d, unit) kv) s = (r, u)" by (cases "(faultOr KVErr :: ('d, unit) kv) s")
  have rows: "kvRows u = kvRows s" using faultOr_rows [OF run] by (simp add: sameRows_def)
  have same: "sameRows (s\<lparr>kvRows := F (kvRows s)\<rparr>) (u\<lparr>kvRows := F (kvRows u)\<rparr>)" by (simp add: sameRows_def rows)
  show "case bind (faultOr KVErr :: ('d, unit) kv) (\<lambda>_. modify (\<lambda>s. s\<lparr>kvRows := F (kvRows s)\<rparr>)) s of (Inl e, t) \<Rightarrow> sameRows s t
      | (Inr _, t) \<Rightarrow> kvWf K t \<and> ledgerOf K t = f (ledgerOf K s) \<and> catalogOf K t = g (catalogOf K s)"
    using F [OF wf] faultOr_rows [OF run] by (cases r) (simp_all add: bind_def run Let_def sameRows_abs [OF same])
qed

lemma kvDoes_commit:
  assumes "\<And>s. kvWf K s \<Longrightarrow> let t = s\<lparr>kvRows := foldl batchStep (kvRows s) batch\<rparr> in
    kvWf K t \<and> ledgerOf K t = f (ledgerOf K s) \<and> catalogOf K t = g (catalogOf K s)"
  shows "kvDoes K (kvCommit batch) f g"
  unfolding kvCommit_def by (rule kvDoes_write) (rule assms)

lemma ledgerAdd_does:
  assumes "cidLib_ok K"
  shows "kvDoes K (ledgerAdd K h p c recursive t) (\<lambda>m. m((h, p, the c) \<mapsto> (recursive, storedTime t))) id"
  unfolding ledgerAdd_def kvSet_def
proof (intro kvDoes_ctx kvDoes_liftE)
  fix u assume names: "checkNames h p = Inr u"
  show "kvDoes K (case c of None \<Rightarrow> fail (CatalogErr ''undefined CID'')
      | Some x \<Rightarrow> kvCommit [BSet (ledgerKey K h p x) (encodePinValue recursive t)]) (\<lambda>m. m((h, p, the c) \<mapsto> (recursive, storedTime t))) id"
  proof (cases c)
    case (Some x)
    have ok: "kvRowOk K (ledgerKey K h p x, encodePinValue recursive t)" using names by (simp only: kvRowOk_ledger checkNames_iff)
    show ?thesis unfolding Some option.case
      by (rule kvDoes_commit) (use names ok in \<open>simp add: Let_def rowSet_ledger [OF assms] rowSet_wf\<close>)
  qed (simp add: kvDoes_pure)
qed

lemma Remove_does:
  assumes "cidLib_ok K"
  shows "kvDoes K (Remove K h p c) (\<lambda>m. m((h, p, the c) := None)) id"
  unfolding Remove_def kvDelete_def
proof (intro kvDoes_ctx kvDoes_liftE)
  fix u assume names: "checkNames h p = Inr u"
  show "kvDoes K (case c of None \<Rightarrow> fail (CatalogErr ''undefined CID'')
      | Some x \<Rightarrow> kvCommit [BDelete (ledgerKey K h p x)]) (\<lambda>m. m((h, p, the c) := None)) id"
  proof (cases c)
    case (Some x)
    show ?thesis unfolding Some option.case
      by (rule kvDoes_commit) (use names in \<open>simp add: Let_def rowDelete_ledger [OF assms] rowDelete_wf\<close>)
  qed (simp add: kvDoes_pure)
qed

text \<open>A batch of changes to one head's rows, for the two kinds of batch.\<close>

lemma stagePins_sets:
  assumes "cidLib_ok K" "validName h"
  shows "stagePins K h (\<lambda>k p. BSet k (encodePinValue (peRecursive p) (peExpiry p))) pins = Inr batch \<Longrightarrow> kvWf K s \<Longrightarrow>
    let t = s\<lparr>kvRows := foldl batchStep (kvRows s) batch\<rparr> in
    kvWf K t \<and> ledgerOf K t = setPins h pins (ledgerOf K s) \<and> catalogOf K t = catalogOf K s"
proof (induction pins arbitrary: batch s)
  case (Cons p pins)
  obtain c b where p: "validName (pePurpose p)" "peCID p = Some c"
      "stagePins K h (\<lambda>k p. BSet k (encodePinValue (peRecursive p) (peExpiry p))) pins = Inr b"
      "batch = BSet (ledgerKey K h (pePurpose p) c) (encodePinValue (peRecursive p) (peExpiry p)) # b"
    using Cons.prems(1) by (auto simp: bindE_Inr_iff split: option.splits)
  let ?s = "s\<lparr>kvRows := rowSet (ledgerKey K h (pePurpose p) c) (encodePinValue (peRecursive p) (peExpiry p)) (kvRows s)\<rparr>"
  have "kvRowOk K (ledgerKey K h (pePurpose p) c, encodePinValue (peRecursive p) (peExpiry p))"
    by (rule kvRowOk_ledger [OF assms(2) p(1)])
  then have "kvWf K ?s" by (rule rowSet_wf [OF Cons.prems(2)])
  from Cons.IH [OF p(3) this] show ?case
    unfolding rowSet_ledger [OF assms(1) Cons.prems(2) assms(2) p(1)] by (simp add: p(2,4) Let_def del: fun_upd_apply)
qed (simp add: Let_def)

lemma stagePins_deletes:
  assumes "cidLib_ok K" "validName h"
  shows "stagePins K h (\<lambda>k _. BDelete k) pins = Inr batch \<Longrightarrow> kvWf K s \<Longrightarrow>
    let t = s\<lparr>kvRows := foldl batchStep (kvRows s) batch\<rparr> in
    kvWf K t \<and> ledgerOf K t = dropPins h pins (ledgerOf K s) \<and> catalogOf K t = catalogOf K s"
proof (induction pins arbitrary: batch s)
  case (Cons p pins)
  obtain c b where p: "validName (pePurpose p)" "peCID p = Some c" "stagePins K h (\<lambda>k _. BDelete k) pins = Inr b"
      "batch = BDelete (ledgerKey K h (pePurpose p) c) # b"
    using Cons.prems(1) by (auto simp: bindE_Inr_iff split: option.splits)
  from Cons.IH [OF p(3) rowDelete_wf [OF Cons.prems(2)], of "ledgerKey K h (pePurpose p) c"]
  show ?case unfolding rowDelete_ledger [OF assms(1,2) p(1)] by (simp add: p(2,4) Let_def del: fun_upd_apply)
qed (simp add: Let_def)

lemma pinBatch_does:
  assumes "\<And>batch s. validName h \<Longrightarrow> stagePins K h op pins = Inr batch \<Longrightarrow> kvWf K s \<Longrightarrow>
      let t = s\<lparr>kvRows := foldl batchStep (kvRows s) batch\<rparr> in
      kvWf K t \<and> ledgerOf K t = f (ledgerOf K s) \<and> catalogOf K t = catalogOf K s"
    and "pins = [] \<Longrightarrow> f = (\<lambda>x. x)"
  shows "kvDoes K (pinBatch K h op pins) f id"
  unfolding pinBatch_def
proof (rule kvDoes_ctx)
  show "kvDoes K (if pins = [] then ret () else bind (liftE (checkName ''head'' h)) (\<lambda>_. bind (liftE (stagePins K h op pins)) kvCommit)) f id"
    using assms by (cases "pins = []") (auto intro!: kvDoes_liftE kvDoes_commit simp: kvDoes_pure [unfolded id_def] id_def)
qed

lemma AddBatch_does: "cidLib_ok K \<Longrightarrow> kvDoes K (AddBatch K h pins) (setPins h pins) id"
  unfolding AddBatch_def by (rule pinBatch_does, rule stagePins_sets) (auto simp: fun_eq_iff)

lemma RemoveBatch_does: "cidLib_ok K \<Longrightarrow> kvDoes K (RemoveBatch K h pins) (dropPins h pins) id"
  unfolding RemoveBatch_def by (rule pinBatch_does, rule stagePins_deletes) (auto simp: fun_eq_iff)

lemma CatalogPut_does:
  assumes "cidLib_ok K" shows "kvDoes K (CatalogPut K vh blob) id (\<lambda>m. m(vh \<mapsto> the blob))"
  unfolding CatalogPut_def kvSet_def
proof (intro kvDoes_ctx)
  show "kvDoes K (case blob of None \<Rightarrow> fail (CatalogErr ''undefined CID'')
      | Some c \<Rightarrow> kvCommit [BSet (catalogKey vh) (cidBytes K c)]) id (\<lambda>m. m(vh \<mapsto> the blob))"
  proof (cases blob)
    case (Some c)
    have "kvRowOk K (catalogKey vh, cidBytes K c)" unfolding kvRowOk_def by blast
    then show ?thesis unfolding Some option.case
      by (intro kvDoes_commit) (simp add: Let_def rowSet_catalog [OF assms] rowSet_wf)
  qed (simp add: kvDoes_pure)
qed

lemma stageEntries_sets:
  "stageEntries K entries = Inr batch \<Longrightarrow> kvWf K s \<Longrightarrow> cidLib_ok K \<Longrightarrow>
    let t = s\<lparr>kvRows := foldl batchStep (kvRows s) batch\<rparr> in
    kvWf K t \<and> ledgerOf K t = ledgerOf K s \<and> catalogOf K t = foldl (\<lambda>m (vh, blob). m(vh \<mapsto> the blob)) (catalogOf K s) entries"
proof (induction K entries arbitrary: batch s rule: stageEntries.induct)
  case (2 K vh blob entries)
  obtain c b where p: "blob = Some c" "stageEntries K entries = Inr b" "batch = BSet (catalogKey vh) (cidBytes K c) # b"
    using "2.prems"(1) by (auto simp: bindE_Inr_iff split: option.splits)
  let ?s = "s\<lparr>kvRows := rowSet (catalogKey vh) (cidBytes K c) (kvRows s)\<rparr>"
  have "kvRowOk K (catalogKey vh, cidBytes K c)" unfolding kvRowOk_def by blast
  then have "kvWf K ?s" by (rule rowSet_wf [OF "2.prems"(2)])
  from "2.IH" [OF p(1,2) this "2.prems"(3)] show ?case
    unfolding rowSet_catalog [OF "2.prems"(3,2)] by (simp add: p(1,3) Let_def del: fun_upd_apply)
qed (simp add: Let_def)

lemma PutBatch_does:
  assumes "cidLib_ok K"
  shows "kvDoes K (PutBatch K entries) id (\<lambda>m. foldl (\<lambda>m (vh, blob). m(vh \<mapsto> the blob)) m entries)"
  unfolding PutBatch_def
proof (rule kvDoes_ctx)
  show "kvDoes K (if entries = [] then ret () else bind (liftE (stageEntries K entries)) kvCommit) id
    (\<lambda>m. foldl (\<lambda>m (vh, blob). m(vh \<mapsto> the blob)) m entries)"
    using assms by (cases "entries = []")
      (auto intro!: kvDoes_liftE kvDoes_commit simp: kvDoes_pure [unfolded id_def] id_def stageEntries_sets)
qed

lemma Clear_does: "kvDoes K Clear id (\<lambda>_. Map.empty)"
  unfolding Clear_def
proof (rule kvDoes_ctx)
  let ?F = "filter (\<lambda>r. \<not> inRange [prefixCatalog] (keyUpperBound [prefixCatalog]) (fst r))"
  have rows: "map_of (?F rows) = (\<lambda>k. if \<exists>r. k = 99 # r then None else map_of rows k)" for rows
    using map_of_filter_key [of "\<lambda>k. \<not> inRange [prefixCatalog] (keyUpperBound [prefixCatalog]) k" rows]
    by (auto simp: inRange_prefix fun_eq_iff)
  show "kvDoes K (kvDeleteRange [prefixCatalog] (keyUpperBound [prefixCatalog])) id (\<lambda>_. Map.empty)"
    unfolding kvDeleteRange_def
    by (rule kvDoes_write) (auto simp: Let_def kvWf_def kvSorted_filter ledgerOf_def catalogOf_def fun_eq_iff rows catalogKey_def headPrefix_key headPrefix_def)
qed

lemma ResolveBlob_spec:
  assumes "cidLib_ok K" "kvWf K s"
  shows "case ResolveBlob K vh s of
      (Inl e, t) \<Rightarrow> (e = Cancelled \<or> e = KVErr) \<and> sameRows s t
    | (Inr (c, ok), t) \<Rightarrow> c = catalogOf K s vh \<and> ok = (c \<noteq> None) \<and> sameRows s t"
proof -
  have row: "cidCast K b \<noteq> None" if "map_of (kvRows s) (catalogKey vh) = Some b" for b
  proof -
    have "kvRowOk K (catalogKey vh, b)" using that assms(2) by (auto simp: kvWf_def dest: map_of_SomeD)
    then show ?thesis using assms(1) by (auto simp: kvRowOk_def catalogKey_ledgerKey cidCast_cidBytes)
  qed
  show ?thesis using row
    by (auto simp: ResolveBlob_def ctxErr_def kvGet_def bind_def faultOr_def catalogOf_def sameRows_def split: list.split option.split)
qed

section \<open>Listing\<close>

definition pinKeyOf :: "'d cidLib \<Rightarrow> string \<Rightarrow> 'd PinEntry \<Rightarrow> bytes" where
  "pinKeyOf K h e = ledgerKey K h (pePurpose e) (the (peCID e))"

definition listsPins :: "'d cidLib \<Rightarrow> string \<Rightarrow> 'd PinEntry list \<Rightarrow> (string \<times> string \<times> 'd cid \<rightharpoonup> bool \<times> gotime) \<Rightarrow> bool" where
  "listsPins K h es m \<longleftrightarrow> sorted_wrt (<) (map (pinKeyOf K h) es) \<and> (\<forall>e\<in>set es. peCID e \<noteq> None \<and> validName (pePurpose e)) \<and>
     (\<forall>p c recursive t. m (h, p, c) = Some (recursive, t) \<longleftrightarrow>
        \<lparr>pePurpose = p, peCID = Some c, peRecursive = recursive, peExpiry = t\<rparr> \<in> set es)"

lemma head_rows:
  assumes "cidLib_ok K" "kvWf K s" "validName h" "row \<in> set (kvRows s)" "inRange (headPrefix h) (keyUpperBound (headPrefix h)) (fst row)"
  shows "\<exists>p c recursive t. validName p \<and> row = (ledgerKey K h p c, encodePinValue recursive t)"
proof -
  obtain r where r: "fst row = headPrefix h @ r" using assms(5) by (auto simp: inRange_prefix)
  have "kvRowOk K row" using assms(2,4) by (simp add: kvWf_def)
  then show ?thesis unfolding kvRowOk_def
  proof (elim disjE exE conjE)
    fix vh c assume "row = (catalogKey vh, cidBytes K c)"
    with r show ?thesis by (simp add: catalogKey_def headPrefix_def)
  next
    fix h' p c recursive t assume h': "validName h'" and p: "validName p" and row: "row = (ledgerKey K h' p c, encodePinValue recursive t)"
    have "headPrefix h' @ strBytes p @ 0 # cidBytes K c = headPrefix h @ r" using r row by (simp add: headPrefix_key)
    then have "h' = h" using headPrefix_split [OF h' assms(3)] by blast
    with row p show ?thesis by blast
  qed
qed

lemma mapE_exists:
  "(\<And>i x. x \<in> set xs \<Longrightarrow> \<exists>y. f i x = Inr y \<and> P x y) \<Longrightarrow> \<exists>ys. mapE f i xs = Inr ys \<and> list_all2 P xs ys"
proof (induction xs arbitrary: i)
  case (Cons x xs)
  obtain y where y: "f i x = Inr y" "P x y" using Cons.prems [of x] by auto
  obtain ys where "mapE f (Suc i) xs = Inr ys" "list_all2 P xs ys" using Cons.IH [of "Suc i"] Cons.prems by auto
  with y show ?case by simp
qed simp

lemma list_all2_in1: "list_all2 P xs ys \<Longrightarrow> x \<in> set xs \<Longrightarrow> \<exists>y\<in>set ys. P x y"
  by (induction rule: list_all2_induct) auto

lemma list_all2_in2: "list_all2 P xs ys \<Longrightarrow> y \<in> set ys \<Longrightarrow> \<exists>x\<in>set xs. P x y"
  by (induction rule: list_all2_induct) auto

text \<open>A row and the pin read from it.\<close>

definition rowPin :: "'d cidLib \<Rightarrow> string \<Rightarrow> bytes \<times> bytes \<Rightarrow> 'd PinEntry \<Rightarrow> bool" where
  "rowPin K h row e \<longleftrightarrow> (\<exists>p c recursive t. validName p \<and> row = (ledgerKey K h p c, encodePinValue recursive t) \<and>
     e = \<lparr>pePurpose = p, peCID = Some c, peRecursive = recursive, peExpiry = storedTime t\<rparr>)"

lemma rowPin_fst: "rowPin K h row e \<Longrightarrow> fst row = pinKeyOf K h e"
  by (auto simp: rowPin_def pinKeyOf_def)

lemma scan_rows:
  assumes K: "cidLib_ok K" and wf: "kvWf K s" and h: "validName h"
  shows "\<exists>es. mapE (\<lambda>_. decodePin K (length (headPrefix h))) 0
      (filter (\<lambda>r. inRange (headPrefix h) (keyUpperBound (headPrefix h)) (fst r)) (kvRows s)) = Inr es \<and>
    list_all2 (rowPin K h) (filter (\<lambda>r. inRange (headPrefix h) (keyUpperBound (headPrefix h)) (fst r)) (kvRows s)) es"
proof (rule mapE_exists)
  fix i row assume "row \<in> set (filter (\<lambda>r. inRange (headPrefix h) (keyUpperBound (headPrefix h)) (fst r)) (kvRows s))"
  then have "row \<in> set (kvRows s)" "inRange (headPrefix h) (keyUpperBound (headPrefix h)) (fst row)" by auto
  from head_rows [OF K wf h this] obtain p c recursive t where
    row: "validName p" "row = (ledgerKey K h p c, encodePinValue recursive t)" by blast
  show "\<exists>e. decodePin K (length (headPrefix h)) row = Inr e \<and> rowPin K h row e"
    using decodePin_ledgerKey [OF K row(1)] row by (auto simp: rowPin_def decode_encode)
qed

lemma row_member:
  assumes K: "cidLib_ok K" and wf: "kvWf K s" and h: "validName h"
    and es: "list_all2 (rowPin K h) (filter (\<lambda>r. inRange (headPrefix h) (keyUpperBound (headPrefix h)) (fst r)) (kvRows s)) es"
  shows "ledgerOf K s (h, p, c) = Some (recursive, t) \<longleftrightarrow>
      \<lparr>pePurpose = p, peCID = Some c, peRecursive = recursive, peExpiry = t\<rparr> \<in> set es" (is "?l \<longleftrightarrow> ?e \<in> set es")
proof
  assume ?l
  then obtain v where p: "validName p" and v: "map_of (kvRows s) (ledgerKey K h p c) = Some v" "decodePinValue v = (Inr (recursive, t) :: 'a err + _)"
    by (auto simp: ledgerOf_def split: if_splits option.splits sum.splits)
  have "inRange (headPrefix h) (keyUpperBound (headPrefix h)) (ledgerKey K h p c)" by (simp add: inRange_prefix headPrefix_key)
  then obtain e where e: "e \<in> set es" "rowPin K h (ledgerKey K h p c, v) e"
    using list_all2_in1 [OF es, of "(ledgerKey K h p c, v)"] map_of_SomeD [OF v(1)] by auto
  then obtain p' c' r' t' where e': "validName p'" "ledgerKey K h p c = ledgerKey K h p' c'" "v = encodePinValue r' t'"
      "e = \<lparr>pePurpose = p', peCID = Some c', peRecursive = r', peExpiry = storedTime t'\<rparr>"
    unfolding rowPin_def by blast
  have "p' = p \<and> c' = c" using e'(2) by (simp add: ledgerKey_inject [OF K h h p e'(1)])
  moreover have "r' = recursive \<and> storedTime t' = t" using v(2) by (simp add: e'(3) decode_encode)
  ultimately show "?e \<in> set es" using e(1) e'(4) by simp
next
  assume "?e \<in> set es"
  from list_all2_in2 [OF es this] obtain row where row: "row \<in> set (kvRows s)" "rowPin K h row ?e" by auto
  then obtain t' where r: "validName p" "row = (ledgerKey K h p c, encodePinValue recursive t')" "t = storedTime t'"
    unfolding rowPin_def by blast
  have "distinct (map fst (kvRows s))" using wf kvSorted_distinct by (simp add: kvWf_def)
  then have "map_of (kvRows s) (ledgerKey K h p c) = Some (encodePinValue recursive t')" using row(1) unfolding r(2) by (rule map_of_is_SomeI)
  then show ?l using h r(1,3) by (simp add: ledgerOf_def decode_encode)
qed

lemma rows_list:
  assumes K: "cidLib_ok K" and wf: "kvWf K s" and h: "validName h"
    and es: "list_all2 (rowPin K h) (filter (\<lambda>r. inRange (headPrefix h) (keyUpperBound (headPrefix h)) (fst r)) (kvRows s)) es"
  shows "listsPins K h es (ledgerOf K s)"
proof -
  let ?rows = "filter (\<lambda>r. inRange (headPrefix h) (keyUpperBound (headPrefix h)) (fst r)) (kvRows s)"
  have sorted: "kvSorted (kvRows s)" using wf by (simp add: kvWf_def)
  have keys: "map fst ?rows = map (pinKeyOf K h) es"
    using es by (induction rule: list_all2_induct) (simp_all add: rowPin_fst)
  then have "sorted_wrt (<) (map (pinKeyOf K h) es)" using kvSorted_filter [OF sorted] by (metis kvSorted_def)
  moreover have "\<forall>e\<in>set es. peCID e \<noteq> None \<and> validName (pePurpose e)"
  proof
    fix e assume "e \<in> set es"
    then obtain row where "rowPin K h row e" using list_all2_in2 [OF es] by blast
    then show "peCID e \<noteq> None \<and> validName (pePurpose e)" by (auto simp: rowPin_def)
  qed
  moreover have "ledgerOf K s (h, p, c) = Some (recursive, t) \<longleftrightarrow>
      \<lparr>pePurpose = p, peCID = Some c, peRecursive = recursive, peExpiry = t\<rparr> \<in> set es" for p c recursive t
    by (rule row_member [OF K wf h es])
  ultimately show ?thesis by (simp add: listsPins_def)
qed

lemma ListAll_spec:
  assumes K: "cidLib_ok K" and wf: "kvWf K s"
  shows "case ListAll K h s of
      (Inl e, t) \<Rightarrow> (e = Cancelled \<or> e = KVErr \<or> \<not> validName h) \<and> sameRows s t
    | (Inr es, t) \<Rightarrow> validName h \<and> listsPins K h es (ledgerOf K s) \<and> sameRows s t"
proof (cases "validName h")
  case True
  obtain es where es: "mapE (\<lambda>_. decodePin K (length (headPrefix h))) 0
      (filter (\<lambda>r. inRange (headPrefix h) (keyUpperBound (headPrefix h)) (fst r)) (kvRows s)) = Inr es" "listsPins K h es (ledgerOf K s)"
    using scan_rows [OF K wf True] rows_list [OF K wf True] by blast
  show ?thesis using True es
    by (auto simp: checkName_valid ListAll_def scan_def kvIter_def ctxErr_def bind_def faultOr_def sameRows_def split: list.split sum.split)
next
  case False
  then show ?thesis
    by (auto simp: ListAll_def ctxErr_def bind_def faultOr_def sameRows_def split: list.split sum.split)
qed

section \<open>Histories\<close>

text \<open>What the program asks of the database, and what it means for the two tables.\<close>

datatype 'd kvAct =
    KPut vhash "'d link"
  | KPutBatch "(vhash \<times> 'd link) list"
  | KClear
  | KAdd string string "'d link" bool
  | KAddExpiring string string "'d link" bool gotime
  | KRemove string string "'d link"
  | KAddBatch string "'d PinEntry list"
  | KRemoveBatch string "'d PinEntry list"

primrec kvDo :: "'d cidLib \<Rightarrow> 'd kvAct \<Rightarrow> ('d, unit) kv" where
  "kvDo K (KPut vh blob) = CatalogPut K vh blob"
| "kvDo K (KPutBatch entries) = PutBatch K entries"
| "kvDo K KClear = Clear"
| "kvDo K (KAdd h p c r) = Add K h p c r"
| "kvDo K (KAddExpiring h p c r x) = AddExpiring K h p c r x"
| "kvDo K (KRemove h p c) = Remove K h p c"
| "kvDo K (KAddBatch h pins) = AddBatch K h pins"
| "kvDo K (KRemoveBatch h pins) = RemoveBatch K h pins"

primrec actLedger :: "'d kvAct \<Rightarrow> (string \<times> string \<times> 'd cid \<rightharpoonup> bool \<times> gotime) \<Rightarrow> (string \<times> string \<times> 'd cid \<rightharpoonup> bool \<times> gotime)" where
  "actLedger (KPut vh blob) m = m"
| "actLedger (KPutBatch entries) m = m"
| "actLedger KClear m = m"
| "actLedger (KAdd h p c r) m = m((h, p, the c) \<mapsto> (r, zeroTime))"
| "actLedger (KAddExpiring h p c r x) m = m((h, p, the c) \<mapsto> (r, storedTime x))"
| "actLedger (KRemove h p c) m = m((h, p, the c) := None)"
| "actLedger (KAddBatch h pins) m = setPins h pins m"
| "actLedger (KRemoveBatch h pins) m = dropPins h pins m"

primrec actCatalog :: "'d kvAct \<Rightarrow> (vhash \<rightharpoonup> 'd cid) \<Rightarrow> (vhash \<rightharpoonup> 'd cid)" where
  "actCatalog (KPut vh blob) m = m(vh \<mapsto> the blob)"
| "actCatalog (KPutBatch entries) m = foldl (\<lambda>m (vh, blob). m(vh \<mapsto> the blob)) m entries"
| "actCatalog KClear m = Map.empty"
| "actCatalog (KAdd h p c r) m = m"
| "actCatalog (KAddExpiring h p c r x) m = m"
| "actCatalog (KRemove h p c) m = m"
| "actCatalog (KAddBatch h pins) m = m"
| "actCatalog (KRemoveBatch h pins) m = m"

text \<open>A run, with the requests that were accepted.\<close>

primrec kvRun :: "'d cidLib \<Rightarrow> 'd kvAct list \<Rightarrow> kvdb \<Rightarrow> 'd kvAct list \<times> kvdb" where
  "kvRun K [] s = ([], s)"
| "kvRun K (a # as) s = (case kvDo K a s of
     (Inl _, t) \<Rightarrow> kvRun K as t
   | (Inr _, t) \<Rightarrow> (case kvRun K as t of (acc, u) \<Rightarrow> (a # acc, u)))"

lemma storedTime_zero: "storedTime zeroTime = zeroTime"
  by (simp add: storedTime_def)

lemma kvDo_does: "cidLib_ok K \<Longrightarrow> kvDoes K (kvDo K a) (actLedger a) (actCatalog a)"
  using CatalogPut_does PutBatch_does Clear_does ledgerAdd_does [of K _ _ _ _ zeroTime] ledgerAdd_does Remove_does AddBatch_does RemoveBatch_does
  by (cases a) (simp_all add: actLedger.simps [abs_def] actCatalog.simps [abs_def] id_def Add_def AddExpiring_def storedTime_zero del: fun_upd_apply)

lemma kvRun_spec:
  assumes K: "cidLib_ok K"
  shows "kvWf K s \<Longrightarrow> kvRun K as s = (acc, t) \<Longrightarrow> kvWf K t \<and> ledgerOf K t = fold actLedger acc (ledgerOf K s) \<and> catalogOf K t = fold actCatalog acc (catalogOf K s)"
proof (induction as arbitrary: s acc)
  case (Cons a as)
  obtain r u where d: "kvDo K a s = (r, u)" by fastforce
  note does = kvDo_does [OF K, of a, unfolded kvDoes_def, rule_format, OF Cons.prems(1), unfolded d]
  show ?case
  proof (cases r)
    case (Inl e)
    then have su: "sameRows s u" and run: "kvRun K as u = (acc, t)" using does Cons.prems(2) d by simp_all
    have "kvWf K u" using Cons.prems(1) sameRows_abs(1) [OF su] by blast
    from Cons.IH [OF this run] show ?thesis by (simp only: sameRows_abs [OF su])
  next
    case (Inr x)
    then obtain acc' where run: "kvRun K as u = (acc', t)" "acc = a # acc'" using Cons.prems(2) d by (auto split: prod.splits)
    from Cons.IH [OF _ run(1)] does Inr show ?thesis by (simp add: run(2))
  qed
qed simp

end
