(* ===== verification/Pinning.thy ===== *)
theory Pinning
  imports Enumerate Catalog
begin

text \<open>
  Retention policies and staging pins, \<open>pinning/policy.go\<close> and \<open>pinning/staging.go\<close>: the pins a policy asks for over an
  enumerated head, and the expiring rows that keep an ingested blob until the refs that name it arrive.
\<close>

section \<open>Policies\<close>

text \<open>\<open>Mode\<close> is a Go \<open>int\<close>; \<open>ModeOther\<close> is any value besides the three constants.\<close>

datatype Mode = ModeFull | ModeWindow | ModeNone | ModeOther int

fun showNat :: "nat \<Rightarrow> string" where
  "showNat n = (if n < 10 then [char_of (48 + n)] else showNat (n div 10) @ [char_of (48 + n mod 10)])"

definition showInt :: "int \<Rightarrow> string" where
  "showInt i = (if i < 0 then ''-'' @ showNat (nat (- i)) else showNat (nat i))"

definition modeString :: "Mode \<Rightarrow> string" where
  "modeString m = (case m of ModeFull \<Rightarrow> ''full'' | ModeWindow \<Rightarrow> ''window'' | ModeNone \<Rightarrow> ''none'' | ModeOther i \<Rightarrow> ''Mode('' @ showInt i @ '')'')"

definition ParseMode :: "string \<Rightarrow> 'd err + Mode" where
  "ParseMode s = (if s = ''full'' then Inr ModeFull else if s = ''window'' then Inr ModeWindow
     else if s = ''none'' then Inr ModeNone else Inl (PinningErr ''pin mode''))"

abbreviation (input) PurposeRoot :: string where "PurposeRoot \<equiv> ''root''"
abbreviation (input) PurposeIndex :: string where "PurposeIndex \<equiv> ''index''"
abbreviation (input) PurposeWindow :: string where "PurposeWindow \<equiv> ''window''"
abbreviation (input) PurposeOpen :: string where "PurposeOpen \<equiv> ''open''"
abbreviation (input) PurposeManifest :: string where "PurposeManifest \<equiv> ''manifest''"

text \<open>A \<open>time.Duration\<close> is a number of nanoseconds.\<close>

record Policy =
  poMode :: Mode
  poDuration :: int
  poSecondsPerSlot :: u64

definition Full :: Policy where
  "Full = \<lparr>poMode = ModeFull, poDuration = 0, poSecondsPerSlot = 0\<rparr>"

definition NonePolicy :: Policy where
  "NonePolicy = \<lparr>poMode = ModeNone, poDuration = 0, poSecondsPerSlot = 0\<rparr>"

definition Window :: "int \<Rightarrow> u64 \<Rightarrow> Policy" where
  "Window d secondsPerSlot = \<lparr>poMode = ModeWindow, poDuration = d, poSecondsPerSlot = secondsPerSlot\<rparr>"

definition PolicyValidate :: "Policy \<Rightarrow> 'd err + unit" where
  "PolicyValidate p = (case poMode p of
     ModeFull \<Rightarrow> Inr ()
   | ModeNone \<Rightarrow> Inr ()
   | ModeWindow \<Rightarrow>
       if poDuration p \<le> 0 then Inl (PinningErr ''window duration'')
       else if poSecondsPerSlot p = 0 then Inl (PinningErr ''seconds_per_slot'')
       else Inr ()
   | ModeOther _ \<Rightarrow> Inl (PinningErr ''unknown pin mode''))"

text \<open>Go's integer division truncates towards zero, and the conversion to \<open>uint64\<close> wraps.\<close>

definition WindowSlots :: "Policy \<Rightarrow> u64" where
  "WindowSlots p =
     (if poMode p \<noteq> ModeWindow \<or> poSecondsPerSlot p = 0 then 0
      else word_of_int (sgn (poDuration p) * (\<bar>poDuration p\<bar> div 1000000000)) div poSecondsPerSlot p)"

definition windowLow :: "Policy \<Rightarrow> u64 \<Rightarrow> u64" where
  "windowLow p syn = (let slots = WindowSlots p in if slots < syn then syn - slots else 0)"

record 'd Pin =
  pnPurpose :: string
  pnCID :: "'d link"
  pnRecursive :: bool

definition sealedPin :: "Policy \<Rightarrow> u64 \<Rightarrow> 'd SealedSegment \<Rightarrow> 'd Pin" where
  "sealedPin p low s =
     (if poMode p = ModeWindow \<and> low \<le> slLastSlot s
      then \<lparr>pnPurpose = PurposeWindow, pnCID = Some (slCID s), pnRecursive = True\<rparr>
      else \<lparr>pnPurpose = PurposeIndex, pnCID = Some (slCID s), pnRecursive = False\<rparr>)"

definition Desired :: "Policy \<Rightarrow> 'd Enumeration \<Rightarrow> 'd err + 'd Pin list" where
  "Desired p e = bindE (PolicyValidate p) (\<lambda>_.
     if emRoot e = None then Inl (PinningErr ''enumeration has no root'')
     else if poMode p = ModeFull then Inr [\<lparr>pnPurpose = PurposeRoot, pnCID = emRoot e, pnRecursive = True\<rparr>]
     else Inr (\<lparr>pnPurpose = PurposeRoot, pnCID = emRoot e, pnRecursive = False\<rparr> #
       map (\<lambda>page. \<lparr>pnPurpose = PurposeIndex, pnCID = Some page, pnRecursive = False\<rparr>) (emDirPages e) @
       map (sealedPin p (windowLow p (emSyncedTo e))) (emSealed e) @
       (if emOpen e \<noteq> None then [\<lparr>pnPurpose = PurposeOpen, pnCID = emOpen e, pnRecursive = (poMode p = ModeWindow)\<rparr>] else [])))"

section \<open>Staging pins\<close>

abbreviation (input) StagingHead :: string where "StagingHead \<equiv> ''_staging''"
abbreviation (input) PurposeStaging :: string where "PurposeStaging \<equiv> ''staging''"
abbreviation (input) DefaultStagingTTL :: int where "DefaultStagingTTL \<equiv> 86400000000000"

text \<open>The staging store keeps its rows in the ledger; what is left of its state is the TTL. The clock and the resolver
  are arguments.\<close>

definition NewStaging :: "int \<Rightarrow> 'd err + int" where
  "NewStaging ttl = (if ttl < 0 then Inl (PinningErr ''negative TTL'') else Inr (if ttl = 0 then DefaultStagingTTL else ttl))"

definition stagingEntry :: "gotime \<Rightarrow> 'd link \<Rightarrow> 'd PinEntry" where
  "stagingEntry expiry c = \<lparr>pePurpose = PurposeStaging, peCID = c, peRecursive = False, peExpiry = expiry\<rparr>"

definition StagingPin :: "'d cidLib \<Rightarrow> int \<Rightarrow> gotime \<Rightarrow> 'd link list \<Rightarrow> ('d, unit) kv" where
  "StagingPin K ttl now cids =
     (if cids = [] then ret () else AddBatch K StagingHead (map (stagingEntry (now + ttl)) cids))"

primrec refPins :: "(vhash \<Rightarrow> ('d, 'd link \<times> bool) kv) \<Rightarrow> vhash list \<Rightarrow> 'd PinEntry list \<Rightarrow> ('d, 'd PinEntry list) kv" where
  "refPins resolver [] pins = ret pins"
| "refPins resolver (vh # vhs) pins =
     bind (resolver vh) (\<lambda>(c, ok). refPins resolver vhs (if ok then pins @ [stagingEntry zeroTime c] else pins))"

definition DropRefs :: "'d cidLib \<Rightarrow> (vhash \<Rightarrow> ('d, 'd link \<times> bool) kv) \<Rightarrow> RefRow list \<Rightarrow> ('d, unit) kv" where
  "DropRefs K resolver rows = bind (refPins resolver (concat (map rrVHs rows)) []) (RemoveBatch K StagingHead)"

definition StagingDrop :: "'d cidLib \<Rightarrow> 'd link list \<Rightarrow> ('d, unit) kv" where
  "StagingDrop K cids = (if cids = [] then ret () else RemoveBatch K StagingHead (map (stagingEntry zeroTime) cids))"

definition StagingList :: "'d cidLib \<Rightarrow> ('d, 'd PinEntry list) kv" where
  "StagingList K = ListAll K StagingHead"

definition DropExpired :: "'d cidLib \<Rightarrow> gotime \<Rightarrow> ('d, nat) kv" where
  "DropExpired K now = bind (StagingList K) (\<lambda>rows.
     let expired = filter (\<lambda>r. Expires r \<and> \<not> now < peExpiry r) rows in
     bind (RemoveBatch K StagingHead expired) (\<lambda>_. ret (length expired)))"

definition checkStagingName :: "string \<Rightarrow> 'd err + unit" where
  "checkStagingName name = (if name = StagingHead then Inl (PinningErr ''reserved staging head'') else Inr ())"

section \<open>Modes and windows\<close>

lemma ParseMode_modeString: "ParseMode s = Inr m \<Longrightarrow> modeString m = s"
  by (auto simp: ParseMode_def modeString_def split: if_splits)

lemma PolicyValidate_iff:
  "PolicyValidate p = Inr u \<longleftrightarrow> poMode p = ModeFull \<or> poMode p = ModeNone \<or>
     poMode p = ModeWindow \<and> 0 < poDuration p \<and> poSecondsPerSlot p \<noteq> 0"
  by (auto simp: PolicyValidate_def split: Mode.splits)

lemma windowLow_le: "windowLow p syn \<le> syn"
  by (auto simp: windowLow_def Let_def word_le_nat_alt word_less_nat_alt unat_sub_if')

lemma sealedPin_cid [simp]: "pnCID (sealedPin p low x) = Some (slCID x)"
  by (simp add: sealedPin_def)

lemma Desired_cids:
  assumes "Desired p e = Inr pins" "poMode p \<noteq> ModeFull"
  shows "pnCID ` set pins = {emRoot e} \<union> Some ` set (emDirPages e) \<union> (Some \<circ> slCID) ` set (emSealed e) \<union> {c. c = emOpen e \<and> c \<noteq> None}"
  using assms by (auto simp: Desired_def bindE_Inr_iff image_Un image_image split: if_splits)

section \<open>Staging rows\<close>

lemma dropPins_apply: "dropPins h pins m k = (if \<exists>p\<in>set pins. k = (h, pePurpose p, the (peCID p)) then None else m k)"
  by (induction pins arbitrary: m) auto

lemma setPins_staging:
  "setPins h (map (stagingEntry e) cids) m k = (if \<exists>c\<in>set cids. k = (h, PurposeStaging, the c) then Some (False, storedTime e) else m k)"
  by (induction cids arbitrary: m) (auto simp: stagingEntry_def)

text \<open>The table after the rows that lapsed by \<open>now\<close> are gone.\<close>

definition lapsed :: "gotime \<Rightarrow> (string \<times> string \<times> 'd cid \<rightharpoonup> bool \<times> gotime) \<Rightarrow> string \<times> string \<times> 'd cid \<Rightarrow> bool" where
  "lapsed now m k \<longleftrightarrow> fst k = StagingHead \<and> (case m k of None \<Rightarrow> False | Some (_, x) \<Rightarrow> x \<noteq> zeroTime \<and> x \<le> now)"

lemma listsPins_distinct:
  assumes "cidLib_ok K" "validName h" "listsPins K h es m"
  shows "distinct (map (\<lambda>e. (pePurpose e, the (peCID e))) es)"
proof -
  have "distinct (map (pinKeyOf K h) es)" using assms(3) strict_sorted_iff unfolding listsPins_def by blast
  then show ?thesis by (auto simp: distinct_map inj_on_def pinKeyOf_def)
qed

lemma listsPins_mem:
  "listsPins K h es m \<Longrightarrow> e \<in> set es \<Longrightarrow> peCID e \<noteq> None \<and> m (h, pePurpose e, the (peCID e)) = Some (peRecursive e, peExpiry e)"
  unfolding listsPins_def by (cases e) fastforce

lemma validName_staging: "validName StagingHead"
  by (simp add: validName_def strBytes_def)

lemma lapsed_list:
  assumes "listsPins K StagingHead es m"
  shows "(\<exists>p\<in>set (filter (\<lambda>r. Expires r \<and> \<not> now < peExpiry r) es). k = (StagingHead, pePurpose p, the (peCID p))) \<longleftrightarrow> lapsed now m k"
proof
  assume "\<exists>p\<in>set (filter (\<lambda>r. Expires r \<and> \<not> now < peExpiry r) es). k = (StagingHead, pePurpose p, the (peCID p))"
  then show "lapsed now m k" using listsPins_mem [OF assms] by (auto simp: lapsed_def Expires_def)
next
  assume l: "lapsed now m k"
  then obtain p c r x where k: "k = (StagingHead, p, c)" "m k = Some (r, x)" "x \<noteq> zeroTime" "x \<le> now"
    by (cases k) (auto simp: lapsed_def split: option.splits)
  let ?e = "\<lparr>pePurpose = p, peCID = Some c, peRecursive = r, peExpiry = x\<rparr>"
  have "?e \<in> set es" using assms k(1,2) by (simp add: listsPins_def)
  then show "\<exists>p\<in>set (filter (\<lambda>r. Expires r \<and> \<not> now < peExpiry r) es). k = (StagingHead, pePurpose p, the (peCID p))"
    using k by (intro bexI [of _ ?e]) (auto simp: Expires_def)
qed

lemma DropExpired_spec:
  assumes K: "cidLib_ok K" and wf: "kvWf K s"
  shows "case DropExpired K now s of
      (Inl e, t) \<Rightarrow> sameRows s t
    | (Inr n, t) \<Rightarrow> kvWf K t \<and> catalogOf K t = catalogOf K s \<and> n = card {k. lapsed now (ledgerOf K s) k} \<and>
        ledgerOf K t = (\<lambda>k. if lapsed now (ledgerOf K s) k then None else ledgerOf K s k)"
proof -
  obtain r t where run: "ListAll K StagingHead s = (r, t)" by (cases "ListAll K StagingHead s")
  note l = ListAll_spec [OF K wf, of StagingHead, unfolded run]
  show ?thesis
  proof (cases r)
    case (Inr es)
    with l have es: "listsPins K StagingHead es (ledgerOf K s)" and st: "sameRows s t" by simp_all
    let ?ex = "filter (\<lambda>r. Expires r \<and> \<not> now < peExpiry r) es"
    obtain r2 u where run2: "RemoveBatch K StagingHead ?ex t = (r2, u)" by (cases "RemoveBatch K StagingHead ?ex t")
    have "kvWf K t" using wf by (simp only: sameRows_abs(1) [OF st])
    note d = RemoveBatch_does [OF K, unfolded kvDoes_def, rule_format, OF this, of StagingHead ?ex, unfolded run2]
    have "{k. lapsed now (ledgerOf K s) k} = (\<lambda>e. (StagingHead, pePurpose e, the (peCID e))) ` set ?ex"
      using lapsed_list [OF es, of now] by blast
    moreover have "inj_on (\<lambda>e. (StagingHead, pePurpose e, the (peCID e))) (set ?ex)" "distinct ?ex"
      using listsPins_distinct [OF K validName_staging es] by (auto simp: distinct_map inj_on_def)
    ultimately have n: "card {k. lapsed now (ledgerOf K s) k} = length ?ex" by (simp only: card_image distinct_card)
    have m: "dropPins StagingHead ?ex (ledgerOf K s) = (\<lambda>k. if lapsed now (ledgerOf K s) k then None else ledgerOf K s k)"
      using lapsed_list [OF es, of now] by (simp add: fun_eq_iff dropPins_apply)
    show ?thesis
      using d sameRows_trans [OF st] by (cases r2) (simp_all add: DropExpired_def StagingList_def bind_def run Inr Let_def run2 n m sameRows_abs [OF st])
  qed (use l in \<open>simp add: DropExpired_def StagingList_def bind_def run\<close>)
qed

lemma StagingPin_does:
  assumes "cidLib_ok K"
  shows "kvDoes K (StagingPin K ttl now cids)
    (\<lambda>m k. if \<exists>c\<in>set cids. k = (StagingHead, PurposeStaging, the c) then Some (False, storedTime (now + ttl)) else m k) id"
proof (cases "cids = []")
  case True
  then show ?thesis by (simp add: StagingPin_def kvDoes_pure [unfolded id_def] id_def)
next
  case False
  then show ?thesis
    using AddBatch_does [OF assms, of StagingHead "map (stagingEntry (now + ttl)) cids"] by (simp add: StagingPin_def setPins_staging [abs_def])
qed

lemma windowLow_covers: "unat x \<le> unat y + unat (WindowSlots pol) \<Longrightarrow> windowLow pol x \<le> y"
  by (auto simp: windowLow_def Let_def word_le_nat_alt unat_sub word_less_nat_alt)

end
