(* ===== verification/Reconcile.thy ===== *)
theory Reconcile
  imports Pinning History "HOL-Library.Char_ord" "HOL-Library.AList"
begin

text \<open>
  Pin reconciliation, \<open>pinning/reconcile.go\<close> and \<open>pinning/follow.go\<close>: the registered heads, the diff between the pins a
  policy asks for and the ledger's rows, and the pass that applies the difference, adding before it removes.
\<close>

section \<open>Registrations\<close>

text \<open>A registered head is the engine it points to. The withdrawal token is the address of a zero-size struct; all such
  addresses are equal, so a token says no more than that there is one.\<close>

record ('b, 'd) regEntry =
  reHead :: "('b, 'd) engine option"
  rePolicy :: Policy
  reWithdrawal :: bool

record ('b, 'd) reconciler =
  rcKv :: kvdb
  rcHeads :: "(string \<times> ('b, 'd) regEntry) list"
  rcNames :: "string list"
  rcPending :: "string list"

type_synonym ('b, 'd, 'a) rec = "(('b, 'd) reconciler, 'd err, 'a) op"

record Delta =
  dAdded :: nat
  dRemoved :: nat

definition deltaAdd :: "Delta \<Rightarrow> Delta \<Rightarrow> Delta" where
  "deltaAdd d o' = \<lparr>dAdded = dAdded d + dAdded o', dRemoved = dRemoved d + dRemoved o'\<rparr>"

abbreviation (input) DefaultInterval :: int where "DefaultInterval \<equiv> 300000000000"

definition NewReconciler :: "kvdb \<Rightarrow> int \<Rightarrow> 'd err + ('b, 'd) reconciler \<times> int" where
  "NewReconciler ledger interval =
     (let i = (if interval = 0 then DefaultInterval else interval) in
      if i \<le> 0 then Inl (PinningErr ''interval'')
      else Inr (\<lparr>rcKv = ledger, rcHeads = [], rcNames = [], rcPending = []\<rparr>, i))"

definition setEntry :: "string \<Rightarrow> ('b, 'd) regEntry \<Rightarrow> ('b, 'd) reconciler \<Rightarrow> ('b, 'd) reconciler" where
  "setEntry name e s = s\<lparr>rcHeads := AList.update name e (rcHeads s)\<rparr>"

definition sortNames :: "('b, 'd) reconciler \<Rightarrow> ('b, 'd) reconciler" where
  "sortNames s = s\<lparr>rcNames := sort (map fst (rcHeads s))\<rparr>"

definition addPending :: "string \<Rightarrow> ('b, 'd) reconciler \<Rightarrow> ('b, 'd) reconciler" where
  "addPending name s = s\<lparr>rcPending := List.insert name (rcPending s)\<rparr>"

definition headParams :: "('b, 'd) engine \<Rightarrow> Params" where
  "headParams h = params (cur h)"

definition recAdd :: "('b, 'd) engine option \<Rightarrow> Policy \<Rightarrow> ('b, 'd, unit) rec" where
  "recAdd head p = (case head of
     None \<Rightarrow> fail (PinningErr ''nil head'')
   | Some h \<Rightarrow> bind (liftE (PolicyValidate p)) (\<lambda>_.
       let name = pName (headParams h) in
       bind (liftE (checkStagingName name)) (\<lambda>_.
       bind (gets (\<lambda>s. map_of (rcHeads s) name)) (\<lambda>dup.
       if dup \<noteq> None then fail (PinningErr ''already registered'')
       else modify (\<lambda>s. sortNames (setEntry name \<lparr>reHead = Some h, rePolicy = p, reWithdrawal = False\<rparr> s))))))"

text \<open>A nil head under a registered name is dereferenced by \<open>current.head.Params()\<close>: that panic is \<open>Internal\<close>.\<close>

definition Replace :: "('b, 'd) engine option \<Rightarrow> ('b, 'd, unit) rec" where
  "Replace head = (case head of
     None \<Rightarrow> fail (PinningErr ''nil head'')
   | Some h \<Rightarrow> let p = headParams h in
       bind (liftE (checkStagingName (pName p))) (\<lambda>_.
       bind (gets (\<lambda>s. map_of (rcHeads s) (pName p))) (\<lambda>current. case current of
         None \<Rightarrow> fail (PinningErr ''not registered'')
       | Some e \<Rightarrow> (case reHead e of
           None \<Rightarrow> fail (Internal ''nil head'')
         | Some old \<Rightarrow>
             let q = headParams old in
             if pNet p \<noteq> pNet q \<or> pSegBits p \<noteq> pSegBits q \<or> pFanoutBits p \<noteq> pFanoutBits q
             then fail (PinningErr ''immutable parameters'')
             else modify (setEntry (pName p) (e\<lparr>reHead := Some h\<rparr>))))))"

text \<open>The closure \<open>BindReplacement\<close> returns; an absent name reads the zero entry.\<close>

definition bound :: "string \<Rightarrow> ('b, 'd) engine \<Rightarrow> ('b, 'd) reconciler \<Rightarrow> ('b, 'd) reconciler" where
  "bound name head s = setEntry name
     ((case map_of (rcHeads s) name of None \<Rightarrow> \<lparr>reHead = None, rePolicy = Full, reWithdrawal = False\<rparr> | Some e \<Rightarrow> e)\<lparr>reHead := Some head\<rparr>) s"

definition BindReplacement :: "string \<Rightarrow> ('b, 'd, ('b, 'd) engine \<Rightarrow> ('b, 'd) reconciler \<Rightarrow> ('b, 'd) reconciler) rec" where
  "BindReplacement name = bind (liftE (checkStagingName name)) (\<lambda>_.
     bind (gets (\<lambda>s. map_of (rcHeads s) name)) (\<lambda>e.
     if e = None then fail (PinningErr ''not registered'') else ret (bound name)))"

definition Notify :: "string \<Rightarrow> ('b, 'd) reconciler \<Rightarrow> ('b, 'd) reconciler" where
  "Notify head = addPending head"

definition markAll :: "('b, 'd) reconciler \<Rightarrow> ('b, 'd) reconciler" where
  "markAll s = foldl (\<lambda>t n. addPending n t) s (rcNames s)"

definition takePending :: "('b, 'd, string list) rec" where
  "takePending s = (Inr (sort (filter (\<lambda>n. map_of (rcHeads s) n \<noteq> None) (rcPending s))), s\<lparr>rcPending := []\<rparr>)"

record ('b, 'd) Registration =
  rgName :: string
  rgHead :: "('b, 'd) engine option"
  rgPolicy :: Policy

fun prepareLoop :: "('b, 'd) Registration list \<Rightarrow> string list \<Rightarrow> 'd err + (string \<times> ('b, 'd) regEntry) list" where
  "prepareLoop [] seen = Inr []"
| "prepareLoop (r # rs) seen =
     bindE (checkStagingName (rgName r)) (\<lambda>_.
     bindE (liftS (ValidateHeadName (rgName r))) (\<lambda>_.
     if rgName r \<in> set seen then Inl (PinningErr ''duplicate registration'')
     else bindE (PolicyValidate (rgPolicy r)) (\<lambda>_.
       bindE (case rgHead r of
           None \<Rightarrow> Inr \<lparr>reHead = None, rePolicy = rgPolicy r, reWithdrawal = True\<rparr>
         | Some h \<Rightarrow> if pName (headParams h) \<noteq> rgName r then Inl (PinningErr ''head name'')
             else Inr \<lparr>reHead = Some h, rePolicy = rgPolicy r, reWithdrawal = False\<rparr>) (\<lambda>e.
       bindE (prepareLoop rs (rgName r # seen)) (\<lambda>es. Inr ((rgName r, e) # es))))))"

definition applyPrepared :: "(string \<times> ('b, 'd) regEntry) list \<Rightarrow> ('b, 'd) reconciler \<Rightarrow> ('b, 'd) reconciler" where
  "applyPrepared prepared s =
     (let t = foldl (\<lambda>t (n, e). addPending n (setEntry n e t)) s prepared in
      if prepared = [] then t else sortNames t)"

definition PrepareSetBatch :: "('b, 'd) Registration list \<Rightarrow> 'd err + (('b, 'd) reconciler \<Rightarrow> ('b, 'd) reconciler)" where
  "PrepareSetBatch registrations = bindE (prepareLoop registrations []) (\<lambda>prepared. Inr (applyPrepared prepared))"

definition Set :: "('b, 'd) engine option \<Rightarrow> Policy \<Rightarrow> ('b, 'd, unit) rec" where
  "Set head p = (case head of
     None \<Rightarrow> fail (PinningErr ''nil head'')
   | Some h \<Rightarrow> bind (liftE (PrepareSetBatch [\<lparr>rgName = pName (headParams h), rgHead = head, rgPolicy = p\<rparr>])) modify)"

section \<open>The diff\<close>

definition key :: "'d cidLib \<Rightarrow> string \<Rightarrow> 'd link \<Rightarrow> string \<times> bytes option" where
  "key K purpose c = (purpose, map_option (cidBytes K) c)"

definition wanted :: "'d cidLib \<Rightarrow> 'd Pin list \<Rightarrow> string \<times> bytes option \<rightharpoonup> 'd Pin" where
  "wanted K desired = foldl (\<lambda>m p. m(key K (pnPurpose p) (pnCID p) \<mapsto> p)) Map.empty desired"

definition plan :: "'d cidLib \<Rightarrow> 'd Pin list \<Rightarrow> 'd PinEntry list \<Rightarrow> 'd Pin list \<times> 'd Pin list" where
  "plan K desired have' =
     (let want = wanted K desired;
          kOf = (\<lambda>e. key K (pePurpose e) (peCID e));
          held = map kOf have';
          remove = map (\<lambda>e. \<lparr>pnPurpose = pePurpose e, pnCID = peCID e, pnRecursive = peRecursive e\<rparr>) (filter (\<lambda>e. want (kOf e) = None) have');
          rewrite = concat (map (\<lambda>e. case want (kOf e) of None \<Rightarrow> [] | Some p \<Rightarrow> if pnRecursive p \<noteq> peRecursive e then [p] else []) have');
          missing = filter (\<lambda>p. key K (pnPurpose p) (pnCID p) \<notin> set held) desired
      in (rewrite @ missing, remove))"

section \<open>A pass\<close>

primrec addPins :: "(string \<Rightarrow> 'd link \<Rightarrow> bool \<Rightarrow> ('s, 'e, unit) op) \<Rightarrow> 'd Pin list \<Rightarrow> nat \<Rightarrow> ('s, 'e, nat) op" where
  "addPins add [] n = ret n"
| "addPins add (p # ps) n = bind (add (pnPurpose p) (pnCID p) (pnRecursive p)) (\<lambda>_. addPins add ps (n + 1))"

primrec removePins :: "(string \<Rightarrow> 'd link \<Rightarrow> ('s, 'e, unit) op) \<Rightarrow> 'd Pin list \<Rightarrow> nat \<Rightarrow> ('s, 'e, nat) op" where
  "removePins remove [] n = ret n"
| "removePins remove (p # ps) n = bind (remove (pnPurpose p) (pnCID p)) (\<lambda>_. removePins remove ps (n + 1))"

text \<open>The part of a pass that works through the \<open>pinLedger\<close> interface.\<close>

definition syncPins :: "'d cidLib \<Rightarrow> (string \<Rightarrow> string \<Rightarrow> 'd link \<Rightarrow> bool \<Rightarrow> ('s, 'e, unit) op) \<Rightarrow>
    (string \<Rightarrow> string \<Rightarrow> 'd link \<Rightarrow> ('s, 'e, unit) op) \<Rightarrow> (string \<Rightarrow> ('s, 'e, 'd PinEntry list) op) \<Rightarrow>
    string \<Rightarrow> 'd Pin list \<Rightarrow> ('s, 'e, Delta) op" where
  "syncPins K add remove listAll name desired =
     bind (listAll name) (\<lambda>have'. case plan K desired have' of (toAdd, toRemove) \<Rightarrow>
     bind (addPins (add name) toAdd 0) (\<lambda>added.
     bind (removePins (remove name) toRemove 0) (\<lambda>removed.
     ret \<lparr>dAdded = added, dRemoved = removed\<rparr>)))"

definition onKv :: "('d, 'a) kv \<Rightarrow> ('b, 'd, 'a) rec" where
  "onKv m s = (case m (rcKv s) of (r, kv) \<Rightarrow> (r, s\<lparr>rcKv := kv\<rparr>))"

text \<open>\<open>e.head.Enumerate\<close> updates the engine's own caches through the pointer.\<close>

definition enumerateHead :: "('b, 'd) lib \<Rightarrow> u64 option \<Rightarrow> u64 option \<Rightarrow> string \<Rightarrow> ('b, 'd) regEntry \<Rightarrow> ('b, 'd, 'd Enumeration) rec" where
  "enumerateHead L gen gen' name e s = (case reHead e of
     None \<Rightarrow> (Inl (Internal ''nil head''), s)
   | Some h \<Rightarrow> (case Enumerate L gen gen' h of (r, h') \<Rightarrow> (r, setEntry name (e\<lparr>reHead := Some h'\<rparr>) s)))"

definition desiredPins :: "('b, 'd) lib \<Rightarrow> u64 option \<Rightarrow> u64 option \<Rightarrow> (string \<Rightarrow> 'd err + 'd link \<times> bool) option \<Rightarrow>
    string \<Rightarrow> ('b, 'd) regEntry \<Rightarrow> ('b, 'd, 'd Pin list) rec" where
  "desiredPins L gen gen' manifestTip name e =
     (if reWithdrawal e then ret []
      else bind (enumerateHead L gen gen' name e) (\<lambda>enum.
        bind (liftE (Desired (rePolicy e) enum)) (\<lambda>desired. case manifestTip of
          None \<Rightarrow> ret desired
        | Some f \<Rightarrow> bind (liftE (f name)) (\<lambda>(tip, ok).
            ret (if ok then desired @ [\<lparr>pnPurpose = PurposeManifest, pnCID = tip, pnRecursive = True\<rparr>] else desired)))))"

definition dropTombstone :: "string \<Rightarrow> ('b, 'd) reconciler \<Rightarrow> ('b, 'd) reconciler" where
  "dropTombstone name s = (case map_of (rcHeads s) name of
     None \<Rightarrow> s
   | Some current \<Rightarrow> if reWithdrawal current then sortNames (s\<lparr>rcHeads := AList.delete name (rcHeads s)\<rparr>) else s)"

text \<open>\<open>meanwhile\<close> is what other goroutines did to the registrations and the ledger between this pass's last ledger write
  and its final look at the registrations.\<close>

definition reconcileHead :: "('b, 'd) lib \<Rightarrow> 'd cidLib \<Rightarrow> u64 option \<Rightarrow> u64 option \<Rightarrow> (string \<Rightarrow> 'd err + 'd link \<times> bool) option \<Rightarrow>
    (('b, 'd) reconciler \<Rightarrow> ('b, 'd) reconciler) \<Rightarrow> string \<Rightarrow> ('b, 'd, Delta) rec" where
  "reconcileHead L K gen gen' manifestTip meanwhile name =
     bind (gets (\<lambda>s. map_of (rcHeads s) name)) (\<lambda>registered. case registered of
       None \<Rightarrow> fail (PinningErr ''not registered'')
     | Some e \<Rightarrow>
         bind (desiredPins L gen gen' manifestTip name e) (\<lambda>desired.
         bind (syncPins K (\<lambda>h p c r. onKv (Add K h p c r)) (\<lambda>h p c. onKv (Remove K h p c)) (\<lambda>h. onKv (ListAll K h)) name desired) (\<lambda>delta.
         bind (modify meanwhile) (\<lambda>_.
         bind (modify (if reWithdrawal e then dropTombstone name else id)) (\<lambda>_.
         ret delta)))))"

primrec reconcileLoop :: "(string \<Rightarrow> ('b, 'd, Delta) rec) \<Rightarrow> string list \<Rightarrow> Delta \<Rightarrow> ('b, 'd, Delta) rec" where
  "reconcileLoop pass [] acc = ret acc"
| "reconcileLoop pass (n # ns) acc = bind (pass n) (\<lambda>delta. reconcileLoop pass ns (deltaAdd acc delta))"

definition reconcileAll :: "('b, 'd) lib \<Rightarrow> 'd cidLib \<Rightarrow> u64 option \<Rightarrow> u64 option \<Rightarrow> (string \<Rightarrow> 'd err + 'd link \<times> bool) option \<Rightarrow>
    (('b, 'd) reconciler \<Rightarrow> ('b, 'd) reconciler) \<Rightarrow> ('b, 'd, Delta) rec" where
  "reconcileAll L K gen gen' manifestTip meanwhile =
     bind (gets rcNames) (\<lambda>names. reconcileLoop (reconcileHead L K gen gen' manifestTip meanwhile) names \<lparr>dAdded = 0, dRemoved = 0\<rparr>)"

section \<open>What the diff asks for\<close>

type_synonym 'd pinTable = "string \<times> string \<times> 'd cid \<rightharpoonup> bool \<times> gotime"

lemma wanted_append: "wanted K (xs @ ys) k = (case wanted K ys k of None \<Rightarrow> wanted K xs k | Some p \<Rightarrow> Some p)"
  by (induction ys rule: rev_induct) (auto simp: wanted_def split: option.splits)

lemma wanted_snoc: "wanted K (ps @ [p]) = (wanted K ps)(key K (pnPurpose p) (pnCID p) \<mapsto> p)"
  by (simp add: wanted_def)

lemma wanted_None: "wanted K ps k = None \<longleftrightarrow> (\<forall>p\<in>set ps. key K (pnPurpose p) (pnCID p) \<noteq> k)"
proof (induction ps rule: rev_induct)
  case Nil
  show ?case by (simp add: wanted_def)
next
  case (snoc p ps)
  then show ?case by (auto simp: wanted_snoc)
qed

lemma wanted_Some: "wanted K ps k = Some p \<Longrightarrow> p \<in> set ps \<and> key K (pnPurpose p) (pnCID p) = k"
proof (induction ps rule: rev_induct)
  case Nil
  then show ?case by (simp add: wanted_def)
next
  case (snoc q ps)
  then show ?case by (auto simp: wanted_snoc split: if_splits)
qed

lemma wanted_filter: "P k \<Longrightarrow> wanted K (filter (\<lambda>p. P (key K (pnPurpose p) (pnCID p))) ps) k = wanted K ps k"
proof (induction ps rule: rev_induct)
  case (snoc p ps)
  then show ?case by (cases "P (key K (pnPurpose p) (pnCID p))") (auto simp: wanted_snoc)
qed simp

definition putPins :: "string \<Rightarrow> 'd Pin list \<Rightarrow> 'd pinTable \<Rightarrow> 'd pinTable" where
  "putPins h ps m = foldl (\<lambda>m p. m((h, pnPurpose p, the (pnCID p)) \<mapsto> (pnRecursive p, zeroTime))) m ps"

definition clearPins :: "string \<Rightarrow> 'd Pin list \<Rightarrow> 'd pinTable \<Rightarrow> 'd pinTable" where
  "clearPins h ps m = foldl (\<lambda>m p. m((h, pnPurpose p, the (pnCID p)) := None)) m ps"

lemma key_eq: "cidLib_ok K \<Longrightarrow> c \<noteq> None \<Longrightarrow> key K p c = key K q (Some d) \<longleftrightarrow> p = q \<and> the c = d"
  by (auto simp: key_def cidBytes_inject)

lemma putPins_wanted:
  assumes K: "cidLib_ok K" and ps: "\<forall>p\<in>set ps. pnCID p \<noteq> None"
  shows "putPins h ps m (h, p, c) = (case wanted K ps (key K p (Some c)) of None \<Rightarrow> m (h, p, c) | Some q \<Rightarrow> Some (pnRecursive q, zeroTime))"
  using ps
proof (induction ps rule: rev_induct)
  case Nil
  show ?case by (simp add: putPins_def wanted_def)
next
  case (snoc q ps)
  have "putPins h (ps @ [q]) m = (putPins h ps m)((h, pnPurpose q, the (pnCID q)) \<mapsto> (pnRecursive q, zeroTime))" by (simp add: putPins_def)
  with snoc key_eq [OF K, of "pnCID q" "pnPurpose q" p c] show ?case by (auto simp: wanted_snoc)
qed

lemma putPins_other: "fst k \<noteq> h \<Longrightarrow> putPins h ps m k = m k"
  unfolding putPins_def by (induction ps arbitrary: m) auto

lemma clearPins_apply: "clearPins h ps m k = (if \<exists>p\<in>set ps. k = (h, pnPurpose p, the (pnCID p)) then None else m k)"
  unfolding clearPins_def by (induction ps arbitrary: m) auto

text \<open>The rows of head \<open>h\<close> are exactly the pins asked for.\<close>

definition exactPins :: "'d cidLib \<Rightarrow> string \<Rightarrow> 'd Pin list \<Rightarrow> 'd pinTable \<Rightarrow> bool" where
  "exactPins K h desired m \<longleftrightarrow>
     (\<forall>p c. map_option fst (m (h, p, c)) = map_option pnRecursive (wanted K desired (key K p (Some c))))"

text \<open>Every pin asked for has its row.\<close>

definition coversPins :: "'d cidLib \<Rightarrow> string \<Rightarrow> 'd Pin list \<Rightarrow> 'd pinTable \<Rightarrow> bool" where
  "coversPins K h desired m \<longleftrightarrow>
     (\<forall>p c q. wanted K desired (key K p (Some c)) = Some q \<longrightarrow> map_option fst (m (h, p, c)) = Some (pnRecursive q))"

text \<open>What a pass that was cut short leaves: no row is gone unless all the pins asked for are in place, and then only rows
  nobody asked for.\<close>

definition crashSafe :: "'d cidLib \<Rightarrow> string \<Rightarrow> 'd Pin list \<Rightarrow> 'd pinTable \<Rightarrow> 'd pinTable \<Rightarrow> bool" where
  "crashSafe K h desired m m' \<longleftrightarrow>
     (\<forall>p c. m (h, p, c) \<noteq> None \<and> m' (h, p, c) = None \<longrightarrow>
        wanted K desired (key K p (Some c)) = None \<and> coversPins K h desired m')"

lemma held_iff:
  assumes K: "cidLib_ok K" and es: "listsPins K h es m"
  shows "key K p (Some c) \<in> (\<lambda>e. key K (pePurpose e) (peCID e)) ` set es \<longleftrightarrow> m (h, p, c) \<noteq> None"
proof
  assume "key K p (Some c) \<in> (\<lambda>e. key K (pePurpose e) (peCID e)) ` set es"
  then obtain e where e: "e \<in> set es" "key K (pePurpose e) (peCID e) = key K p (Some c)" by auto
  with listsPins_mem [OF es e(1)] key_eq [OF K, of "peCID e"] show "m (h, p, c) \<noteq> None" by auto
next
  assume "m (h, p, c) \<noteq> None"
  then obtain r x where "m (h, p, c) = Some (r, x)" by auto
  then have "\<lparr>pePurpose = p, peCID = Some c, peRecursive = r, peExpiry = x\<rparr> \<in> set es" using es by (simp add: listsPins_def)
  then show "key K p (Some c) \<in> (\<lambda>e. key K (pePurpose e) (peCID e)) ` set es" by (rule rev_image_eqI) simp
qed

lemma plan_wanted:
  assumes K: "cidLib_ok K" and es: "listsPins K h es m" and pl: "plan K desired es = (toAdd, toRemove)"
  shows "(case wanted K toAdd (key K p (Some c)) of None \<Rightarrow> map_option fst (m (h, p, c)) | Some q \<Rightarrow> Some (pnRecursive q)) =
    (case wanted K desired (key K p (Some c)) of None \<Rightarrow> map_option fst (m (h, p, c)) | Some q \<Rightarrow> Some (pnRecursive q))"
proof -
  let ?k = "key K p (Some c)" and ?kOf = "\<lambda>e. key K (pePurpose e) (peCID e)"
  let ?rw = "concat (map (\<lambda>e. case wanted K desired (?kOf e) of None \<Rightarrow> [] | Some p \<Rightarrow> if pnRecursive p \<noteq> peRecursive e then [p] else []) es)"
  let ?ms = "filter (\<lambda>p. key K (pnPurpose p) (pnCID p) \<notin> ?kOf ` set es) desired"
  have add: "toAdd = ?rw @ ?ms" using pl by (auto simp: plan_def Let_def)
  have rw: "wanted K desired (key K (pnPurpose q) (pnCID q)) = Some q \<and> key K (pnPurpose q) (pnCID q) \<in> ?kOf ` set es" if mem: "q \<in> set ?rw" for q
  proof -
    obtain e where e: "e \<in> set es" "wanted K desired (?kOf e) = Some q" using mem
      by (fastforce split: option.splits if_splits)
    moreover have "key K (pnPurpose q) (pnCID q) = ?kOf e" using wanted_Some [OF e(2)] by simp
    ultimately show ?thesis by simp
  qed
  show ?thesis
  proof (cases "?k \<in> ?kOf ` set es")
    case True
    have ms: "wanted K ?ms ?k = None" using True by (auto simp: wanted_None)
    obtain e where e: "e \<in> set es" "?kOf e = ?k" using True by auto
    then have m: "m (h, p, c) = Some (peRecursive e, peExpiry e)"
      using listsPins_mem [OF es e(1)] key_eq [OF K, of "peCID e"] by auto
    have a: "wanted K toAdd ?k = wanted K ?rw ?k" by (simp add: add wanted_append ms)
    have up: "wanted K desired ?k = Some q" if "wanted K ?rw ?k = Some q" for q using wanted_Some [OF that] rw [of q] by auto
    have down: "wanted K ?rw ?k \<noteq> None" if w: "wanted K desired ?k = Some q" "pnRecursive q \<noteq> peRecursive e" for q
    proof -
      have "q \<in> set ?rw" using w e by (auto intro!: bexI [of _ e])
      moreover have "key K (pnPurpose q) (pnCID q) = ?k" using wanted_Some [OF w(1)] by simp
      ultimately show ?thesis unfolding wanted_None by blast
    qed
    show ?thesis
    proof (cases "wanted K ?rw ?k")
      case None
      with down show ?thesis unfolding a m by (cases "wanted K desired ?k") auto
    next
      case (Some q)
      with up [OF this] show ?thesis by (simp only: a option.case)
    qed
  next
    case False
    have ms: "wanted K ?ms ?k = wanted K desired ?k" using False by (intro wanted_filter) simp
    have "key K (pnPurpose q) (pnCID q) \<noteq> ?k" if "q \<in> set ?rw" for q using rw [OF that] False by auto
    then have "wanted K ?rw ?k = None" unfolding wanted_None by blast
    then show ?thesis by (cases "wanted K desired ?k") (simp_all add: add wanted_append ms)
  qed
qed

lemma plan_removes:
  assumes K: "cidLib_ok K" and es: "listsPins K h es m" and pl: "plan K desired es = (toAdd, toRemove)"
  shows "(\<exists>q\<in>set toRemove. (h, p, c) = (h, pnPurpose q, the (pnCID q))) \<longleftrightarrow>
    m (h, p, c) \<noteq> None \<and> wanted K desired (key K p (Some c)) = None"
proof -
  have r: "toRemove = map (\<lambda>e. \<lparr>pnPurpose = pePurpose e, pnCID = peCID e, pnRecursive = peRecursive e\<rparr>)
      (filter (\<lambda>e. wanted K desired (key K (pePurpose e) (peCID e)) = None) es)"
    using pl by (auto simp: plan_def Let_def)
  have "e \<in> set es \<Longrightarrow> p = pePurpose e \<and> c = the (peCID e) \<longleftrightarrow> key K (pePurpose e) (peCID e) = key K p (Some c)" for e
    using listsPins_mem [OF es, of e] key_eq [OF K, of "peCID e"] by auto
  then have "(\<exists>q\<in>set toRemove. (h, p, c) = (h, pnPurpose q, the (pnCID q))) \<longleftrightarrow>
      key K p (Some c) \<in> (\<lambda>e. key K (pePurpose e) (peCID e)) ` set es \<and> wanted K desired (key K p (Some c)) = None"
    by (auto simp: r intro: rev_image_eqI)
  then show ?thesis by (simp only: held_iff [OF K es])
qed

text \<open>The table after the additions, and after some of the removals.\<close>

lemma table_adds:
  assumes K: "cidLib_ok K" and es: "listsPins K h es m" and pl: "plan K desired es = (toAdd, toRemove)" and d: "\<forall>q\<in>set toAdd. pnCID q \<noteq> None"
  shows "map_option fst (putPins h toAdd m (h, p, c)) =
    (case wanted K desired (key K p (Some c)) of None \<Rightarrow> map_option fst (m (h, p, c)) | Some q \<Rightarrow> Some (pnRecursive q))"
  using plan_wanted [OF K es pl, of p c] unfolding putPins_wanted [OF K d] by (auto split: option.splits)

lemma table_removes:
  assumes K: "cidLib_ok K" and es: "listsPins K h es m" and pl: "plan K desired es = (toAdd, toRemove)" and d: "\<forall>q\<in>set toAdd. pnCID q \<noteq> None"
    and rem: "toRemove = qs @ rest"
  defines "m' \<equiv> clearPins h qs (putPins h toAdd m)"
  shows "crashSafe K h desired m m'" "rest = [] \<Longrightarrow> exactPins K h desired m'"
proof -
  let ?u = "putPins h toAdd m"
  note cov = table_adds [OF K es pl d] and rm = plan_removes [OF K es pl]
  have gone: "m' (h, p, c) = ?u (h, p, c) \<or> m' (h, p, c) = None \<and> wanted K desired (key K p (Some c)) = None" for p c
    using rm [of p c] by (auto simp: rem m'_def clearPins_apply)
  have "map_option fst (m' (h, p, c)) = Some (pnRecursive q)" if w: "wanted K desired (key K p (Some c)) = Some q" for p c q
  proof -
    have "m' (h, p, c) = ?u (h, p, c)" using gone [of p c] w by auto
    with cov [of p c] w show ?thesis by simp
  qed
  then have safe: "coversPins K h desired m'" by (simp add: coversPins_def)
  have keep: "m (h, p, c) \<noteq> None \<Longrightarrow> ?u (h, p, c) \<noteq> None" for p c
    unfolding putPins_wanted [OF K d] by (auto split: option.splits)
  have "wanted K desired (key K p (Some c)) = None" if "m (h, p, c) \<noteq> None" "m' (h, p, c) = None" for p c
    using gone [of p c] keep [of p c] that by auto
  with safe show "crashSafe K h desired m m'" by (simp add: crashSafe_def)
  show "exactPins K h desired m'" if "rest = []"
    unfolding exactPins_def
  proof (intro allI)
    fix p c
    have "m' (h, p, c) = (if m (h, p, c) \<noteq> None \<and> wanted K desired (key K p (Some c)) = None then None else ?u (h, p, c))"
      using rm [of p c] rem that by (simp add: m'_def clearPins_apply)
    then show "map_option fst (m' (h, p, c)) = map_option pnRecursive (wanted K desired (key K p (Some c)))"
      using cov [of p c] by (cases "wanted K desired (key K p (Some c))"; cases "m (h, p, c)") auto
  qed
qed

lemma plan_settled:
  assumes K: "cidLib_ok K" and es: "listsPins K h es m" and ex: "exactPins K h desired m" and d: "\<forall>p\<in>set desired. pnCID p \<noteq> None"
  shows "plan K desired es = ([], [])"
proof -
  have e: "map_option pnRecursive (wanted K desired (key K (pePurpose e) (peCID e))) = Some (peRecursive e)" if mem: "e \<in> set es" for e
  proof -
    obtain c where c: "peCID e = Some c" "m (h, pePurpose e, c) = Some (peRecursive e, peExpiry e)" using listsPins_mem [OF es mem] by auto
    have "map_option fst (m (h, pePurpose e, c)) = map_option pnRecursive (wanted K desired (key K (pePurpose e) (Some c)))"
      using ex by (simp only: exactPins_def)
    with c show ?thesis by simp
  qed
  have q: "key K (pnPurpose q) (pnCID q) \<in> (\<lambda>e. key K (pePurpose e) (peCID e)) ` set es" if mem: "q \<in> set desired" for q
  proof -
    obtain c where c: "pnCID q = Some c" using d mem by auto
    then have "wanted K desired (key K (pnPurpose q) (Some c)) \<noteq> None" using mem unfolding wanted_None by force
    moreover have "map_option fst (m (h, pnPurpose q, c)) = map_option pnRecursive (wanted K desired (key K (pnPurpose q) (Some c)))"
      using ex by (simp only: exactPins_def)
    ultimately have "m (h, pnPurpose q, c) \<noteq> None" by auto
    then show ?thesis using held_iff [OF K es] c by simp
  qed
  have "(case wanted K desired (key K (pePurpose e) (peCID e)) of None \<Rightarrow> [] | Some p \<Rightarrow> if pnRecursive p \<noteq> peRecursive e then [p] else []) = []"
      "wanted K desired (key K (pePurpose e) (peCID e)) \<noteq> None" if "e \<in> set es" for e
    using e [OF that] by (auto split: option.splits)
  then show ?thesis using q by (simp add: plan_def Let_def filter_empty_conv)
qed

section \<open>The ledger as the reconciler sees it\<close>

text \<open>The \<open>pinLedger\<close> interface: adding, removing and listing pins, over a table of pins.\<close>

locale pin_ledger =
  fixes K :: "'d cidLib"
    and add :: "string \<Rightarrow> string \<Rightarrow> 'd link \<Rightarrow> bool \<Rightarrow> ('s, 'e, unit) op"
    and remove :: "string \<Rightarrow> string \<Rightarrow> 'd link \<Rightarrow> ('s, 'e, unit) op"
    and listAll :: "string \<Rightarrow> ('s, 'e, 'd PinEntry list) op"
    and inv :: "'s \<Rightarrow> bool"
    and pins :: "'s \<Rightarrow> 'd pinTable"
  assumes inv_K: "inv s \<Longrightarrow> cidLib_ok K"
    and add_law: "inv s \<Longrightarrow> case add h p c r s of (Inl e, t) \<Rightarrow> inv t \<and> pins t = pins s
      | (Inr _, t) \<Rightarrow> inv t \<and> c \<noteq> None \<and> pins t = (pins s)((h, p, the c) \<mapsto> (r, zeroTime))"
    and remove_law: "inv s \<Longrightarrow> case remove h p c s of (Inl e, t) \<Rightarrow> inv t \<and> pins t = pins s
      | (Inr _, t) \<Rightarrow> inv t \<and> pins t = (pins s)((h, p, the c) := None)"
    and list_law: "inv s \<Longrightarrow> case listAll h s of (Inl e, t) \<Rightarrow> inv t \<and> pins t = pins s
      | (Inr es, t) \<Rightarrow> inv t \<and> pins t = pins s \<and> listsPins K h es (pins s)"
begin

lemma addPins_run:
  "inv s \<Longrightarrow> addPins (add h) ps n s = (r, t) \<Longrightarrow>
    \<exists>qs rest. ps = qs @ rest \<and> (\<forall>q\<in>set qs. pnCID q \<noteq> None) \<and> inv t \<and> pins t = putPins h qs (pins s) \<and>
      (\<forall>k. r = Inr k \<longrightarrow> rest = [] \<and> k = n + length ps)"
proof (induction ps arbitrary: s n)
  case Nil
  then show ?case by (auto simp: putPins_def)
next
  case (Cons p ps)
  obtain r1 u where run: "add h (pnPurpose p) (pnCID p) (pnRecursive p) s = (r1, u)" by fastforce
  note law = add_law [OF Cons.prems(1), where h = h and p = "pnPurpose p" and c = "pnCID p" and r = "pnRecursive p", unfolded run]
  show ?case
  proof (cases r1)
    case (Inl e)
    with run law Cons.prems(2) have "inv t \<and> pins t = pins s \<and> r = Inl e" by auto
    then show ?thesis by (intro exI [of _ "[]"] exI [of _ "p # ps"]) (auto simp: putPins_def)
  next
    case (Inr x)
    then have u: "inv u" "pnCID p \<noteq> None" "pins u = (pins s)((h, pnPurpose p, the (pnCID p)) \<mapsto> (pnRecursive p, zeroTime))"
      using law by simp_all
    have "addPins (add h) ps (n + 1) u = (r, t)" using Cons.prems(2) run Inr by simp
    from Cons.IH [OF u(1) this] obtain qs rest where q: "ps = qs @ rest" "\<forall>q\<in>set qs. pnCID q \<noteq> None" "inv t"
      "pins t = putPins h qs (pins u)" "\<forall>k. r = Inr k \<longrightarrow> rest = [] \<and> k = n + 1 + length ps" by blast
    then show ?thesis using u by (intro exI [of _ "p # qs"] exI [of _ rest]) (auto simp: putPins_def)
  qed
qed

lemma removePins_run:
  "inv s \<Longrightarrow> removePins (remove h) ps n s = (r, t) \<Longrightarrow>
    \<exists>qs rest. ps = qs @ rest \<and> inv t \<and> pins t = clearPins h qs (pins s) \<and> (\<forall>k. r = Inr k \<longrightarrow> rest = [] \<and> k = n + length ps)"
proof (induction ps arbitrary: s n)
  case Nil
  then show ?case by (auto simp: clearPins_def)
next
  case (Cons p ps)
  obtain r1 u where run: "remove h (pnPurpose p) (pnCID p) s = (r1, u)" by fastforce
  note law = remove_law [OF Cons.prems(1), where h = h and p = "pnPurpose p" and c = "pnCID p", unfolded run]
  show ?case
  proof (cases r1)
    case (Inl e)
    with run law Cons.prems(2) have "inv t \<and> pins t = pins s \<and> r = Inl e" by auto
    then show ?thesis by (intro exI [of _ "[]"] exI [of _ "p # ps"]) (auto simp: clearPins_def)
  next
    case (Inr x)
    then have u: "inv u" "pins u = (pins s)((h, pnPurpose p, the (pnCID p)) := None)" using law by simp_all
    have "removePins (remove h) ps (n + 1) u = (r, t)" using Cons.prems(2) run Inr by simp
    from Cons.IH [OF u(1) this] obtain qs rest where q: "ps = qs @ rest" "inv t"
      "pins t = clearPins h qs (pins u)" "\<forall>k. r = Inr k \<longrightarrow> rest = [] \<and> k = n + 1 + length ps" by blast
    then show ?thesis using u by (intro exI [of _ "p # qs"] exI [of _ rest]) (auto simp: clearPins_def)
  qed
qed

lemma sync_run:
  assumes inv: "inv s" and run: "syncPins K add remove listAll h desired s = (r, t)"
  shows "inv t \<and> (\<forall>k. fst k \<noteq> h \<longrightarrow> pins t k = pins s k) \<and>
    (case r of Inl _ \<Rightarrow> crashSafe K h desired (pins s) (pins t) | Inr _ \<Rightarrow> exactPins K h desired (pins t))"
proof -
  note K = inv_K [OF inv]
  obtain r0 s0 where list: "listAll h s = (r0, s0)" by fastforce
  note ll = list_law [OF inv, where h = h, unfolded list]
  show ?thesis
  proof (cases r0)
    case (Inl e)
    then show ?thesis using run list ll by (auto simp: syncPins_def crashSafe_def)
  next
    case (Inr es)
    then have es: "listsPins K h es (pins s)" and s0: "inv s0" "pins s0 = pins s" using ll by simp_all
    obtain toAdd toRemove where pl: "plan K desired es = (toAdd, toRemove)" by fastforce
    obtain r1 u where adds: "addPins (add h) toAdd 0 s0 = (r1, u)" by fastforce
    obtain qs rest where q: "toAdd = qs @ rest" "\<forall>q\<in>set qs. pnCID q \<noteq> None" "inv u" "pins u = putPins h qs (pins s)"
        "\<And>k. r1 = Inr k \<Longrightarrow> rest = []"
      using addPins_run [OF s0(1) adds] s0(2) by auto
    have other: "fst k \<noteq> h \<Longrightarrow> pins u k = pins s k" for k unfolding q(4) by (rule putPins_other)
    show ?thesis
    proof (cases r1)
      case (Inl e)
      then have "(r, t) = (Inl e, u)" using run list adds pl Inr by (simp add: syncPins_def)
      moreover have "\<not> (pins s (h, p, c) \<noteq> None \<and> pins u (h, p, c) = None)" for p c
        unfolding q(4) putPins_wanted [OF K q(2)] by (auto split: option.splits)
      then have "crashSafe K h desired (pins s) (pins u)" unfolding crashSafe_def by blast
      ultimately show ?thesis using q(3) other by simp
    next
      case (Inr n)
      then have qs: "qs = toAdd" using q(1,5) by simp
      obtain r2 v where rems: "removePins (remove h) toRemove 0 u = (r2, v)" by fastforce
      have rt: "t = v \<and> (case r of Inl _ \<Rightarrow> \<exists>e. r2 = Inl e | Inr _ \<Rightarrow> \<exists>k. r2 = Inr k)"
        using run list adds rems pl Inr \<open>r0 = Inr es\<close> by (cases r2) (auto simp: syncPins_def)
      obtain qs' rest' where q': "toRemove = qs' @ rest'" "inv v" "pins v = clearPins h qs' (pins u)" "\<And>k. r2 = Inr k \<Longrightarrow> rest' = []"
        using removePins_run [OF q(3) rems] by auto
      note tab = table_removes [OF K es pl q(2) [unfolded qs] q'(1), folded q(4) [unfolded qs], folded q'(3)]
      have "fst k \<noteq> h \<Longrightarrow> pins v k = pins s k" for k using other by (auto simp: q'(3) clearPins_apply)
      with tab q'(2,4) rt show ?thesis by (auto split: sum.splits)
    qed
  qed
qed

end

lemma sameRows_keeps: "sameRows s t \<Longrightarrow> kvWf K s \<Longrightarrow> kvWf K t \<and> ledgerOf K t = ledgerOf K s"
  by (simp only: sameRows_abs simp_thms)

lemma kvDoes_case:
  assumes "kvDoes K m f g" "kvWf K s"
  shows "case m s of (Inl e, t) \<Rightarrow> kvWf K t \<and> ledgerOf K t = ledgerOf K s | (Inr _, t) \<Rightarrow> kvWf K t \<and> ledgerOf K t = f (ledgerOf K s)"
  using assms(1) [unfolded kvDoes_def, rule_format, OF assms(2)] sameRows_keeps [OF _ assms(2)]
  by (cases "m s"; cases "fst (m s)") (simp_all del: sameRows_refl)

definition kvInv :: "'d cidLib \<Rightarrow> ('b, 'd) reconciler \<Rightarrow> bool" where
  "kvInv K s \<longleftrightarrow> cidLib_ok K \<and> kvWf K (rcKv s)"

interpretation kvl: pin_ledger K "\<lambda>h p c r. onKv (Add K h p c r)" "\<lambda>h p c. onKv (Remove K h p c)" "\<lambda>h. onKv (ListAll K h)"
    "kvInv K" "\<lambda>s. ledgerOf K (rcKv s)" for K :: "'d cidLib"
proof
  fix s :: "('b, 'd) reconciler" and h p c r
  assume "kvInv K s"
  then have K: "cidLib_ok K" and wf: "kvWf K (rcKv s)" by (simp_all add: kvInv_def)
  show "cidLib_ok K" by (rule K)
  have "c \<noteq> None" if "Add K h p c r u = (Inr x, t)" for u x t
    using that by (cases c) (auto simp: Add_def ledgerAdd_def bind_Inr_iff)
  then show "case onKv (Add K h p c r) s of (Inl e, t) \<Rightarrow> kvInv K t \<and> ledgerOf K (rcKv t) = ledgerOf K (rcKv s)
      | (Inr _, t) \<Rightarrow> kvInv K t \<and> c \<noteq> None \<and> ledgerOf K (rcKv t) = (ledgerOf K (rcKv s))((h, p, the c) \<mapsto> (r, zeroTime))"
    using kvDoes_case [OF ledgerAdd_does [OF K] wf, of h p c r zeroTime]
    by (cases "Add K h p c r (rcKv s)"; cases "fst (Add K h p c r (rcKv s))")
      (auto simp: onKv_def Add_def K kvInv_def storedTime_def simp del: fun_upd_apply)
  show "case onKv (Remove K h p c) s of (Inl e, t) \<Rightarrow> kvInv K t \<and> ledgerOf K (rcKv t) = ledgerOf K (rcKv s)
      | (Inr _, t) \<Rightarrow> kvInv K t \<and> ledgerOf K (rcKv t) = (ledgerOf K (rcKv s))((h, p, the c) := None)"
    using kvDoes_case [OF Remove_does [OF K] wf, of h p c]
    by (cases "Remove K h p c (rcKv s)"; cases "fst (Remove K h p c (rcKv s))") (auto simp: onKv_def K kvInv_def simp del: fun_upd_apply)
  show "case onKv (ListAll K h) s of (Inl e, t) \<Rightarrow> kvInv K t \<and> ledgerOf K (rcKv t) = ledgerOf K (rcKv s)
      | (Inr es, t) \<Rightarrow> kvInv K t \<and> ledgerOf K (rcKv t) = ledgerOf K (rcKv s) \<and> listsPins K h es (ledgerOf K (rcKv s))"
    using ListAll_spec [OF K wf, of h] sameRows_keeps [OF _ wf]
    by (cases "ListAll K h (rcKv s)"; cases "fst (ListAll K h (rcKv s))") (simp_all add: onKv_def K kvInv_def del: sameRows_refl)
qed

section \<open>A whole pass\<close>

lemma desiredPins_kv: "desiredPins L g g' tip name e s = (r, t) \<Longrightarrow> rcKv t = rcKv s"
  by (auto simp: desiredPins_def enumerateHead_def bind_def setEntry_def split: if_splits sum.splits prod.splits option.splits)

lemma reconcileHead_run:
  assumes inv: "kvInv K s" and e: "map_of (rcHeads s) name = Some e"
    and run: "reconcileHead L K g g' tip id name s = (r, t)"
  shows "kvInv K t \<and> (\<forall>k. fst k \<noteq> name \<longrightarrow> ledgerOf K (rcKv t) k = ledgerOf K (rcKv s) k) \<and>
    (case r of
       Inl _ \<Rightarrow> ledgerOf K (rcKv t) = ledgerOf K (rcKv s) \<or>
         (\<exists>desired. fst (desiredPins L g g' tip name e s) = Inr desired \<and> crashSafe K name desired (ledgerOf K (rcKv s)) (ledgerOf K (rcKv t)))
     | Inr _ \<Rightarrow> \<exists>desired. fst (desiredPins L g g' tip name e s) = Inr desired \<and> exactPins K name desired (ledgerOf K (rcKv t)))"
proof -
  let ?sync = "syncPins K (\<lambda>h p c r. onKv (Add K h p c r)) (\<lambda>h p c. onKv (Remove K h p c)) (\<lambda>h. onKv (ListAll K h)) name"
  obtain r1 u where d: "desiredPins L g g' tip name e s = (r1, u)" by fastforce
  have kv: "rcKv u = rcKv s" by (rule desiredPins_kv [OF d])
  show ?thesis
  proof (cases r1)
    case (Inl x)
    then have "r = Inl x" "t = u" using run e d by (simp_all add: reconcileHead_def)
    then show ?thesis using inv kv by (simp add: kvInv_def)
  next
    case (Inr desired)
    obtain r2 v where sy: "?sync desired u = (r2, v)" by fastforce
    have "kvInv K u" using inv kv by (simp add: kvInv_def)
    note sr = kvl.sync_run [OF this sy, unfolded kv]
    have "rcKv t = rcKv v \<and> (case r of Inl _ \<Rightarrow> \<exists>x. r2 = Inl x | Inr _ \<Rightarrow> \<exists>x. r2 = Inr x)"
      using run e d Inr sy by (cases r2) (auto simp: reconcileHead_def dropTombstone_def sortNames_def split: option.splits)
    then show ?thesis using sr d Inr by (auto simp: kvInv_def split: sum.splits)
  qed
qed

section \<open>What a policy retains\<close>

lemma desired_purpose:
  assumes "Desired pol e = Inr pins" "q \<in> set pins" "poMode pol = ModeWindow"
  shows "pnPurpose q = PurposeWindow \<or> pnPurpose q = PurposeOpen \<Longrightarrow> pnRecursive q" "pnPurpose q \<noteq> PurposeManifest"
  using assms by (auto simp: Desired_def bindE_Inr_iff sealedPin_def split: if_splits)

lemma slot_le_windowEnd:
  assumes "k \<le> 63" shows "s \<le> windowEnd (ord s k) k"
proof -
  have "unat s < 2 ^ unat k + unat s div 2 ^ unat k * 2 ^ unat k" by (rule dividend_less_div_times) simp
  then have "unat s \<le> Suc (unat (ord s k)) * 2 ^ unat k - 1" unfolding unat_ord mult_Suc by linarith
  then show ?thesis unfolding word_le_nat_alt unat_windowEnd [OF windowOk_ord [OF assms]] .
qed

text \<open>The segment that holds a row of the archive is named by a sealed entry, or it is the open one.\<close>

lemma row_segment:
  assumes L: "lib_ok L" and ok: "headOk L h (cur h) p rows (Some x)" and e: "enumerated L (enBlocks h) (cur h) e" and r: "r \<in> set rows"
  shows "(\<exists>y\<in>set (emSealed e). Some (slCID y) = segCid L (segOf p rows (ord (rSlot r) (pSegBits p))) \<and> rSlot r \<le> slLastSlot y) \<or>
    emOpen e = segCid L (segOf p rows (ord (rSlot r) (pSegBits p)))"
proof -
  let ?k = "pSegBits p" and ?w = "ord (rSlot r) (pSegBits p)"
  have b: "bodyOk L h (cur h) p rows (Some x)" using ok by (simp add: headOk_def)
  then have k: "?k \<le> 63" and rx: "pOriginSlot p \<le> rSlot r" "rSlot r \<le> x" and x: "x < maxUint64" and p: "params (cur h) = p"
    using r by (auto simp: bodyOk_def paramsOk_def rowsIn_def)
  have "x \<le> x + 1" using unat_less_Suc_u64 [OF x] by (simp add: word_le_nat_alt)
  then have w: "baseOf p \<le> ?w" "?w \<le> ord (x + 1) ?k" using rx by (auto intro: ord_mono order_trans)
  show ?thesis
  proof (cases "?w = ord (x + 1) ?k")
    case True
    then show ?thesis using e b by (simp add: enumerated_def Let_def bodyOk_def)
  next
    case False
    with w have lt: "unat ?w < unat (ord (x + 1) ?k)" by (simp add: word_le_nat_alt word_unat_eq_iff)
    have rows: "winRows ?k ?w rows \<noteq> []" using r by (auto simp: winRows_def filter_empty_conv)
    have "?w = baseOf p + of_nat (unat ?w - unat (baseOf p))" using w(1) by (simp add: word_le_nat_alt of_nat_diff)
    then have "?w \<in> set (sealedWindows p rows x)"
      unfolding sealedWindows_def using lt rows w(1) by (auto simp: image_iff word_le_nat_alt intro!: bexI [of _ "unat ?w - unat (baseOf p)"])
    then have "(?w, segCid L (segOf p rows ?w)) \<in> set (map (\<lambda>y. (slOrd y, Some (slCID y))) (emSealed e))"
      unfolding enumerated_windows [OF L ok e] by auto
    then obtain y where y: "y \<in> set (emSealed e)" "slOrd y = ?w" "Some (slCID y) = segCid L (segOf p rows ?w)" by auto
    have "slLastSlot y = windowEnd (slOrd y) ?k" using e y(1) p by (auto simp: enumerated_def Let_def)
    then have "rSlot r \<le> slLastSlot y" using y(2) slot_le_windowEnd [OF k] by simp
    with y show ?thesis by blast
  qed
qed

lemma window_retains:
  assumes L: "lib_ok L" and ok: "headOk L h (cur h) p rows (Some x)" and e: "enumerated L (enBlocks h) (cur h) e"
    and d: "Desired pol e = Inr pins" and mode: "poMode pol = ModeWindow" and r: "r \<in> set rows" "windowLow pol x \<le> rSlot r"
  shows "\<exists>q\<in>set pins. pnCID q = segCid L (segOf p rows (ord (rSlot r) (pSegBits p))) \<and> pnCID q \<noteq> None \<and>
    (pnPurpose q = PurposeWindow \<or> pnPurpose q = PurposeOpen)"
proof -
  have x: "emSyncedTo e = x" and op: "emOpen e \<noteq> None" using e ok by (auto simp: enumerated_def Let_def headOk_def bodyOk_def)
  from row_segment [OF L ok e r(1)] show ?thesis
  proof
    assume "\<exists>y\<in>set (emSealed e). Some (slCID y) = segCid L (segOf p rows (ord (rSlot r) (pSegBits p))) \<and> rSlot r \<le> slLastSlot y"
    then obtain y where y: "y \<in> set (emSealed e)" "Some (slCID y) = segCid L (segOf p rows (ord (rSlot r) (pSegBits p)))" "rSlot r \<le> slLastSlot y" by blast
    have "sealedPin pol (windowLow pol x) y \<in> set pins" using d mode y(1) by (auto simp: Desired_def bindE_Inr_iff x split: if_splits)
    moreover have "pnPurpose (sealedPin pol (windowLow pol x) y) = PurposeWindow" using mode r(2) y(3) by (auto simp: sealedPin_def)
    ultimately show ?thesis using y(2) [symmetric] by (intro bexI) auto
  next
    assume o: "emOpen e = segCid L (segOf p rows (ord (rSlot r) (pSegBits p)))"
    have "\<lparr>pnPurpose = PurposeOpen, pnCID = emOpen e, pnRecursive = True\<rparr> \<in> set pins"
      using d mode op by (auto simp: Desired_def bindE_Inr_iff split: if_splits)
    then show ?thesis using o op by (intro bexI) auto
  qed
qed

text \<open>The pins asked for, the manifest tip included, contain the policy's.\<close>

lemma desiredPins_Inr:
  assumes run: "fst (desiredPins L g g' tip name e s) = Inr desired" and h: "reHead e = Some h" "\<not> reWithdrawal e"
    and w: "fanoutOk (pFanoutBits (params (cur h)))" "dirDepth (cur h) = 0 \<Longrightarrow> dir (cur h) = None" and pr: "proofsOk L (enStructure h)"
  shows "\<exists>en pins. enumerated L (enBlocks h) (cur h) en \<and> Desired (rePolicy e) en = Inr pins \<and>
    (desired = pins \<or> (\<exists>tp. desired = pins @ [\<lparr>pnPurpose = PurposeManifest, pnCID = tp, pnRecursive = True\<rparr>]))"
proof -
  have en: "enumerated L (enBlocks h) (cur h) en" if "Enumerate L g g' h = (Inr en, h')" for en h'
    using Enumerate_wp [OF w(1) pr w(2), of "\<lambda>e t. enumerated L (enBlocks h) (cur h) e" g g'] that by (simp add: wp_def)
  show ?thesis using run h(1,2) en
    by (auto simp: desiredPins_def enumerateHead_def bind_def split: sum.splits prod.splits option.splits if_splits)
qed

lemma wanted_window:
  assumes d: "Desired pol e = Inr pins" "poMode pol = ModeWindow" and q: "q \<in> set pins" "pnCID q = Some c"
      "pnPurpose q = PurposeWindow \<or> pnPurpose q = PurposeOpen"
    and des: "desired = pins \<or> (\<exists>tp. desired = pins @ [\<lparr>pnPurpose = PurposeManifest, pnCID = tp, pnRecursive = True\<rparr>])"
  shows "map_option pnRecursive (wanted K desired (key K (pnPurpose q) (Some c))) = Some True"
proof -
  have "wanted K desired (key K (pnPurpose q) (Some c)) \<noteq> None" unfolding wanted_None using q des by force
  then obtain q' where w: "wanted K desired (key K (pnPurpose q) (Some c)) = Some q'" by auto
  from wanted_Some [OF w] have q': "q' \<in> set desired" "pnPurpose q' = pnPurpose q" by (auto simp: key_def)
  then have "q' \<in> set pins" using des q(3) by auto
  then have "pnRecursive q'" using desired_purpose(1) [OF d(1) _ d(2)] q(3) q'(2) by simp
  with w show ?thesis by simp
qed

text \<open>The rows of a head, read off the list of pins asked for.\<close>

definition asked :: "'d Pin list \<Rightarrow> string \<Rightarrow> 'd cid \<Rightarrow> bool" where
  "asked desired p c \<longleftrightarrow> (\<exists>q\<in>set desired. pnPurpose q = p \<and> pnCID q = Some c)"

lemma key_asked: "cidLib_ok K \<Longrightarrow> key K (pnPurpose q) (pnCID q) = key K p (Some c) \<longleftrightarrow> pnPurpose q = p \<and> pnCID q = Some c"
  by (cases "pnCID q") (auto simp: key_def cidBytes_inject)

lemma wanted_asked:
  assumes "cidLib_ok K" shows "wanted K desired (key K p (Some c)) \<noteq> None \<longleftrightarrow> asked desired p c"
  unfolding wanted_None asked_def using key_asked [OF assms] by blast

lemma exactPins_rows:
  assumes K: "cidLib_ok K" and ex: "exactPins K h desired m"
  shows "m (h, p, c) \<noteq> None \<longleftrightarrow> asked desired p c"
    "m (h, p, c) = Some (r, x) \<Longrightarrow> \<exists>q\<in>set desired. pnPurpose q = p \<and> pnCID q = Some c \<and> pnRecursive q = r"
proof -
  have e: "map_option fst (m (h, p, c)) = map_option pnRecursive (wanted K desired (key K p (Some c)))" using ex by (simp only: exactPins_def)
  have "m (h, p, c) \<noteq> None \<longleftrightarrow> wanted K desired (key K p (Some c)) \<noteq> None" using e by (metis option.map_disc_iff)
  then show "m (h, p, c) \<noteq> None \<longleftrightarrow> asked desired p c" by (simp only: wanted_asked [OF K])
  assume "m (h, p, c) = Some (r, x)"
  with e obtain q where w: "wanted K desired (key K p (Some c)) = Some q" "pnRecursive q = r"
    by (cases "wanted K desired (key K p (Some c))") auto
  from wanted_Some [OF w(1)] w(2) key_asked [OF K] show "\<exists>q\<in>set desired. pnPurpose q = p \<and> pnCID q = Some c \<and> pnRecursive q = r" by blast
qed

lemma crashSafe_rows:
  assumes K: "cidLib_ok K" and cs: "crashSafe K h desired m m'" and gone: "m (h, p, c) \<noteq> None" "m' (h, p, c) = None"
  shows "\<not> asked desired p c" "asked desired p' c' \<Longrightarrow> m' (h, p', c') \<noteq> None"
proof -
  have w: "wanted K desired (key K p (Some c)) = None" "coversPins K h desired m'" using cs gone unfolding crashSafe_def by blast+
  then show "\<not> asked desired p c" using wanted_asked [OF K] by blast
  assume "asked desired p' c'"
  then obtain q where "wanted K desired (key K p' (Some c')) = Some q" using wanted_asked [OF K] by blast
  with w(2) have "map_option fst (m' (h, p', c')) = Some (pnRecursive q)" unfolding coversPins_def by blast
  then show "m' (h, p', c') \<noteq> None" by auto
qed

end
