(* ===== verification/GC.thy ===== *)
theory GC
  imports Epoch Reconcile
begin

text \<open>
  The collector, \<open>pinning/gc.go\<close>, over the protection epochs of \<open>store/epoch.go\<close>, and the fetching block store of
  \<open>p2p/bitswap.go\<close> through which a followed head's missing blocks are healed. The collector's goroutine is the model's
  thread; what every other goroutine does to the block store between two of its accesses is the next entry of
  \<open>gcSchedule\<close>, so a statement about every schedule is a statement about every interleaving.
\<close>

section \<open>State\<close>

type_synonym ('b, 'd) fetcher = "'d cid \<Rightarrow> ('b, 'd) epochs \<Rightarrow> ('d err + 'b) \<times> ('b, 'd) epochs"

text \<open>An event of the key enumeration as the sweep's \<open>select\<close> takes it: a key, an error, or the cancelled context.\<close>

datatype 'd event = EKey "'d cid" | EErr "'d err" | EDone

record ('b, 'd) gc =
  gcStore :: "('b, 'd) epochs"
  gcRec :: "('b, 'd) reconciler"
  gcSchedule :: "(('b, 'd) action list \<times> bool) list"
  gcCancelled :: bool
  refetched :: nat
  validatedRawReads :: nat
  validatedNodeReads :: nat
  validatedRawBytes :: nat
  validatedNodeBytes :: nat

record ('b, 'd) gcConfig =
  separateScrub :: bool
  fetchFor :: "(string \<Rightarrow> ('b, 'd) fetcher option) option"
  stagingClock :: "gotime option"
  tipOf :: "(string \<Rightarrow> 'd err + 'd link \<times> bool) option"
  genBefore :: "u64 option"
  genAfter :: "u64 option"

record GCStats =
  gsPins :: nat
  gsMarked :: nat
  gsScanned :: nat
  gsSwept :: nat
  gsProtected :: int
  gsProtectedSkips :: nat
  gsStaged :: nat
  gsExpired :: nat
  gsRefetched :: nat
  gsValidatedReads :: nat
  gsValidatedRawReads :: nat
  gsValidatedNodeReads :: nat
  gsValidatedBytes :: nat
  gsValidatedRawBytes :: nat
  gsValidatedNodeBytes :: nat
  gsStagingObserved :: bool

definition zeroGCStats :: GCStats where
  "zeroGCStats = \<lparr>gsPins = 0, gsMarked = 0, gsScanned = 0, gsSwept = 0, gsProtected = 0, gsProtectedSkips = 0, gsStaged = 0,
     gsExpired = 0, gsRefetched = 0, gsValidatedReads = 0, gsValidatedRawReads = 0, gsValidatedNodeReads = 0,
     gsValidatedBytes = 0, gsValidatedRawBytes = 0, gsValidatedNodeBytes = 0, gsStagingObserved = False\<rparr>"

type_synonym ('b, 'd, 'a) gcop = "(('b, 'd) gc, 'd err, 'a) op"

record ('b, 'd) headMark =
  hmHead :: string
  hmFetch :: "('b, 'd) fetcher option"
  hmPins :: "'d PinEntry list"

definition NewGC :: "bool \<Rightarrow> bool \<Rightarrow> bool \<Rightarrow> bool \<Rightarrow> bool \<Rightarrow> 'd err + unit" where
  "NewGC blocksSet epochsSet completeEnumeration scrub reconcilerSet =
     bindE (checkE (blocksSet \<or> epochsSet) (PinningErr ''no blocks'')) (\<lambda>_.
     bindE (checkE (\<not> (blocksSet \<and> epochsSet)) (PinningErr ''blocks and epochs'')) (\<lambda>_.
     bindE (checkE (\<not> (scrub \<and> \<not> epochsSet)) (PinningErr ''scrub without epochs'')) (\<lambda>_.
     bindE (checkE (\<not> (epochsSet \<and> \<not> completeEnumeration)) (PinningErr ''incomplete enumeration'')) (\<lambda>_.
     checkE reconcilerSet (PinningErr ''no reconciler'')))))"

section \<open>The store under the collector\<close>

definition tick :: "('b, 'd) lib \<Rightarrow> 'd cidLib \<Rightarrow> ('b, 'd, unit) gcop" where
  "tick L K s = (case gcSchedule s of
     [] \<Rightarrow> (Inr (), s)
   | (acts, cancelled) # rest \<Rightarrow>
       (Inr (), s\<lparr>gcStore := foldl (\<lambda>t a. runApp L K a t) (gcStore s) acts, gcSchedule := rest,
                  gcCancelled := gcCancelled s \<or> cancelled\<rparr>))"

definition gcCtx :: "('b, 'd, unit) gcop" where
  "gcCtx = bind (gets gcCancelled) (\<lambda>c. check (\<not> c) Cancelled)"

text \<open>The collector's own view, \<open>CollectorBlocks\<close>, is the base store: its reads protect nothing.\<close>

definition gcGet :: "('b, 'd) lib \<Rightarrow> 'd cidLib \<Rightarrow> 'd cid \<Rightarrow> ('b, 'd, 'b) gcop" where
  "gcGet L K c = bind (tick L K) (\<lambda>_ s. (validatingGet L (epBase (gcStore s)) c, s))"

definition gcHas :: "('b, 'd) lib \<Rightarrow> 'd cidLib \<Rightarrow> 'd cid \<Rightarrow> ('b, 'd, bool) gcop" where
  "gcHas L K c = bind (tick L K) (\<lambda>_ s. (baseHas (epBase (gcStore s)) c, s))"

definition gcFetch :: "('b, 'd) lib \<Rightarrow> 'd cidLib \<Rightarrow> ('b, 'd) fetcher \<Rightarrow> 'd cid \<Rightarrow> ('b, 'd, 'b) gcop" where
  "gcFetch L K f c = bind (tick L K) (\<lambda>_ s. case f c (gcStore s) of (r, st) \<Rightarrow> (r, s\<lparr>gcStore := st\<rparr>))"

text \<open>The follower's fetching block store over the application's view; \<open>net\<close> is the exchange.\<close>

definition fetchBlock :: "'d cidLib \<Rightarrow> ('d cid \<Rightarrow> 'd err + 'b) \<Rightarrow> ('b, 'd) fetcher" where
  "fetchBlock K net c s = (case net c of
     Inl e \<Rightarrow> (Inl e, s)
   | Inr b \<Rightarrow> (case appPut K c b s of (Inl e, t) \<Rightarrow> (Inl e, t) | (Inr _, t) \<Rightarrow> (Inr b, t)))"

definition isNotFound :: "'d err \<Rightarrow> bool" where
  "isNotFound e = (case e of NotFound _ \<Rightarrow> True | _ \<Rightarrow> False)"

definition fetchingGet :: "('b, 'd) lib \<Rightarrow> 'd cidLib \<Rightarrow> ('d cid \<Rightarrow> 'd err + 'b) \<Rightarrow> ('b, 'd) fetcher" where
  "fetchingGet L K net c s = (case appGet L K c s of
     (Inr b, t) \<Rightarrow> (Inr b, t)
   | (Inl e, t) \<Rightarrow> if \<not> isNotFound e then (Inl e, t) else fetchBlock K net c t)"

section \<open>Marking\<close>

definition markKey :: "'d cid \<Rightarrow> 'd mhash" where
  "markKey c = cidHash c"

definition countRead :: "'d cid \<Rightarrow> nat \<Rightarrow> ('b, 'd) gc \<Rightarrow> ('b, 'd) gc" where
  "countRead c n s = (if cidCodec c = codecRaw
     then s\<lparr>validatedRawReads := validatedRawReads s + 1, validatedRawBytes := validatedRawBytes s + n\<rparr>
     else s\<lparr>validatedNodeReads := validatedNodeReads s + 1, validatedNodeBytes := validatedNodeBytes s + n\<rparr>)"

definition countRefetch :: "('b, 'd) gc \<Rightarrow> ('b, 'd) gc" where
  "countRefetch s = s\<lparr>refetched := refetched s + 1\<rparr>"

definition readForMark :: "('b, 'd) lib \<Rightarrow> 'd cidLib \<Rightarrow> 'd cid \<Rightarrow> ('b, 'd) fetcher option \<Rightarrow> ('b, 'd, 'b) gcop" where
  "readForMark L K c fetch = bind (attempt (gcGet L K c)) (\<lambda>r. case r of
     Inr blk \<Rightarrow> bind (modify (countRead c (blen L blk))) (\<lambda>_. ret blk)
   | Inl e \<Rightarrow> (case fetch of
       None \<Rightarrow> fail e
     | Some f \<Rightarrow> if \<not> isNotFound e then fail e
         else bind (gcFetch L K f c) (\<lambda>healed. bind (modify countRefetch) (\<lambda>_. ret healed))))"

definition retainForMark :: "('b, 'd) lib \<Rightarrow> 'd cidLib \<Rightarrow> bool \<Rightarrow> 'd cid \<Rightarrow> ('b, 'd) fetcher option \<Rightarrow> ('b, 'd, unit) gcop" where
  "retainForMark L K scrub c fetch =
     (if \<not> scrub \<or> cidCodec c \<noteq> codecRaw then bind (readForMark L K c fetch) (\<lambda>_. ret ())
      else bind (gcHas L K c) (\<lambda>present.
        if present then ret ()
        else case fetch of
          None \<Rightarrow> fail (PinningErr ''pinned block absent'')
        | Some f \<Rightarrow> bind (gcFetch L K f c) (\<lambda>_. modify countRefetch)))"

fun appendLinks :: "'d node \<Rightarrow> 'd link list" where
  "appendLinks (NLink c) = [c]"
| "appendLinks (NMap kvs) = concat (map (\<lambda>kv. appendLinks (snd kv)) kvs)"
| "appendLinks (NList ns) = concat (map appendLinks ns)"
| "appendLinks _ = []"

definition links :: "('b, 'd) lib \<Rightarrow> 'd cidLib \<Rightarrow> bool \<Rightarrow> 'd cid \<Rightarrow> ('b, 'd) fetcher option \<Rightarrow> ('b, 'd, 'd link list) gcop" where
  "links L K scrub c fetch =
     (if cidCodec c = codecRaw then bind (retainForMark L K scrub c fetch) (\<lambda>_. ret [])
      else if cidCodec c \<noteq> codecDagCBOR then fail (PinningErr ''codec'')
      else bind (readForMark L K c fetch) (\<lambda>blk. case cborDecode L blk of
        None \<Rightarrow> fail (PinningErr ''decoding block'')
      | Some n \<Rightarrow> ret (appendLinks n)))"

text \<open>The frontier is a stack with its top at the end. \<open>c.Prefix()\<close> of an undefined CID panics.\<close>

primrec markLoop :: "('b, 'd) lib \<Rightarrow> 'd cidLib \<Rightarrow> bool \<Rightarrow> ('b, 'd) fetcher option \<Rightarrow> nat \<Rightarrow> 'd link list \<Rightarrow> 'd mhash set \<Rightarrow> 'd cid set \<Rightarrow>
    ('b, 'd, 'd mhash set \<times> 'd cid set) gcop" where
  "markLoop L K scrub fetch 0 frontier marked expanded = (if frontier = [] then ret (marked, expanded) else fail NonTermination)"
| "markLoop L K scrub fetch (Suc n) frontier marked expanded =
     (if frontier = [] then ret (marked, expanded)
      else bind gcCtx (\<lambda>_. case last frontier of
        None \<Rightarrow> fail (Internal ''undefined CID'')
      | Some c \<Rightarrow>
          let rest = butlast frontier in
          if cidCodec c = codecRaw then
            if markKey c \<in> marked then markLoop L K scrub fetch n rest marked expanded
            else bind (retainForMark L K scrub c fetch) (\<lambda>_. markLoop L K scrub fetch n rest (insert (markKey c) marked) expanded)
          else if c \<in> expanded then markLoop L K scrub fetch n rest marked expanded
          else bind (links L K scrub c fetch) (\<lambda>kids.
            markLoop L K scrub fetch n (rest @ kids) (insert (markKey c) marked) (insert c expanded))))"

primrec markPins :: "('b, 'd) lib \<Rightarrow> 'd cidLib \<Rightarrow> bool \<Rightarrow> ('b, 'd) fetcher option \<Rightarrow> 'd PinEntry list \<Rightarrow> 'd link list \<Rightarrow> 'd mhash set \<Rightarrow>
    ('b, 'd, 'd link list \<times> 'd mhash set) gcop" where
  "markPins L K scrub fetch [] frontier marked = ret (frontier, marked)"
| "markPins L K scrub fetch (p # ps) frontier marked =
     (if peRecursive p then markPins L K scrub fetch ps (frontier @ [peCID p]) marked
      else case peCID p of
        None \<Rightarrow> fail (Internal ''undefined CID'')
      | Some c \<Rightarrow> bind (retainForMark L K scrub c fetch) (\<lambda>_.
          markPins L K scrub fetch ps frontier (insert (markKey c) marked)))"

definition markHead :: "('b, 'd) lib \<Rightarrow> 'd cidLib \<Rightarrow> bool \<Rightarrow> nat \<Rightarrow> ('b, 'd) headMark \<Rightarrow> 'd mhash set \<Rightarrow> 'd cid set \<Rightarrow>
    ('b, 'd, 'd mhash set \<times> 'd cid set) gcop" where
  "markHead L K scrub fuel grp marked expanded =
     bind (markPins L K scrub (hmFetch grp) (hmPins grp) [] marked) (\<lambda>(frontier, marked').
     markLoop L K scrub (hmFetch grp) fuel frontier marked' expanded)"

primrec markGroups :: "('b, 'd) lib \<Rightarrow> 'd cidLib \<Rightarrow> bool \<Rightarrow> nat \<Rightarrow> ('b, 'd) headMark list \<Rightarrow> 'd mhash set \<Rightarrow> 'd cid set \<Rightarrow>
    ('b, 'd, 'd mhash set) gcop" where
  "markGroups L K scrub fuel [] marked expanded = ret marked"
| "markGroups L K scrub fuel (grp # groups) marked expanded =
     bind (markHead L K scrub fuel grp marked expanded) (\<lambda>(m, x). markGroups L K scrub fuel groups m x)"

definition mark :: "('b, 'd) lib \<Rightarrow> 'd cidLib \<Rightarrow> bool \<Rightarrow> nat \<Rightarrow> ('b, 'd) headMark list \<Rightarrow> ('b, 'd, 'd mhash set) gcop" where
  "mark L K scrub fuel groups = markGroups L K scrub fuel groups {} {}"

section \<open>Sweeping\<close>

text \<open>The sweeps return their statistics with the error, so an error is part of the value.\<close>

primrec sweepLoop :: "('b, 'd) lib \<Rightarrow> 'd cidLib \<Rightarrow> 'd mhash set \<Rightarrow> 'd cid list \<Rightarrow> GCStats \<Rightarrow> ('b, 'd, GCStats \<times> 'd err option) gcop" where
  "sweepLoop L K marked [] stats = bind (attempt gcCtx) (\<lambda>r. ret (stats, case r of Inl e \<Rightarrow> Some e | Inr _ \<Rightarrow> None))"
| "sweepLoop L K marked (c # keys) stats =
     bind (attempt gcCtx) (\<lambda>r. case r of
       Inl e \<Rightarrow> ret (stats, Some e)
     | Inr _ \<Rightarrow>
         let stats' = stats\<lparr>gsScanned := gsScanned stats + 1\<rparr> in
         if markKey c \<in> marked then sweepLoop L K marked keys stats'
         else bind (tick L K) (\<lambda>_ s. case baseDelete (epBase (gcStore s)) c of
             (Inl e, bs) \<Rightarrow> (Inr (stats', Some e), s\<lparr>gcStore := (gcStore s)\<lparr>epBase := bs\<rparr>\<rparr>)
           | (Inr _, bs) \<Rightarrow> sweepLoop L K marked keys (stats'\<lparr>gsSwept := gsSwept stats' + 1\<rparr>) (s\<lparr>gcStore := (gcStore s)\<lparr>epBase := bs\<rparr>\<rparr>)))"

definition sweep :: "('b, 'd) lib \<Rightarrow> 'd cidLib \<Rightarrow> 'd mhash set \<Rightarrow> 'd err + 'd cid list \<Rightarrow> ('b, 'd, GCStats \<times> 'd err option) gcop" where
  "sweep L K marked keys = (case keys of Inl e \<Rightarrow> ret (zeroGCStats, Some e) | Inr ks \<Rightarrow> sweepLoop L K marked ks zeroGCStats)"

primrec sweepOnlineLoop :: "('b, 'd) lib \<Rightarrow> 'd cidLib \<Rightarrow> BlockstoreEpoch \<Rightarrow> 'd mhash set \<Rightarrow> 'd event list \<Rightarrow> GCStats \<Rightarrow>
    ('b, 'd, GCStats \<times> 'd err option) gcop" where
  "sweepOnlineLoop L K epoch marked [] stats = bind (attempt gcCtx) (\<lambda>r. ret (stats, case r of Inl e \<Rightarrow> Some e | Inr _ \<Rightarrow> None))"
| "sweepOnlineLoop L K epoch marked (ev # evs) stats = (case ev of
     EDone \<Rightarrow> ret (stats, Some Cancelled)
   | EErr e \<Rightarrow> ret (stats, Some e)
   | EKey c \<Rightarrow>
       let stats' = stats\<lparr>gsScanned := gsScanned stats + 1\<rparr> in
       if markKey c \<in> marked then sweepOnlineLoop L K epoch marked evs stats'
       else bind (tick L K) (\<lambda>_ s. case DeleteCandidate K epoch c (gcStore s) of
           (Inl e, st) \<Rightarrow> (Inr (stats', Some e), s\<lparr>gcStore := st\<rparr>)
         | (Inr (deleted, protected), st) \<Rightarrow>
             sweepOnlineLoop L K epoch marked evs
               (stats'\<lparr>gsSwept := (if deleted then gsSwept stats' + 1 else gsSwept stats'),
                       gsProtectedSkips := (if protected then gsProtectedSkips stats' + 1 else gsProtectedSkips stats')\<rparr>)
               (s\<lparr>gcStore := st\<rparr>)))"

definition sweepOnline :: "('b, 'd) lib \<Rightarrow> 'd cidLib \<Rightarrow> BlockstoreEpoch \<Rightarrow> 'd mhash set \<Rightarrow> 'd err + 'd event list \<Rightarrow>
    ('b, 'd, GCStats \<times> 'd err option) gcop" where
  "sweepOnline L K epoch marked events = (case events of
     Inl e \<Rightarrow> ret (zeroGCStats, Some e)
   | Inr evs \<Rightarrow> sweepOnlineLoop L K epoch marked evs zeroGCStats)"

section \<open>A run\<close>

definition onRec :: "('b, 'd, 'a) rec \<Rightarrow> ('b, 'd, 'a) gcop" where
  "onRec m s = (case m (gcRec s) of (r, rc) \<Rightarrow> (r, s\<lparr>gcRec := rc\<rparr>))"

definition expireStaging :: "'d cidLib \<Rightarrow> gotime option \<Rightarrow> ('b, 'd, nat) gcop" where
  "expireStaging K clock = (case clock of None \<Rightarrow> ret 0 | Some now \<Rightarrow> onRec (onKv (DropExpired K now)))"

primrec pinsLoop :: "'d cidLib \<Rightarrow> (string \<Rightarrow> ('b, 'd) fetcher option) option \<Rightarrow> string list \<Rightarrow> ('b, 'd) headMark list \<Rightarrow> ('b, 'd) headMark list \<Rightarrow> nat \<Rightarrow>
    ('b, 'd, ('b, 'd) headMark list \<times> nat) gcop" where
  "pinsLoop K ff [] written followed tot = ret (written @ followed, tot)"
| "pinsLoop K ff (name # names) written followed tot =
     bind (onRec (onKv (ListAll K name))) (\<lambda>entries.
     let grp = \<lparr>hmHead = name, hmFetch = (case ff of None \<Rightarrow> None | Some f \<Rightarrow> f name), hmPins = entries\<rparr> in
     if hmFetch grp = None then pinsLoop K ff names (written @ [grp]) followed (tot + length entries)
     else pinsLoop K ff names written (followed @ [grp]) (tot + length entries))"

definition gcPins :: "'d cidLib \<Rightarrow> ('b, 'd) gcConfig \<Rightarrow> ('b, 'd, ('b, 'd) headMark list \<times> nat \<times> nat) gcop" where
  "gcPins K cfg =
     bind (gets (\<lambda>s. rcNames (gcRec s))) (\<lambda>names.
     bind (pinsLoop K (fetchFor cfg) names [] [] 0) (\<lambda>(groups, tot).
     if stagingClock cfg = None then ret (groups, tot, 0)
     else bind (onRec (onKv (StagingList K))) (\<lambda>entries.
       ret (groups @ [\<lparr>hmHead = StagingHead, hmFetch = None, hmPins = entries\<rparr>], tot + length entries, length entries))))"

text \<open>The number of expired rows is returned with an error of \<open>pins\<close>, so the value has the error inside.\<close>

definition prepare :: "('b, 'd) lib \<Rightarrow> 'd cidLib \<Rightarrow> ('b, 'd) gcConfig \<Rightarrow>
    ('b, 'd, nat \<times> ('d err + ('b, 'd) headMark list \<times> nat \<times> nat)) gcop" where
  "prepare L K cfg =
     bind (modify (\<lambda>s. s\<lparr>refetched := 0, validatedRawReads := 0, validatedNodeReads := 0, validatedRawBytes := 0, validatedNodeBytes := 0\<rparr>)) (\<lambda>_.
     bind (attempt (onRec (reconcileAll L K (genBefore cfg) (genAfter cfg) (tipOf cfg) id))) (\<lambda>r. case r of
       Inl e \<Rightarrow> ret (0, Inl e)
     | Inr _ \<Rightarrow> bind (attempt (expireStaging K (stagingClock cfg))) (\<lambda>r. case r of
         Inl e \<Rightarrow> ret (0, Inl e)
       | Inr expired \<Rightarrow> bind (attempt (gcPins K cfg)) (\<lambda>r. ret (expired, r)))))"

definition finishStats :: "GCStats \<Rightarrow> nat \<Rightarrow> nat \<Rightarrow> nat \<Rightarrow> 'd mhash set \<Rightarrow> ('b, 'd) gc \<Rightarrow> GCStats" where
  "finishStats stats npins staged expired marked s =
     stats\<lparr>gsPins := npins, gsMarked := card marked, gsStaged := staged, gsExpired := expired, gsStagingObserved := True,
       gsRefetched := refetched s, gsValidatedRawReads := validatedRawReads s, gsValidatedNodeReads := validatedNodeReads s,
       gsValidatedReads := validatedRawReads s + validatedNodeReads s,
       gsValidatedRawBytes := validatedRawBytes s, gsValidatedNodeBytes := validatedNodeBytes s,
       gsValidatedBytes := validatedRawBytes s + validatedNodeBytes s\<rparr>"

definition runOffline :: "('b, 'd) lib \<Rightarrow> 'd cidLib \<Rightarrow> ('b, 'd) gcConfig \<Rightarrow> nat \<Rightarrow> 'd err + 'd cid list \<Rightarrow> ('b, 'd, GCStats \<times> 'd err option) gcop" where
  "runOffline L K cfg fuel keys =
     bind (prepare L K cfg) (\<lambda>(expired, r). case r of
       Inl e \<Rightarrow> ret (zeroGCStats\<lparr>gsExpired := expired\<rparr>, Some e)
     | Inr (groups, npins, staged) \<Rightarrow>
         bind (attempt (mark L K (separateScrub cfg) fuel groups)) (\<lambda>r. case r of
           Inl e \<Rightarrow> ret (zeroGCStats\<lparr>gsPins := npins, gsStaged := staged, gsExpired := expired, gsStagingObserved := True\<rparr>, Some e)
         | Inr marked \<Rightarrow> bind (sweep L K marked keys) (\<lambda>(stats, e).
             bind (gets id) (\<lambda>s. ret (finishStats stats npins staged expired marked s, e)))))"

definition runOnline :: "('b, 'd) lib \<Rightarrow> 'd cidLib \<Rightarrow> ('b, 'd) gcConfig \<Rightarrow> nat \<Rightarrow> 'd err + 'd event list \<Rightarrow> ('b, 'd, GCStats \<times> 'd err option) gcop" where
  "runOnline L K cfg fuel events =
     bind (prepare L K cfg) (\<lambda>(expired, r). case r of
       Inl e \<Rightarrow> ret (zeroGCStats\<lparr>gsExpired := expired\<rparr>, Some e)
     | Inr (groups, npins, staged) \<Rightarrow> (\<lambda>s. case Begin (gcStore s) of
         (Inl e, st) \<Rightarrow> (Inr (zeroGCStats\<lparr>gsExpired := expired\<rparr>, Some e), s\<lparr>gcStore := st\<rparr>)
       | (Inr epoch, st) \<Rightarrow>
           bind (attempt (mark L K (separateScrub cfg) fuel groups)) (\<lambda>r s2. case r of
             Inl e \<Rightarrow> (case End epoch (gcStore s2) of (ep, st2) \<Rightarrow>
               (Inr (zeroGCStats\<lparr>gsPins := npins, gsStaged := staged, gsExpired := expired, gsProtected := beEndCount ep, gsStagingObserved := True\<rparr>, Some e),
                s2\<lparr>gcStore := st2\<rparr>))
           | Inr marked \<Rightarrow> (case sweepOnline L K epoch marked events s2 of
               (Inl e, s3) \<Rightarrow> (Inl e, s3)
             | (Inr (stats, e), s3) \<Rightarrow> (case End epoch (gcStore s3) of (ep, st3) \<Rightarrow>
                 (Inr (finishStats (stats\<lparr>gsProtected := beEndCount ep\<rparr>) npins staged expired marked s3, e), s3\<lparr>gcStore := st3\<rparr>)))) (s\<lparr>gcStore := st\<rparr>)))"

text \<open>\<open>online\<close> says whether the collector was built over epochs.\<close>

definition Run :: "('b, 'd) lib \<Rightarrow> 'd cidLib \<Rightarrow> ('b, 'd) gcConfig \<Rightarrow> nat \<Rightarrow> bool \<Rightarrow> 'd err + 'd cid list \<Rightarrow> 'd err + 'd event list \<Rightarrow>
    ('b, 'd, GCStats \<times> 'd err option) gcop" where
  "Run L K cfg fuel online keys events = (if online then runOnline L K cfg fuel events else runOffline L K cfg fuel keys)"

section \<open>Scrubbing\<close>

record ScrubStats =
  ssScanned :: nat
  ssBytes :: nat

primrec scrubLoop :: "('b, 'd) lib \<Rightarrow> 'd cidLib \<Rightarrow> 'd event list \<Rightarrow> ScrubStats \<Rightarrow> ('b, 'd, ScrubStats \<times> 'd err option) gcop" where
  "scrubLoop L K [] stats = bind (attempt gcCtx) (\<lambda>r. ret (stats, case r of Inl e \<Rightarrow> Some e | Inr _ \<Rightarrow> None))"
| "scrubLoop L K (ev # evs) stats = (case ev of
     EDone \<Rightarrow> ret (stats, Some Cancelled)
   | EErr e \<Rightarrow> ret (stats, Some e)
   | EKey c \<Rightarrow> bind (attempt (gcGet L K c)) (\<lambda>r. case r of
       Inl e \<Rightarrow> ret (stats, Some e)
     | Inr blk \<Rightarrow> scrubLoop L K evs \<lparr>ssScanned = ssScanned stats + 1, ssBytes = ssBytes stats + blen L blk\<rparr>))"

definition Scrub :: "('b, 'd) lib \<Rightarrow> 'd cidLib \<Rightarrow> bool \<Rightarrow> 'd err + 'd event list \<Rightarrow> ('b, 'd, ScrubStats \<times> 'd err option) gcop" where
  "Scrub L K online events =
     (if \<not> online then ret (\<lparr>ssScanned = 0, ssBytes = 0\<rparr>, Some (PinningErr ''scrub without epochs''))
      else case events of
        Inl e \<Rightarrow> ret (\<lparr>ssScanned = 0, ssBytes = 0\<rparr>, Some e)
      | Inr evs \<Rightarrow> scrubLoop L K evs \<lparr>ssScanned = 0, ssBytes = 0\<rparr>)"

end
