(* ===== verification/Marking.thy ===== *)
theory Marking
  imports GC
begin

text \<open>
  What the marking phase of the collector establishes, for every schedule of the application: the marked keys are
  present, they contain everything that the pins reach, and nothing else is marked.
\<close>

section \<open>Reachability\<close>

text \<open>A link of the block graph, read off content: some bytes that hash to \<open>c\<close> decode to a node that links \<open>c'\<close>. For
  SHA-256 the bytes are unique, so \<open>shaLink\<close> is what any reader of the block sees.\<close>

definition dagLink :: "('b, 'd) lib \<Rightarrow> 'd cid \<Rightarrow> 'd cid \<Rightarrow> bool" where
  "dagLink L c c' \<longleftrightarrow> cidCodec c = codecDagCBOR \<and>
     (\<exists>b n. prefixSum L (cidPrefix c) b = Some c \<and> cborDecode L b = Some n \<and> Some c' \<in> set (appendLinks n))"

definition shaCid :: "'d cid \<Rightarrow> bool" where
  "shaCid c \<longleftrightarrow> cidMhType c = SHA2_256 \<and> cidMhLen c = 32"

definition shaLink :: "('b, 'd) lib \<Rightarrow> 'd cid \<Rightarrow> 'd cid \<Rightarrow> bool" where
  "shaLink L c c' \<longleftrightarrow> shaCid c \<and> dagLink L c c'"

text \<open>The keys that a set of pins retains under a link relation: of every pin its own block, of a recursive one all
  it reaches.\<close>

definition liveKeys :: "('d cid \<Rightarrow> 'd cid \<Rightarrow> bool) \<Rightarrow> ('d cid \<times> bool) set \<Rightarrow> 'd mhash set" where
  "liveKeys E P = {cidHash c |c r. (c, r) \<in> P} \<union> {cidHash c' |c c'. (c, True) \<in> P \<and> E\<^sup>*\<^sup>* c c'}"

lemma sha_bytes_unique:
  assumes L: "lib_ok L" and "shaCid c" "prefixSum L (cidPrefix c) b = Some c" "prefixSum L (cidPrefix c) b' = Some c"
  shows "b = b'"
proof -
  obtain d where d: "mhSum L SHA2_256 (- 1) b = Some (32, d)" "mhSum L SHA2_256 32 b = Some (32, d)"
    using L unfolding lib_ok_def by blast
  obtain d' where d': "mhSum L SHA2_256 (- 1) b' = Some (32, d')" "mhSum L SHA2_256 32 b' = Some (32, d')"
    using L unfolding lib_ok_def by blast
  have "d = cidDigest c" "d' = cidDigest c" using assms(2-4) d(2) d'(2)
    by (cases c; simp add: prefixSum_def cidPrefix_def shaCid_def)+
  with d d' L show ?thesis unfolding lib_ok_def by metis
qed

section \<open>What the application may do meanwhile\<close>

definition schedDeletes :: "('b, 'd) gc \<Rightarrow> 'd mhash set" where
  "schedDeletes s = (\<Union>x\<in>set (gcSchedule s). {k. \<exists>a\<in>set (fst x). deletesKey k (SApp a)})"

definition present :: "('b, 'd) gc \<Rightarrow> 'd mhash \<Rightarrow> bool" where
  "present s k \<longleftrightarrow> contents (epBase (gcStore s)) k \<noteq> None"

text \<open>The store while the collector only reads: \<open>D\<close> are the keys the application deletes.\<close>

definition storeGrows :: "'d mhash set \<Rightarrow> ('b, 'd) epochs \<Rightarrow> ('b, 'd) epochs \<Rightarrow> bool" where
  "storeGrows D s t \<longleftrightarrow> epActive t = epActive s \<and> length (epStates t) = length (epStates s) \<and>
     (\<forall>a<length (epStates s). keysAt s a \<subseteq> keysAt t a) \<and>
     (\<forall>k. k \<notin> D \<longrightarrow> contents (epBase s) k \<noteq> None \<longrightarrow> contents (epBase t) k \<noteq> None)"

definition gcSafe :: "'d cidLib \<Rightarrow> 'd mhash set \<Rightarrow> ('b, 'd) gc \<Rightarrow> bool" where
  "gcSafe K D s \<longleftrightarrow> schedDeletes s \<subseteq> D \<and> epInv K (gcStore s)"

definition gcGrows :: "'d cidLib \<Rightarrow> 'd mhash set \<Rightarrow> ('b, 'd) gc \<Rightarrow> ('b, 'd) gc \<Rightarrow> bool" where
  "gcGrows K D s t \<longleftrightarrow> (gcSafe K D s \<longrightarrow> gcSafe K D t \<and> storeGrows D (gcStore s) (gcStore t) \<and> gcRec t = gcRec s \<and> (gcSchedule s = [] \<longrightarrow> gcSchedule t = []))"

lemma storeGrows_refl [simp]: "storeGrows D s s"
  by (simp add: storeGrows_def)

lemma storeGrows_trans: "storeGrows D s t \<Longrightarrow> storeGrows D t u \<Longrightarrow> storeGrows D s u"
  by (auto simp: storeGrows_def dest: order_trans) blast+

lemma gcGrows_refl [simp]: "gcGrows K D s s"
  by (simp add: gcGrows_def)

lemma reflp_gcGrows: "reflp (gcGrows K D)"
  by (simp add: reflp_def)

lemma transp_gcGrows: "transp (gcGrows K D)"
  by (intro transpI) (auto simp: gcGrows_def intro: storeGrows_trans)

lemma runApp_grows:
  assumes "epInv K s" "{k. deletesKey k (SApp a)} \<subseteq> D"
  shows "storeGrows D s (runApp L K a s)"
proof -
  have "contents (epBase (runApp L K a s)) k \<noteq> None" if "k \<notin> D" "contents (epBase s) k \<noteq> None" for k
    using that assms(2) by (intro runApp_contents) auto
  then show ?thesis using runApp_keys [OF assms(1)] by (auto simp: storeGrows_def)
qed

lemma runApps_grow:
  "epInv K s \<Longrightarrow> {k. \<exists>a\<in>set acts. deletesKey k (SApp a)} \<subseteq> D \<Longrightarrow>
    epInv K (foldl (\<lambda>t a. runApp L K a t) s acts) \<and> storeGrows D s (foldl (\<lambda>t a. runApp L K a t) s acts)"
proof (induction acts arbitrary: s)
  case (Cons a acts)
  have inv: "epInv K (runApp L K a s)" by (rule runApp_inv [OF Cons.prems(1)])
  have "storeGrows D s (runApp L K a s)" using Cons.prems by (intro runApp_grows) auto
  with Cons.IH [OF inv] Cons.prems(2) show ?case by (auto intro: storeGrows_trans)
qed simp

lemma tick_keeps:
  fixes L :: "('b, 'd) lib"
  shows "keeps (gcGrows K D) (tick L K)"
proof (rule keepsI)
  fix s :: "('b, 'd) gc" and r t assume run: "tick L K s = (r, t)"
  show "gcGrows K D s t"
  proof (cases "gcSchedule s")
    case (Cons x rest)
    obtain acts cn where x: "x = (acts, cn)" by (cases x)
    show ?thesis unfolding gcGrows_def
    proof
      assume "gcSafe K D s"
      then have d: "schedDeletes s \<subseteq> D" and e: "epInv K (gcStore s)" by (simp_all add: gcSafe_def)
      have "{k. \<exists>a\<in>set acts. deletesKey k (SApp a)} \<subseteq> D" using d Cons x by (auto simp: schedDeletes_def)
      from runApps_grow [OF e this] have "epInv K (foldl (\<lambda>t a. runApp L K a t) (gcStore s) acts)"
        "storeGrows D (gcStore s) (foldl (\<lambda>t a. runApp L K a t) (gcStore s) acts)" by simp_all
      moreover have "schedDeletes t \<subseteq> schedDeletes s" using run Cons x by (auto simp: tick_def schedDeletes_def)
      then have "schedDeletes t \<subseteq> D" using d by blast
      ultimately show "gcSafe K D t \<and> storeGrows D (gcStore s) (gcStore t) \<and> gcRec t = gcRec s \<and> (gcSchedule s = [] \<longrightarrow> gcSchedule t = [])"
        using run Cons x by (auto simp: tick_def gcSafe_def)
    qed
  qed (use run in \<open>simp add: tick_def\<close>)
qed

lemma tick_Inr: "\<exists>t. tick L K s = (Inr (), t)"
  by (auto simp: tick_def split: list.split)

section \<open>Fetchers\<close>

text \<open>What marking relies on of a fetcher: it acts on the store only as the application does, without deleting, and a block it
  returns has the requested CID and is stored.\<close>

definition fetcherOk :: "('b, 'd) lib \<Rightarrow> 'd cidLib \<Rightarrow> ('b, 'd) fetcher \<Rightarrow> bool" where
  "fetcherOk L K f \<longleftrightarrow> (\<forall>c s r t. f c s = (r, t) \<longrightarrow>
     (\<exists>acts. (\<forall>a\<in>set acts. \<forall>k. \<not> deletesKey k (SApp a)) \<and> t = foldl (\<lambda>t a. runApp L K a t) s acts) \<and>
     (case r of Inl e \<Rightarrow> e \<noteq> NonTermination
      | Inr b \<Rightarrow> prefixSum L (cidPrefix c) b = Some c \<and> contents (epBase t) (cidHash c) \<noteq> None))"

text \<open>The exchange verifies what it receives against the CID it asked for.\<close>

definition netOk :: "('b, 'd) lib \<Rightarrow> ('d cid \<Rightarrow> 'd err + 'b) \<Rightarrow> bool" where
  "netOk L net \<longleftrightarrow> (\<forall>c. case net c of Inl e \<Rightarrow> e \<noteq> NonTermination | Inr b \<Rightarrow> prefixSum L (cidPrefix c) b = Some c)"

lemma validatingGet_NT: "validatingGet L bs c = Inl e \<Longrightarrow> e \<noteq> NonTermination"
  by (auto simp: validatingGet_def baseGet_def bindE_def split: if_splits option.splits sum.splits)

lemma fetchBlock_ok:
  assumes net: "netOk L net" and run: "fetchBlock K net c s = (r, t)"
  shows "(t = s \<or> (\<exists>b. t = runApp L K (APut c b) s)) \<and>
     (case r of Inl e \<Rightarrow> e \<noteq> NonTermination
      | Inr b \<Rightarrow> prefixSum L (cidPrefix c) b = Some c \<and> contents (epBase t) (cidHash c) \<noteq> None)"
proof (cases "net c")
  case (Inl e)
  have "case net c of Inl e \<Rightarrow> e \<noteq> NonTermination | Inr b \<Rightarrow> prefixSum L (cidPrefix c) b = Some c" using net by (simp add: netOk_def)
  then have "e \<noteq> NonTermination" by (simp add: Inl)
  moreover have "r = Inl e" "t = s" using Inl run by (simp_all add: fetchBlock_def)
  ultimately show ?thesis by simp
next
  case (Inr b)
  have "case net c of Inl e \<Rightarrow> e \<noteq> NonTermination | Inr b \<Rightarrow> prefixSum L (cidPrefix c) b = Some c" using net by (simp add: netOk_def)
  then have sum: "prefixSum L (cidPrefix c) b = Some c" by (simp add: Inr)
  show ?thesis
  proof (cases "putFault (epBase s) c")
    case True
    then have "r = Inl IOErr" "t = runApp L K (APut c b) s" using Inr run
      by (simp_all add: fetchBlock_def appPut_def withKey_def basePut_def)
    then show ?thesis by auto
  next
    case False
    then have "r = Inr b" "t = runApp L K (APut c b) s" "contents (epBase t) (cidHash c) = Some b" using Inr run
      by (auto simp: fetchBlock_def appPut_def withKey_def basePut_def)
    then show ?thesis using sum by auto
  qed
qed

lemma fetchingGet_ok: assumes "netOk L net" shows "fetcherOk L K (fetchingGet L K net)"
  unfolding fetcherOk_def
proof (intro allI impI)
  fix c s r t assume run: "fetchingGet L K net c s = (r, t)"
  obtain r1 u where g: "appGet L K c s = (r1, u)" by fastforce
  have u: "u = runApp L K (AGet c) s" using g by simp
  show "(\<exists>acts. (\<forall>a\<in>set acts. \<forall>k. \<not> deletesKey k (SApp a)) \<and> t = foldl (\<lambda>t a. runApp L K a t) s acts) \<and>
     (case r of Inl e \<Rightarrow> e \<noteq> NonTermination
      | Inr b \<Rightarrow> prefixSum L (cidPrefix c) b = Some c \<and> contents (epBase t) (cidHash c) \<noteq> None)"
  proof (cases "\<exists>e. r1 = Inl e \<and> isNotFound e")
    case True
    then have f: "fetchBlock K net c u = (r, t)" using run g by (auto simp: fetchingGet_def)
    note ok = fetchBlock_ok [OF assms f]
    then consider "t = u" | b where "t = runApp L K (APut c b) u" by blast
    then have "\<exists>acts. (\<forall>a\<in>set acts. \<forall>k. \<not> deletesKey k (SApp a)) \<and> t = foldl (\<lambda>t a. runApp L K a t) s acts"
    proof cases
      case 1
      then show ?thesis using u by (intro exI [of _ "[AGet c]"]) simp
    next
      case 2
      then show ?thesis using u by (intro exI [of _ "[AGet c, APut c b]"]) simp
    qed
    with ok show ?thesis by simp
  next
    case False
    then have "r = r1" "t = u" using run g by (auto simp: fetchingGet_def split: sum.splits)
    moreover have "case r1 of Inl e \<Rightarrow> e \<noteq> NonTermination | Inr b \<Rightarrow> prefixSum L (cidPrefix c) b = Some c \<and> contents (epBase u) (cidHash c) \<noteq> None"
      using g by (auto simp: appGet_def withKey_def multihashKey_def dest: validatingGet_sound validatingGet_stored validatingGet_NT split: sum.splits)
    ultimately show ?thesis using u by (intro conjI exI [of _ "[AGet c]"]) (simp_all only: foldl.simps, simp_all)
  qed
qed

definition fetchOptOk :: "('b, 'd) lib \<Rightarrow> 'd cidLib \<Rightarrow> ('b, 'd) fetcher option \<Rightarrow> bool" where
  "fetchOptOk L K fetch \<longleftrightarrow> (\<forall>f. fetch = Some f \<longrightarrow> fetcherOk L K f)"


section \<open>Reads\<close>

lemma gcGrows_inv: "gcGrows K D s (s\<lparr>gcStore := st\<rparr>) \<Longrightarrow> gcSafe K D s \<Longrightarrow> epInv K st"
  by (simp add: gcGrows_def gcSafe_def)

lemma fetcher_grows:
  assumes "fetcherOk L K f" "f c (gcStore s) = (r, st)" shows "gcGrows K D s (s\<lparr>gcStore := st\<rparr>)"
  unfolding gcGrows_def
proof
  assume safe: "gcSafe K D s"
  obtain acts where acts: "\<forall>a\<in>set acts. \<forall>k. \<not> deletesKey k (SApp a)" "st = foldl (\<lambda>t a. runApp L K a t) (gcStore s) acts"
    using assms unfolding fetcherOk_def by blast
  have "epInv K st \<and> storeGrows D (gcStore s) st" unfolding acts(2) using safe acts(1) by (intro runApps_grow) (auto simp: gcSafe_def)
  then show "gcSafe K D (s\<lparr>gcStore := st\<rparr>) \<and> storeGrows D (gcStore s) (gcStore (s\<lparr>gcStore := st\<rparr>)) \<and> gcRec (s\<lparr>gcStore := st\<rparr>) = gcRec s \<and>
      (gcSchedule s = [] \<longrightarrow> gcSchedule (s\<lparr>gcStore := st\<rparr>) = [])"
    using safe by (simp add: gcSafe_def schedDeletes_def)
qed

lemma gcGrows_count: "gcGrows K D s t \<Longrightarrow> gcGrows K D s (countRead c n t)" "gcGrows K D s t \<Longrightarrow> gcGrows K D s (countRefetch t)"
  by (auto simp: gcGrows_def gcSafe_def schedDeletes_def countRead_def countRefetch_def)

lemma count_store [simp]: "gcStore (countRead c n t) = gcStore t" "gcStore (countRefetch t) = gcStore t"
  "present (countRead c n t) = present t" "present (countRefetch t) = present t"
  by (auto simp: present_def fun_eq_iff countRead_def countRefetch_def)

lemmas gc_bind = keeps_bind [OF transp_gcGrows]
lemmas gc_pure = keeps_pure [OF reflp_gcGrows]

lemma gcCtx_keeps: "keeps (gcGrows K D) gcCtx"
  unfolding gcCtx_def by (intro gc_bind gc_pure)

lemma modify_keeps: "keeps (gcGrows K D) (modify (countRead c n))" "keeps (gcGrows K D) (modify countRefetch)"
  by (auto intro!: keepsI gcGrows_count)

lemma gcGet_keeps: "keeps (gcGrows K D) (gcGet L K c)"
  unfolding gcGet_def by (intro gc_bind tick_keeps keepsI) simp

lemma gcHas_keeps: "keeps (gcGrows K D) (gcHas L K c)"
  unfolding gcHas_def by (intro gc_bind tick_keeps keepsI) simp

lemma gcFetch_keeps: assumes "fetcherOk L K f" shows "keeps (gcGrows K D) (gcFetch L K f c)"
  unfolding gcFetch_def by (intro gc_bind tick_keeps keepsI) (auto dest: fetcher_grows [OF assms] split: prod.splits)

lemma fetchOptD: "fetchOptOk L K fetch \<Longrightarrow> fetch = Some f \<Longrightarrow> fetcherOk L K f"
  by (simp add: fetchOptOk_def)

lemma keeps_cases:
  "(\<And>a. r = Inl a \<Longrightarrow> keeps R (f a)) \<Longrightarrow> (\<And>a. r = Inr a \<Longrightarrow> keeps R (g a)) \<Longrightarrow> keeps R (case r of Inl a \<Rightarrow> f a | Inr a \<Rightarrow> g a)"
  "(x = None \<Longrightarrow> keeps R m) \<Longrightarrow> (\<And>a. x = Some a \<Longrightarrow> keeps R (h a)) \<Longrightarrow> keeps R (case x of None \<Rightarrow> m | Some a \<Rightarrow> h a)"
  "(b \<Longrightarrow> keeps R m) \<Longrightarrow> (\<not> b \<Longrightarrow> keeps R m') \<Longrightarrow> keeps R (if b then m else m')"
  by (auto split: sum.split option.split)

lemma readForMark_keeps: "fetchOptOk L K fetch \<Longrightarrow> keeps (gcGrows K D) (readForMark L K c fetch)"
  unfolding readForMark_def
  by (intro gc_bind keeps_cases keeps_attempt gcGet_keeps gc_pure modify_keeps gcFetch_keeps) (auto dest: fetchOptD)

lemma retainForMark_keeps: "fetchOptOk L K fetch \<Longrightarrow> keeps (gcGrows K D) (retainForMark L K scrub c fetch)"
  unfolding retainForMark_def
  by (intro gc_bind keeps_cases readForMark_keeps gcHas_keeps gc_pure modify_keeps gcFetch_keeps) (auto dest: fetchOptD)

lemma links_keeps: "fetchOptOk L K fetch \<Longrightarrow> keeps (gcGrows K D) (links L K scrub c fetch)"
  unfolding links_def
  by (intro gc_bind keeps_cases readForMark_keeps retainForMark_keeps gc_pure)

text \<open>What a successful read says, and that reading never runs out of fuel.\<close>

lemma gcFetch_wp:
  assumes "fetcherOk L K f"
  shows "wp (gcFetch L K f c) (\<lambda>e. e \<noteq> NonTermination) (\<lambda>b t. prefixSum L (cidPrefix c) b = Some c \<and> present t (cidHash c)) s"
proof -
  obtain u where u: "tick L K s = (Inr (), u)" using tick_Inr by blast
  obtain r st where f: "f c (gcStore u) = (r, st)" by fastforce
  have "case r of Inl e \<Rightarrow> e \<noteq> NonTermination | Inr b \<Rightarrow> prefixSum L (cidPrefix c) b = Some c \<and> contents (epBase st) (cidHash c) \<noteq> None"
    using assms f unfolding fetcherOk_def by blast
  then show ?thesis by (auto simp: present_def gcFetch_def wp_def u f split: sum.splits)
qed

lemma gcGet_wp: "wp (attempt (gcGet L K c)) (\<lambda>e. False)
   (\<lambda>r t. case r of Inl e \<Rightarrow> e \<noteq> NonTermination | Inr b \<Rightarrow> prefixSum L (cidPrefix c) b = Some c \<and> present t (cidHash c)) s"
proof -
  obtain u where u: "tick L K s = (Inr (), u)" using tick_Inr by blast
  show ?thesis
    by (cases "validatingGet L (epBase (gcStore u)) c")
      (auto simp: present_def gcGet_def wp_def attempt_def u dest: validatingGet_NT validatingGet_sound validatingGet_stored)
qed

lemma readForMark_wp:
  assumes "fetchOptOk L K fetch"
  shows "wp (readForMark L K c fetch) (\<lambda>e. e \<noteq> NonTermination) (\<lambda>b t. prefixSum L (cidPrefix c) b = Some c \<and> present t (cidHash c)) s"
proof -
  have f: "wp (gcFetch L K f c) (\<lambda>e. e \<noteq> NonTermination) (\<lambda>b t. prefixSum L (cidPrefix c) b = Some c \<and> present t (cidHash c)) t"
    if "fetch = Some f" for f t
    by (rule wp_mono [OF gcFetch_wp [OF fetchOptD [OF assms that]]]) simp_all
  show ?thesis unfolding readForMark_def wp_bind
    by (rule wp_mono [OF gcGet_wp]) (auto intro: f split: sum.splits option.split)
qed

lemma retainForMark_wp:
  assumes "fetchOptOk L K fetch"
  shows "wp (retainForMark L K scrub c fetch) (\<lambda>e. e \<noteq> NonTermination) (\<lambda>_ t. present t (cidHash c)) s"
proof (cases "\<not> scrub \<or> cidCodec c \<noteq> codecRaw")
  case True
  then show ?thesis using wp_mono [OF readForMark_wp [OF assms]] by (simp add: retainForMark_def)
next
  case False
  obtain u where u: "tick L K s = (Inr (), u)" using tick_Inr by blast
  have h: "gcHas L K c s = (baseHas (epBase (gcStore u)) c, u)" by (simp add: gcHas_def u)
  have f: "wp (gcFetch L K f c) (\<lambda>e. e \<noteq> NonTermination) (\<lambda>_ t. present t (cidHash c)) u" if "fetch = Some f" for f
    by (rule wp_mono [OF gcFetch_wp [OF fetchOptD [OF assms that]]]) simp_all
  have "wp (gcHas L K c) (\<lambda>e. e \<noteq> NonTermination) (\<lambda>p t. t = u \<and> (p \<longrightarrow> present t (cidHash c))) s"
    by (auto simp: present_def wp_def h baseHas_def)
  then show ?thesis using False
    by (auto simp: retainForMark_def intro: f elim!: wp_mono split: option.split)
qed

lemma links_wp:
  assumes "fetchOptOk L K fetch" "cidCodec c \<noteq> codecRaw"
  shows "wp (links L K scrub c fetch) (\<lambda>e. e \<noteq> NonTermination) (\<lambda>kids t. present t (cidHash c) \<and> cidCodec c = codecDagCBOR \<and>
    (\<exists>b n. prefixSum L (cidPrefix c) b = Some c \<and> cborDecode L b = Some n \<and> kids = appendLinks n)) s"
proof (cases "cidCodec c = codecDagCBOR")
  case True
  have "links L K scrub c fetch = bind (readForMark L K c fetch) (\<lambda>blk. case cborDecode L blk of
        None \<Rightarrow> fail (PinningErr ''decoding block'') | Some n \<Rightarrow> ret (appendLinks n))" using True by (simp add: links_def)
  then show ?thesis using True by (simp only: wp_bind, intro wp_mono [OF readForMark_wp [OF assms(1)]]) (auto split: option.split)
qed (use assms in \<open>simp add: links_def\<close>)

section \<open>The frontier loop\<close>

definition doneCid :: "'d mhash set \<Rightarrow> 'd cid set \<Rightarrow> 'd cid \<Rightarrow> bool" where
  "doneCid M X c \<longleftrightarrow> (if cidCodec c = codecRaw then cidHash c \<in> M else c \<in> X)"

text \<open>The links of an expanded block wait in the frontier or are done.\<close>

definition closedUnder :: "('b, 'd) lib \<Rightarrow> 'd link list \<Rightarrow> 'd mhash set \<Rightarrow> 'd cid set \<Rightarrow> bool" where
  "closedUnder L F M X \<longleftrightarrow> (\<forall>c\<in>X. cidHash c \<in> M \<and> (\<forall>c'. shaLink L c c' \<longrightarrow> Some c' \<in> set F \<or> doneCid M X c'))"

text \<open>\<open>U\<close> contains the frontier and what it links, \<open>H\<close> the keys of \<open>U\<close>.\<close>

definition boundedBy :: "('b, 'd) lib \<Rightarrow> 'd cid set \<Rightarrow> 'd mhash set \<Rightarrow> bool" where
  "boundedBy L U H \<longleftrightarrow> cidHash ` U \<subseteq> H \<and> (\<forall>c\<in>U. \<forall>c'. dagLink L c c' \<longrightarrow> c' \<in> U)"

lemma doneCid_mono: "doneCid M X c \<Longrightarrow> M \<subseteq> M' \<Longrightarrow> X \<subseteq> X' \<Longrightarrow> doneCid M' X' c"
  by (auto simp: doneCid_def)

lemma doneCid_reach:
  assumes cl: "closedUnder L [] M X" and c: "doneCid M X c" and r: "(shaLink L)\<^sup>*\<^sup>* c c'"
  shows "doneCid M X c'"
  using r c
proof (induction)
  case (step y z)
  then have "doneCid M X y" "cidCodec y = codecDagCBOR" by (auto simp: shaLink_def dagLink_def)
  with cl step(2) show ?case by (auto simp: closedUnder_def doneCid_def)
qed

lemma doneCid_marked: "closedUnder L F M X \<Longrightarrow> doneCid M X c \<Longrightarrow> cidHash c \<in> M"
  by (auto simp: closedUnder_def doneCid_def split: if_splits)

lemma closedUnder_pop:
  assumes "closedUnder L (R @ [Some c]) M X" "M \<subseteq> M'" "doneCid M' X c"
  shows "closedUnder L R M' X"
  using assms doneCid_mono [OF _ assms(2) order_refl [of X]] by (fastforce simp: closedUnder_def)

lemma closedUnder_expand:
  assumes L: "lib_ok L" and cl: "closedUnder L (R @ [Some c]) M X" and c: "cidCodec c \<noteq> codecRaw"
    and b: "prefixSum L (cidPrefix c) b = Some c" "cborDecode L b = Some n"
  shows "closedUnder L (R @ appendLinks n) (insert (cidHash c) M) (insert c X)"
proof -
  have kids: "Some c' \<in> set (appendLinks n)" if "shaLink L c c'" for c'
    using that sha_bytes_unique [OF L _ b(1)] b(2) by (auto simp: shaLink_def dagLink_def)
  have "doneCid (insert (cidHash c) M) (insert c X) c'" if "c' = c \<or> doneCid M X c'" for c'
    using that c by (auto simp: doneCid_def)
  with cl kids show ?thesis unfolding closedUnder_def by auto
qed

lemma markLoop_keeps: "fetchOptOk L K fetch \<Longrightarrow> keeps (gcGrows K D) (markLoop L K scrub fetch n F M X)"
proof (induction n arbitrary: F M X)
  case (Suc n)
  then show ?case unfolding markLoop.simps Let_def
    by (intro keeps_cases gc_bind gc_pure gcCtx_keeps retainForMark_keeps links_keeps) auto
qed (simp add: gc_pure)

text \<open>The result of the loop over a frontier \<open>F\<close>, from marks \<open>M\<close> and expansions \<open>X\<close>.\<close>

definition markPost :: "('b, 'd) lib \<Rightarrow> 'd mhash set \<Rightarrow> 'd mhash set \<Rightarrow> 'd link list \<Rightarrow> 'd mhash set \<Rightarrow> 'd cid set \<Rightarrow> 'd mhash set \<times> 'd cid set \<Rightarrow> ('b, 'd) gc \<Rightarrow> bool" where
  "markPost L D H F M X r t \<longleftrightarrow> (case r of (M', X') \<Rightarrow> M \<subseteq> M' \<and> X \<subseteq> X' \<and> M' \<subseteq> H \<and> closedUnder L [] M' X' \<and>
     (\<forall>c. Some c \<in> set F \<longrightarrow> doneCid M' X' c) \<and> (\<forall>k\<in>M' - D. present t k))"

lemma markPost_step:
  assumes "markPost L D H F' M' X' r t" "M \<subseteq> M'" "X \<subseteq> X'" "\<And>c. Some c \<in> set F \<Longrightarrow> Some c \<in> set F' \<or> doneCid M' X' c"
  shows "markPost L D H F M X r t"
  using assms doneCid_mono by (fastforce simp: markPost_def split: prod.splits)

lemma wp_gcCtx [simp]: "wp gcCtx E Q s \<longleftrightarrow> (if gcCancelled s then E Cancelled else Q () s)"
  by (simp add: gcCtx_def)

lemma gcGrows_present:
  assumes "gcGrows K D s t" "gcSafe K D s" shows "gcSafe K D t" "k \<notin> D \<Longrightarrow> present s k \<Longrightarrow> present t k"
  using assms unfolding gcGrows_def storeGrows_def present_def by blast+

lemma markLoop_wp:
  assumes L: "lib_ok L" and f: "fetchOptOk L K fetch" and UH: "boundedBy L U H"
  shows "gcSafe K D s \<Longrightarrow> closedUnder L F M X \<Longrightarrow> \<forall>k\<in>M - D. present s k \<Longrightarrow> M \<subseteq> H \<Longrightarrow> (\<And>c. Some c \<in> set F \<Longrightarrow> c \<in> U) \<Longrightarrow>
    wp (markLoop L K scrub fetch n F M X) (\<lambda>_. True) (markPost L D H F M X) s"
proof (induction n arbitrary: F M X s)
  case 0
  then show ?case by (cases "F = []") (simp_all add: markPost_def)
next
  case (Suc n)
  show ?case
  proof (cases "F = []")
    case True
    with Suc.prems show ?thesis by (simp add: markPost_def)
  next
    case False
    then obtain R l where F: "F = R @ [l]" by (metis append_butlast_last_id)
    show ?thesis
    proof (cases l)
      case None
      then show ?thesis by (simp add: F)
    next
      case (Some c)
      have cU: "c \<in> U" "cidHash c \<in> H" using Suc.prems(5) [of c] F Some UH by (auto simp: boundedBy_def)
      have RU: "\<And>c. Some c \<in> set R \<Longrightarrow> c \<in> U" using Suc.prems(5) F by simp
      have cl: "closedUnder L (R @ [Some c]) M X" using Suc.prems(2) F Some by simp
      have pop: "wp (markLoop L K scrub fetch n R M' X) (\<lambda>_. True) (markPost L D H F M X) t"
        if "M' = M \<or> M' = insert (cidHash c) M" "gcSafe K D t" "doneCid M' X c" "\<forall>k\<in>M' - D. present t k" for M' t
      proof (rule wp_mono [OF Suc.IH [OF that(2) closedUnder_pop [OF cl _ that(3)] that(4) _ RU]])
        show "markPost L D H F M X a u" if "markPost L D H R M' X a u" for a u
          by (rule markPost_step [OF that]) (use \<open>M' = M \<or> M' = insert (cidHash c) M\<close> \<open>doneCid M' X c\<close> F Some in auto)
      qed (use that(1) Suc.prems(4) cU in auto)
      have push: "wp (markLoop L K scrub fetch n (R @ appendLinks m) (insert (cidHash c) M) (insert c X)) (\<lambda>_. True) (markPost L D H F M X) t"
        if c: "cidCodec c \<noteq> codecRaw" "cidCodec c = codecDagCBOR" and b: "prefixSum L (cidPrefix c) b = Some c" "cborDecode L b = Some m"
          and t: "gcSafe K D t" "\<forall>k\<in>insert (cidHash c) M - D. present t k" for b m t
      proof (rule wp_mono [OF Suc.IH [OF t(1) closedUnder_expand [OF L cl c(1) b] t(2)]])
        have "c' \<in> U" if "Some c' \<in> set (appendLinks m)" for c'
          using that UH cU(1) c(2) b unfolding boundedBy_def dagLink_def by blast
        then show "c' \<in> U" if "Some c' \<in> set (R @ appendLinks m)" for c' using that RU by auto
        show "markPost L D H F M X a u" if "markPost L D H (R @ appendLinks m) (insert (cidHash c) M) (insert c X) a u" for a u
          by (rule markPost_step [OF that]) (use F Some c in \<open>auto simp: doneCid_def\<close>)
      qed (use Suc.prems(4) cU in auto)
      have kept: "gcSafe K D t \<and> (\<forall>k\<in>insert (cidHash c) M - D. present t k)" if "present t (cidHash c)" "gcGrows K D s t" for t
        using gcGrows_present [OF that(2) Suc.prems(1)] Suc.prems(3) that(1) by auto
      have raw: "wp (retainForMark L K scrub c fetch) (\<lambda>_. True)
          (\<lambda>_. wp (markLoop L K scrub fetch n R (insert (cidHash c) M) X) (\<lambda>_. True) (markPost L D H F M X)) s" if "cidCodec c = codecRaw"
        by (rule wp_mono [OF wp_conj_keeps [OF retainForMark_wp [OF f] retainForMark_keeps [OF f, of D]]])
          (use pop [of "insert (cidHash c) M"] kept that in \<open>auto simp: doneCid_def\<close>)
      have node: "wp (links L K scrub c fetch) (\<lambda>_. True)
          (\<lambda>kids. wp (markLoop L K scrub fetch n (R @ kids) (insert (cidHash c) M) (insert c X)) (\<lambda>_. True) (markPost L D H F M X)) s" if "cidCodec c \<noteq> codecRaw"
        by (rule wp_mono [OF wp_conj_keeps [OF links_wp [OF f that] links_keeps [OF f, of D]]]) (use push [OF that] kept in auto)
      show ?thesis using pop [of M s] Suc.prems(1,3) raw node by (simp add: F Some Let_def markKey_def doneCid_def)
    qed
  qed
qed

section \<open>Groups of pins\<close>

definition pinSet :: "'d PinEntry list \<Rightarrow> ('d cid \<times> bool) set" where
  "pinSet ps = {(c, peRecursive p) |c p. p \<in> set ps \<and> peCID p = Some c}"

definition groupPins :: "('b, 'd) headMark list \<Rightarrow> ('d cid \<times> bool) set" where
  "groupPins groups = (\<Union>g\<in>set groups. pinSet (hmPins g))"

lemma pinSet_simps [simp]: "pinSet [] = {}"
  "pinSet (p # ps) = (case peCID p of None \<Rightarrow> {} | Some c \<Rightarrow> {(c, peRecursive p)}) \<union> pinSet ps"
  by (auto simp: pinSet_def split: option.splits)

lemma groupPins_simps [simp]: "groupPins [] = {}" "groupPins (g # gs) = pinSet (hmPins g) \<union> groupPins gs"
  by (auto simp: groupPins_def)

lemma markPins_keeps: "fetchOptOk L K fetch \<Longrightarrow> keeps (gcGrows K D) (markPins L K scrub fetch ps F M)"
proof (induction ps arbitrary: F M)
  case (Cons p ps)
  then show ?case unfolding markPins.simps by (intro keeps_cases gc_bind gc_pure retainForMark_keeps) auto
qed (simp add: gc_pure)

lemma markPins_wp:
  assumes f: "fetchOptOk L K fetch"
  shows "gcSafe K D s \<Longrightarrow> \<forall>k\<in>M - D. present s k \<Longrightarrow>
    wp (markPins L K scrub fetch ps F M) (\<lambda>e. e \<noteq> NonTermination) (\<lambda>(F', M') t. gcSafe K D t \<and> (\<forall>k\<in>M' - D. present t k) \<and>
      F' = F @ map peCID (filter peRecursive ps) \<and> M' = M \<union> {cidHash c |c. (c, False) \<in> pinSet ps}) s"
proof (induction ps arbitrary: F M s)
  case (Cons p ps)
  show ?case
  proof (cases "peRecursive p")
    case True
    then show ?thesis using Cons.IH [OF Cons.prems, of "F @ [peCID p]"] by (auto elim!: wp_mono split: option.splits)
  next
    case False
    show ?thesis
    proof (cases "peCID p")
      case (Some c)
      have "wp (retainForMark L K scrub c fetch) (\<lambda>e. e \<noteq> NonTermination) (\<lambda>_. wp (markPins L K scrub fetch ps F (insert (cidHash c) M)) (\<lambda>e. e \<noteq> NonTermination)
        (\<lambda>(F', M') t. gcSafe K D t \<and> (\<forall>k\<in>M' - D. present t k) \<and> F' = F @ map peCID (filter peRecursive (p # ps)) \<and>
          M' = M \<union> {cidHash c |c. (c, False) \<in> pinSet (p # ps)})) s"
      proof (rule wp_mono [OF wp_conj_keeps [OF retainForMark_wp [OF f] retainForMark_keeps [OF f, of D]]])
        fix a t assume t: "present t (cidHash c) \<and> gcGrows K D s t"
        have t': "gcSafe K D t" "\<forall>k\<in>insert (cidHash c) M - D. present t k"
          using gcGrows_present [OF conjunct2 [OF t] Cons.prems(1)] Cons.prems(2) t by auto
        show "wp (markPins L K scrub fetch ps F (insert (cidHash c) M)) (\<lambda>e. e \<noteq> NonTermination)
          (\<lambda>(F', M') t. gcSafe K D t \<and> (\<forall>k\<in>M' - D. present t k) \<and> F' = F @ map peCID (filter peRecursive (p # ps)) \<and>
            M' = M \<union> {cidHash c |c. (c, False) \<in> pinSet (p # ps)}) t"
          by (rule wp_mono [OF Cons.IH [OF t']]) (use False Some in auto)
      qed simp
      then show ?thesis using False Some by (simp add: markKey_def)
    qed (use False in simp)
  qed
qed simp

lemma markPins_frontier:
  assumes f: "fetchOptOk L K fetch"
  shows "wp (markPins L K scrub fetch ps F M) (\<lambda>e. e \<noteq> NonTermination) (\<lambda>(F', M') t. F' = F @ map peCID (filter peRecursive ps)) s"
proof (induction ps arbitrary: F M s)
  case (Cons p ps F M s)
  have "wp (retainForMark L K scrub c fetch) (\<lambda>e. e \<noteq> NonTermination) (\<lambda>_. wp (markPins L K scrub fetch ps F M') (\<lambda>e. e \<noteq> NonTermination)
      (\<lambda>(F', M') t. F' = F @ map peCID (filter peRecursive ps))) s" for c M'
    by (rule wp_mono [OF retainForMark_wp [OF f]]) (auto intro: Cons.IH)
  then show ?case using Cons.IH [of "F @ [peCID p]"] by (auto split: option.split)
qed simp

lemma recursive_pins: "Some c \<in> set (map peCID (filter peRecursive ps)) \<longleftrightarrow> (c, True) \<in> pinSet ps"
  by (auto simp: pinSet_def image_iff)

text \<open>What is known of the marks after some groups: they are what the loop leaves.\<close>

definition marksOk :: "('b, 'd) lib \<Rightarrow> 'd mhash set \<Rightarrow> 'd mhash set \<Rightarrow> ('d cid \<times> bool) set \<Rightarrow> 'd mhash set \<times> 'd cid set \<Rightarrow> ('b, 'd) gc \<Rightarrow> bool" where
  "marksOk L D H P r t \<longleftrightarrow> (case r of (M, X) \<Rightarrow> M \<subseteq> H \<and> closedUnder L [] M X \<and> (\<forall>k\<in>M - D. present t k) \<and>
     (\<forall>c. (c, True) \<in> P \<longrightarrow> doneCid M X c) \<and> (\<forall>c. (c, False) \<in> P \<longrightarrow> cidHash c \<in> M))"

lemma closedUnder_weaken: "closedUnder L [] M X \<Longrightarrow> M \<subseteq> M' \<Longrightarrow> closedUnder L F M' X"
  using doneCid_mono [of M X _ M' X] by (fastforce simp: closedUnder_def)

lemma markHead_wp:
  assumes L: "lib_ok L" and f: "fetchOptOk L K (hmFetch g)" and UH: "boundedBy L U H" and s: "gcSafe K D s" "marksOk L D H P (M, X) s"
    and g: "\<And>c. (c, True) \<in> pinSet (hmPins g) \<Longrightarrow> c \<in> U" "\<And>c. (c, False) \<in> pinSet (hmPins g) \<Longrightarrow> cidHash c \<in> H"
  shows "wp (markHead L K scrub n g M X) (\<lambda>_. True) (marksOk L D H (P \<union> pinSet (hmPins g))) s"
proof -
  let ?F = "map peCID (filter peRecursive (hmPins g))" and ?M = "M \<union> {cidHash c |c. (c, False) \<in> pinSet (hmPins g)}"
  have m: "M \<subseteq> H" "closedUnder L [] M X" "\<forall>k\<in>M - D. present s k" using s(2) by (simp_all add: marksOk_def)
  have post: "marksOk L D H (P \<union> pinSet (hmPins g)) r t" if "markPost L D H ?F ?M X r t" for r t
  proof (cases r)
    case (Pair M' X')
    have p: "?M \<subseteq> M'" "X \<subseteq> X'" "M' \<subseteq> H" "closedUnder L [] M' X'" "\<And>c. Some c \<in> set ?F \<Longrightarrow> doneCid M' X' c" "\<forall>k\<in>M' - D. present t k"
      using that unfolding markPost_def Pair by blast+
    have "doneCid M' X' c" if "(c, True) \<in> P" for c
      using that s(2) p(1,2) by (intro doneCid_mono [of M X c M' X']) (auto simp: marksOk_def)
    moreover have "cidHash c \<in> M'" if "(c, False) \<in> P \<union> pinSet (hmPins g)" for c using that s(2) p(1) by (auto simp: marksOk_def)
    ultimately show ?thesis using p(3-6) unfolding marksOk_def Pair recursive_pins by auto
  qed
  have loop: "wp (markLoop L K scrub (hmFetch g) n ?F ?M X) (\<lambda>_. True) (markPost L D H ?F ?M X) t"
    if "gcSafe K D t" "\<forall>k\<in>?M - D. present t k" for t
  proof (rule markLoop_wp [OF L f UH that(1) closedUnder_weaken [OF m(2)] that(2)])
    show "c \<in> U" if "Some c \<in> set ?F" for c using that unfolding recursive_pins by (rule g(1))
  qed (use m(1) g(2) in auto)
  show ?thesis unfolding markHead_def wp_bind
    by (rule wp_mono [OF markPins_wp [OF f s(1) m(3)]]) (auto intro: wp_mono [OF loop] post)
qed

lemma markHead_keeps: "fetchOptOk L K (hmFetch g) \<Longrightarrow> keeps (gcGrows K D) (markHead L K scrub n g M X)"
  unfolding markHead_def by (intro gc_bind markPins_keeps) (auto intro: markLoop_keeps)

definition groupsOk :: "('b, 'd) lib \<Rightarrow> 'd cidLib \<Rightarrow> ('b, 'd) headMark list \<Rightarrow> bool" where
  "groupsOk L K groups \<longleftrightarrow> (\<forall>g\<in>set groups. fetchOptOk L K (hmFetch g))"

lemma markGroups_keeps: "groupsOk L K groups \<Longrightarrow> keeps (gcGrows K D) (markGroups L K scrub n groups M X)"
proof (induction groups arbitrary: M X)
  case (Cons g groups)
  then show ?case unfolding markGroups.simps by (intro gc_bind markHead_keeps) (auto simp: groupsOk_def)
qed (simp add: gc_pure)

lemma markGroups_wp:
  assumes L: "lib_ok L" and UH: "boundedBy L U H"
  shows "groupsOk L K groups \<Longrightarrow> gcSafe K D s \<Longrightarrow> marksOk L D H P (M, X) s \<Longrightarrow>
    (\<And>c. (c, True) \<in> groupPins groups \<Longrightarrow> c \<in> U) \<Longrightarrow> (\<And>c. (c, False) \<in> groupPins groups \<Longrightarrow> cidHash c \<in> H) \<Longrightarrow>
    wp (markGroups L K scrub n groups M X) (\<lambda>_. True) (\<lambda>M' t. gcSafe K D t \<and> (\<exists>X'. marksOk L D H (P \<union> groupPins groups) (M', X') t)) s"
proof (induction groups arbitrary: P M X s)
  case (Cons g groups)
  have f: "fetchOptOk L K (hmFetch g)" using Cons.prems(1) by (simp add: groupsOk_def)
  have head: "wp (markHead L K scrub n g M X) (\<lambda>_. True) (marksOk L D H (P \<union> pinSet (hmPins g))) s"
    by (rule markHead_wp [OF L f UH Cons.prems(2,3)]) (use Cons.prems(4,5) in auto)
  show ?case unfolding markGroups.simps wp_bind
  proof (rule wp_mono [OF wp_conj_keeps [OF head markHead_keeps [OF f, of D]]])
    fix r t assume r: "marksOk L D H (P \<union> pinSet (hmPins g)) r t \<and> gcGrows K D s t"
    obtain M' X' where r': "r = (M', X')" by (cases r)
    have t: "gcSafe K D t" using gcGrows_present(1) [OF conjunct2 [OF r] Cons.prems(2)] .
    have "wp (markGroups L K scrub n groups M' X') (\<lambda>_. True)
        (\<lambda>M' t. gcSafe K D t \<and> (\<exists>X'. marksOk L D H ((P \<union> pinSet (hmPins g)) \<union> groupPins groups) (M', X') t)) t"
      by (rule Cons.IH [OF _ t]) (use Cons.prems r r' in \<open>auto simp: groupsOk_def\<close>)
    then show "wp (case r of (m, x) \<Rightarrow> markGroups L K scrub n groups m x) (\<lambda>_. True)
        (\<lambda>M' t. gcSafe K D t \<and> (\<exists>X'. marksOk L D H (P \<union> groupPins (g # groups)) (M', X') t)) t"
      by (simp add: r' Un_assoc)
  qed simp
qed auto

text \<open>The marks contain what the pins keep alive and, if the pins' keys and reach are bounded, nothing else.\<close>

lemma marksOk_live:
  assumes "marksOk L D H P (M, X) t" shows "liveKeys (shaLink L) P \<subseteq> M"
proof
  fix k assume "k \<in> liveKeys (shaLink L) P"
  then consider c r where "(c, r) \<in> P" "k = cidHash c" | c c' where "(c, True) \<in> P" "(shaLink L)\<^sup>*\<^sup>* c c'" "k = cidHash c'"
    unfolding liveKeys_def by blast
  then show "k \<in> M"
  proof cases
    case 1
    then show ?thesis using assms by (cases r) (auto simp: marksOk_def intro: doneCid_marked)
  next
    case 2
    have "closedUnder L [] M X" "doneCid M X c" using assms 2(1) by (simp_all add: marksOk_def)
    then show ?thesis unfolding 2(3) using doneCid_marked doneCid_reach 2(2) by blast
  qed
qed

lemma boundedBy_live: "boundedBy L {c'. \<exists>c. (c, True) \<in> P \<and> (dagLink L)\<^sup>*\<^sup>* c c'} (liveKeys (dagLink L) P)"
  unfolding boundedBy_def liveKeys_def by (auto intro: rtranclp.rtrancl_into_rtrancl)

lemma mark_wp:
  assumes L: "lib_ok L" and g: "groupsOk L K groups" and s: "gcSafe K D s"
  shows "wp (mark L K scrub n groups) (\<lambda>_. True) (\<lambda>M t. gcSafe K D t \<and> gcGrows K D s t \<and> (\<forall>k\<in>M - D. present t k) \<and>
    liveKeys (shaLink L) (groupPins groups) \<subseteq> M \<and> M \<subseteq> liveKeys (dagLink L) (groupPins groups)) s"
proof -
  have start: "marksOk L D (liveKeys (dagLink L) (groupPins groups)) {} ({}, {}) s" by (simp add: marksOk_def closedUnder_def)
  have "wp (markGroups L K scrub n groups {} {}) (\<lambda>_. True)
      (\<lambda>M t. gcSafe K D t \<and> (\<exists>X. marksOk L D (liveKeys (dagLink L) (groupPins groups)) ({} \<union> groupPins groups) (M, X) t)) s"
    by (rule markGroups_wp [OF L boundedBy_live g s start]) (auto simp: liveKeys_def)
  from wp_conj_keeps [OF this markGroups_keeps [OF g, of D]] show ?thesis unfolding mark_def
    
  proof (rule wp_mono)
    fix M t assume "(gcSafe K D t \<and> (\<exists>X. marksOk L D (liveKeys (dagLink L) (groupPins groups)) ({} \<union> groupPins groups) (M, X) t)) \<and> gcGrows K D s t"
    then obtain X where t: "gcSafe K D t" "gcGrows K D s t" and m: "marksOk L D (liveKeys (dagLink L) (groupPins groups)) (groupPins groups) (M, X) t" by auto
    show "gcSafe K D t \<and> gcGrows K D s t \<and> (\<forall>k\<in>M - D. present t k) \<and>
        liveKeys (shaLink L) (groupPins groups) \<subseteq> M \<and> M \<subseteq> liveKeys (dagLink L) (groupPins groups)"
      using t m marksOk_live [OF m] by (simp add: marksOk_def)
  qed simp
qed

section \<open>Fuel\<close>

text \<open>A finite set of CIDs closed under links, with a bound on the number of links of each.\<close>

definition finiteDag :: "('b, 'd) lib \<Rightarrow> 'd cid set \<Rightarrow> ('d cid \<Rightarrow> nat) \<Rightarrow> bool" where
  "finiteDag L U N \<longleftrightarrow> finite U \<and> (\<forall>c\<in>U. \<forall>b n. cidCodec c = codecDagCBOR \<longrightarrow> prefixSum L (cidPrefix c) b = Some c \<longrightarrow> cborDecode L b = Some n \<longrightarrow>
     length (appendLinks n) \<le> N c \<and> (\<forall>c'. Some c' \<in> set (appendLinks n) \<longrightarrow> c' \<in> U))"

lemma markLoop_fuel:
  assumes f: "fetchOptOk L K fetch" and U: "finiteDag L U N"
  shows "length F + sum N (U - X) \<le> n \<Longrightarrow> (\<And>c. Some c \<in> set F \<Longrightarrow> c \<in> U) \<Longrightarrow>
    wp (markLoop L K scrub fetch n F M X) (\<lambda>e. e \<noteq> NonTermination) (\<lambda>_ _. True) s"
proof (induction n arbitrary: F M X s)
  case (Suc n F M X s)
  show ?case
  proof (cases "\<exists>R c. F = R @ [Some c]")
    case True
    then obtain R c where F: "F = R @ [Some c]" by blast
    have c: "c \<in> U" and RU: "\<And>c. Some c \<in> set R \<Longrightarrow> c \<in> U" using Suc.prems(2) F by auto
    have pop: "wp (markLoop L K scrub fetch n R M' X) (\<lambda>e. e \<noteq> NonTermination) (\<lambda>_ _. True) t" for M' t
      by (rule Suc.IH) (use Suc.prems(1) F RU in auto)
    have push: "wp (markLoop L K scrub fetch n (R @ appendLinks m) M' (insert c X)) (\<lambda>e. e \<noteq> NonTermination) (\<lambda>_ _. True) t"
      if "c \<notin> X" "cidCodec c = codecDagCBOR" "prefixSum L (cidPrefix c) b = Some c" "cborDecode L b = Some m" for M' t b m
    proof (rule Suc.IH)
      have m: "length (appendLinks m) \<le> N c" "\<And>c'. Some c' \<in> set (appendLinks m) \<Longrightarrow> c' \<in> U"
        using U c that unfolding finiteDag_def by blast+
      have "sum N (U - X) = N c + sum N (U - insert c X)"
        using U c that(1) by (subst sum.remove [of _ c]) (auto simp: finiteDag_def intro: arg_cong [of _ _ "sum N"])
      then show "length (R @ appendLinks m) + sum N (U - insert c X) \<le> n" using Suc.prems(1) F m(1) by simp
      show "c' \<in> U" if "Some c' \<in> set (R @ appendLinks m)" for c' using that m(2) RU by auto
    qed
    have raw: "wp (retainForMark L K scrub c fetch) (\<lambda>e. e \<noteq> NonTermination) (\<lambda>_ _. True) s"
      by (rule wp_mono [OF retainForMark_wp [OF f]]) auto
    have node: "wp (links L K scrub c fetch) (\<lambda>e. e \<noteq> NonTermination)
        (\<lambda>kids. wp (markLoop L K scrub fetch n (R @ kids) M' (insert c X)) (\<lambda>e. e \<noteq> NonTermination) (\<lambda>_ _. True)) t"
      if "cidCodec c \<noteq> codecRaw" "c \<notin> X" for M' t
      by (rule wp_mono [OF links_wp [OF f that(1)]]) (auto intro: push [OF that(2)])
    show ?thesis using pop raw node by (cases "cidCodec c = codecRaw") (simp_all add: F Let_def wp_if)
  next
    case False
    then have "F = [] \<or> last F = None" by (metis append_butlast_last_id not_None_eq)
    then show ?thesis by (cases "F = []") auto
  qed
qed simp

lemma markGroups_fuel:
  assumes U: "finiteDag L U N" and fuel: "\<And>g. g \<in> set groups \<Longrightarrow> length (hmPins g) + sum N U \<le> n"
    and g: "groupsOk L K groups" and p: "\<And>c. (c, True) \<in> groupPins groups \<Longrightarrow> c \<in> U"
  shows "wp (markGroups L K scrub n groups M X) (\<lambda>e. e \<noteq> NonTermination) (\<lambda>_ _. True) s"
  using fuel g p
proof (induction groups arbitrary: M X s)
  case (Cons g groups M X s)
  have f: "fetchOptOk L K (hmFetch g)" using Cons.prems(2) by (simp add: groupsOk_def)
  let ?F = "map peCID (filter peRecursive (hmPins g))"
  have "sum N (U - Y) \<le> sum N U" for Y using U by (intro sum_mono2) (auto simp: finiteDag_def)
  moreover have "length ?F \<le> length (hmPins g)" by simp
  ultimately have len: "length ?F + sum N (U - Y) \<le> n" for Y using Cons.prems(1) [of g] by (metis add_mono list.set_intros(1) order_trans)
  have loop: "wp (markLoop L K scrub (hmFetch g) n ?F M' X) (\<lambda>e. e \<noteq> NonTermination) (\<lambda>_ _. True) t" for M' t
  proof (rule markLoop_fuel [OF f U len])
    show "c \<in> U" if "Some c \<in> set ?F" for c using that Cons.prems(3) unfolding recursive_pins by simp
  qed
  have pins: "wp (markPins L K scrub (hmFetch g) (hmPins g) [] M) (\<lambda>e. e \<noteq> NonTermination) (\<lambda>(F, M') t. F = ?F) s"
    using markPins_frontier [OF f, of scrub "hmPins g" "[]" M s] by simp
  have head: "wp (markHead L K scrub n g M X) (\<lambda>e. e \<noteq> NonTermination) (\<lambda>_ _. True) s"
    unfolding markHead_def wp_bind by (rule wp_mono [OF pins]) (auto intro: loop)
  show ?case unfolding markGroups.simps wp_bind
    by (rule wp_mono [OF head]) (use Cons.IH Cons.prems in \<open>auto simp: groupsOk_def\<close>)
qed simp

end
