(* ===== verification/Retention.thy ===== *)
theory Retention
  imports Marking
begin

text \<open>
  What a whole run of the collector does to the block store, for every schedule of the application and every outcome:
  which blocks it keeps and which it removes.
\<close>

section \<open>The sweep during an epoch\<close>

text \<open>From a state in which epoch \<open>a\<close> is active: its record only grows, marked and recorded blocks stay, and a block that
  appears is recorded.\<close>

definition sweeps :: "'d cidLib \<Rightarrow> 'd mhash set \<Rightarrow> 'd mhash set \<Rightarrow> nat \<Rightarrow> ('b, 'd) gc \<Rightarrow> ('b, 'd) gc \<Rightarrow> bool" where
  "sweeps K D M a s t \<longleftrightarrow> (gcSafe K D s \<and> epActive (gcStore s) = Some a \<longrightarrow>
     gcSafe K D t \<and> epActive (gcStore t) = Some a \<and> gcRec t = gcRec s \<and> length (epStates (gcStore t)) = length (epStates (gcStore s)) \<and>
     keysAt (gcStore s) a \<subseteq> keysAt (gcStore t) a \<and>
     (\<forall>k. k \<notin> D \<longrightarrow> present s k \<longrightarrow> k \<in> M \<or> k \<in> keysAt (gcStore s) a \<longrightarrow> present t k) \<and>
     (\<forall>k. \<not> present s k \<longrightarrow> present t k \<longrightarrow> k \<in> keysAt (gcStore t) a))"

lemma sweeps_refl [simp]: "sweeps K D M a s s"
  by (simp add: sweeps_def)

lemma sweeps_trans:
  assumes st: "sweeps K D M a s t" and tu: "sweeps K D M a t u" shows "sweeps K D M a s u"
  unfolding sweeps_def
proof (intro impI)
  assume s: "gcSafe K D s \<and> epActive (gcStore s) = Some a"
  note t = mp [OF st [unfolded sweeps_def] s]
  then have "gcSafe K D t \<and> epActive (gcStore t) = Some a" by blast
  note u = mp [OF tu [unfolded sweeps_def] this]
  have "present u k" if "k \<notin> D" "present s k" "k \<in> M \<or> k \<in> keysAt (gcStore s) a" for k using t u that by blast
  moreover have "k \<in> keysAt (gcStore u) a" if "\<not> present s k" "present u k" for k using t u that by blast
  moreover have "keysAt (gcStore s) a \<subseteq> keysAt (gcStore u) a" using t u by (meson order_trans)
  moreover have "gcRec u = gcRec s" "length (epStates (gcStore u)) = length (epStates (gcStore s))" using t u by simp_all
  ultimately show "gcSafe K D u \<and> epActive (gcStore u) = Some a \<and> gcRec u = gcRec s \<and> length (epStates (gcStore u)) = length (epStates (gcStore s)) \<and>
     keysAt (gcStore s) a \<subseteq> keysAt (gcStore u) a \<and>
     (\<forall>k. k \<notin> D \<longrightarrow> present s k \<longrightarrow> k \<in> M \<or> k \<in> keysAt (gcStore s) a \<longrightarrow> present u k) \<and>
     (\<forall>k. \<not> present s k \<longrightarrow> present u k \<longrightarrow> k \<in> keysAt (gcStore u) a)" using u by blast
qed

lemma transp_sweeps: "transp (sweeps K D M a)"
  using sweeps_trans by (rule transpI)

lemma reflp_sweeps: "reflp (sweeps K D M a)"
  by (simp add: reflp_def)

lemma basePutMany_new: "basePutMany bs input = (r, bs') \<Longrightarrow> contents bs k = None \<Longrightarrow> contents bs' k \<noteq> None \<Longrightarrow> k \<in> cidHash ` fst ` set input"
proof (induction bs input rule: basePutMany.induct)
  case (2 bs c data rest)
  then show ?case by (cases "putFault bs c"; cases "k = cidHash c") (auto simp: basePut_def)
qed simp

lemma runApp_appears:
  assumes inv: "epInv K s" and a: "epActive s = Some a" and k: "contents (epBase s) k = None" "contents (epBase (runApp L K x s)) k \<noteq> None"
  shows "k \<in> keysAt (runApp L K x s) a"
proof -
  have len: "a < length (epStates s)" using inv a by (simp add: epInv_def)
  have "k \<in> appTouches L (epBase s) x"
    using k by (cases x) (auto simp: app_defs Let_def basePut_def baseDelete_def dest: basePutMany_new
      split: sum.splits prod.splits option.splits if_splits)
  then show ?thesis using runApp_keys [OF inv len] a by simp
qed

lemma runApps_appear:
  "epInv K s \<Longrightarrow> epActive s = Some a \<Longrightarrow> contents (epBase s) k = None \<Longrightarrow> contents (epBase (foldl (\<lambda>t a. runApp L K a t) s acts)) k \<noteq> None \<Longrightarrow>
    k \<in> keysAt (foldl (\<lambda>t a. runApp L K a t) s acts) a"
proof (induction acts arbitrary: s)
  case (Cons x acts)
  have inv: "epInv K (runApp L K x s)" and act: "epActive (runApp L K x s) = Some a" using Cons.prems runApp_inv by auto
  show ?case
  proof (cases "contents (epBase (runApp L K x s)) k = None")
    case True
    then show ?thesis using Cons.IH [OF inv act] Cons.prems(4) by simp
  next
    case False
    have "k \<in> keysAt (runApp L K x s) a" by (rule runApp_appears [OF Cons.prems(1-3) False])
    moreover have "storeGrows UNIV (runApp L K x s) (foldl (\<lambda>t a. runApp L K a t) (runApp L K x s) acts)" using runApps_grow [OF inv] by simp
    moreover have "a < length (epStates (runApp L K x s))" using inv act by (simp add: epInv_def)
    ultimately show ?thesis by (auto simp: storeGrows_def)
  qed
qed simp

lemma tick_sweeps:
  fixes L :: "('b, 'd) lib"
  shows "keeps (sweeps K D M a) (tick L K)"
proof (rule keepsI)
  fix s :: "('b, 'd) gc" and r t assume run: "tick L K s = (r, t)"
  have g: "gcGrows K D s t" using tick_keeps run by (rule keepsD)
  show "sweeps K D M a s t" unfolding sweeps_def
  proof (intro impI)
    assume s: "gcSafe K D s \<and> epActive (gcStore s) = Some a"
    then have len: "a < length (epStates (gcStore s))" by (simp add: gcSafe_def epInv_def)
    have grow: "gcSafe K D t" "storeGrows D (gcStore s) (gcStore t)" "gcRec t = gcRec s" using g s by (simp_all add: gcGrows_def)
    obtain acts where acts: "gcStore t = foldl (\<lambda>t a. runApp L K a t) (gcStore s) acts"
      using run by (cases "gcSchedule s") (auto simp: tick_def split: prod.splits intro: that [of "[]"])
    have "k \<in> keysAt (gcStore t) a" if "\<not> present s k" "present t k" for k
      unfolding acts by (rule runApps_appear) (use s that in \<open>auto simp: gcSafe_def present_def acts\<close>)
    then show "gcSafe K D t \<and> epActive (gcStore t) = Some a \<and> gcRec t = gcRec s \<and> length (epStates (gcStore t)) = length (epStates (gcStore s)) \<and>
      keysAt (gcStore s) a \<subseteq> keysAt (gcStore t) a \<and>
      (\<forall>k. k \<notin> D \<longrightarrow> present s k \<longrightarrow> k \<in> M \<or> k \<in> keysAt (gcStore s) a \<longrightarrow> present t k) \<and>
      (\<forall>k. \<not> present s k \<longrightarrow> present t k \<longrightarrow> k \<in> keysAt (gcStore t) a)"
      using s grow len unfolding storeGrows_def present_def by simp
  qed
qed

lemma DeleteCandidate_sweeps:
  assumes c: "cidHash c \<notin> M" and run: "DeleteCandidate K epoch c (gcStore s) = (r, st)"
  shows "sweeps K D M a s (s\<lparr>gcStore := st\<rparr>)"
  unfolding sweeps_def
proof (intro impI)
  let ?t = "s\<lparr>gcStore := st\<rparr>"
  assume s: "gcSafe K D s \<and> epActive (gcStore s) = Some a"
  then have inv: "epInv K (gcStore s)" and a: "epActive (gcStore s) = Some a" by (simp_all add: gcSafe_def)
  have st: "st = snd (DeleteCandidate K epoch c (gcStore s))" using run by simp
  have frame: "epActive st = Some a" "epStates st = epStates (gcStore s)" "epNextID st = epNextID (gcStore s)" using a by (simp_all add: st)
  have keys: "keysAt st a = keysAt (gcStore s) a" by (simp add: keysAt_def frame)
  have "epInv K st" using epDo_inv [OF inv, of undefined "SDelete epoch c"] by (simp add: st)
  then have safe: "gcSafe K D ?t" using s by (simp add: gcSafe_def schedDeletes_def)
  have other: "contents (epBase st) k = contents (epBase (gcStore s)) k \<or> (k = cidHash c \<and> contents (epBase st) k = None)" for k
    using run by (auto simp: DeleteCandidate_def baseDelete_def Let_def split: if_splits prod.splits sum.splits)
  have "present ?t k" if "present s k" "k \<in> M \<or> k \<in> keysAt (gcStore s) a" for k
    using that other [of k] c DeleteCandidate_protected [OF inv a, of k epoch c] by (auto simp: present_def st)
  moreover have "\<not> present ?t k" if "\<not> present s k" for k using that other [of k] by (auto simp: present_def)
  ultimately show "gcSafe K D ?t \<and> epActive (gcStore ?t) = Some a \<and> gcRec ?t = gcRec s \<and> length (epStates (gcStore ?t)) = length (epStates (gcStore s)) \<and>
      keysAt (gcStore s) a \<subseteq> keysAt (gcStore ?t) a \<and>
      (\<forall>k. k \<notin> D \<longrightarrow> present s k \<longrightarrow> k \<in> M \<or> k \<in> keysAt (gcStore s) a \<longrightarrow> present ?t k) \<and>
      (\<forall>k. \<not> present s k \<longrightarrow> present ?t k \<longrightarrow> k \<in> keysAt (gcStore ?t) a)"
    using safe frame keys by simp
qed

text \<open>After a successful sweep a key that was enumerated is marked, recorded or gone.\<close>

definition swept :: "'d mhash set \<Rightarrow> nat \<Rightarrow> ('b, 'd) gc \<Rightarrow> 'd mhash \<Rightarrow> bool" where
  "swept M a t k \<longleftrightarrow> k \<in> M \<or> k \<in> keysAt (gcStore t) a \<or> \<not> present t k"

lemma swept_sweeps: "swept M a s k \<Longrightarrow> sweeps K D M a s t \<Longrightarrow> gcSafe K D s \<Longrightarrow> epActive (gcStore s) = Some a \<Longrightarrow> swept M a t k"
  unfolding swept_def sweeps_def by blast

lemma DeleteCandidate_swept:
  assumes "gcSafe K D s" "epActive (gcStore s) = Some a" "DeleteCandidate K epoch c (gcStore s) = (Inr x, st)"
  shows "swept M a (s\<lparr>gcStore := st\<rparr>) (cidHash c)"
proof -
  have "stateInv K (epStates (gcStore s) ! a)" using assms(1,2) by (simp add: gcSafe_def epInv_def)
  then show ?thesis using assms(2,3)
    by (auto simp: swept_def DeleteCandidate_def Let_def multihashKey_def keysAt_def stateInv_mem baseDelete_def present_def
      split: if_splits prod.splits sum.splits)
qed

lemma sweepOnlineLoop_run:
  "sweepOnlineLoop L K epoch M evs stats s = (r, t) \<Longrightarrow> sweeps K D M a s t \<and> (\<exists>st e. r = Inr (st, e) \<and>
    (e = None \<longrightarrow> gcSafe K D s \<longrightarrow> epActive (gcStore s) = Some a \<longrightarrow> (\<forall>c. EKey c \<in> set evs \<longrightarrow> swept M a t (cidHash c))))"
proof (induction evs arbitrary: stats s)
  case Nil
  then show ?case by (auto simp: attempt_def gcCtx_def bind_def split: if_splits)
next
  case (Cons ev evs)
  show ?case
  proof (cases ev)
    case (EKey c)
    show ?thesis
    proof (cases "cidHash c \<in> M")
      case True
      then show ?thesis using Cons.IH [of _ s] Cons.prems EKey by (auto simp: markKey_def Let_def swept_def)
    next
      case False
      obtain u where u: "tick L K s = (Inr (), u)" using tick_Inr by blast
      have su: "sweeps K D M a s u" using tick_sweeps u by (rule keepsD)
      obtain d st where d: "DeleteCandidate K epoch c (gcStore u) = (d, st)" by fastforce
      let ?v = "u\<lparr>gcStore := st\<rparr>"
      have sv: "sweeps K D M a s ?v" by (rule sweeps_trans [OF su DeleteCandidate_sweeps [OF False d]])
      show ?thesis
      proof (cases d)
        case (Inl e)
        then have "r = Inr (stats\<lparr>gsScanned := gsScanned stats + 1\<rparr>, Some e)" "t = ?v"
          using Cons.prems EKey False u d by (auto simp: markKey_def Let_def)
        with sv show ?thesis by simp
      next
        case (Inr x)
        then obtain stats' where rest: "sweepOnlineLoop L K epoch M evs stats' ?v = (r, t)"
          using Cons.prems EKey False u d by (cases x) (auto simp: markKey_def Let_def)
        note ih = Cons.IH [OF rest]
        have "swept M a t (cidHash c)" if s: "gcSafe K D s" "epActive (gcStore s) = Some a"
        proof -
          have ua: "gcSafe K D u" "epActive (gcStore u) = Some a" using su s by (simp_all add: sweeps_def)
          have va: "gcSafe K D ?v" "epActive (gcStore ?v) = Some a" using sv s by (simp_all add: sweeps_def)
          show ?thesis by (rule swept_sweeps [OF DeleteCandidate_swept [OF ua d [unfolded Inr]] conjunct1 [OF ih] va])
        qed
        then show ?thesis using ih sv sweeps_trans [OF sv conjunct1 [OF ih]] EKey by (auto simp: sweeps_def)
      qed
    qed
  qed (use Cons.prems in auto)
qed

lemma sweepOnline_run:
  assumes "sweepOnline L K epoch M events s = (r, t)"
  shows "sweeps K D M a s t \<and> (\<exists>st e. r = Inr (st, e) \<and>
    (e = None \<longrightarrow> gcSafe K D s \<longrightarrow> epActive (gcStore s) = Some a \<longrightarrow> (\<exists>evs. events = Inr evs \<and> (\<forall>c. EKey c \<in> set evs \<longrightarrow> swept M a t (cidHash c)))))"
proof (cases events)
  case (Inr evs)
  with assms have "sweepOnlineLoop L K epoch M evs zeroGCStats s = (r, t)" by (simp add: sweepOnline_def)
  from sweepOnlineLoop_run [OF this, of D a] show ?thesis using Inr by auto
qed (use assms in \<open>auto simp: sweepOnline_def\<close>)

section \<open>The sweep without epochs\<close>

definition sweepsOff :: "'d mhash set \<Rightarrow> 'd cid list \<Rightarrow> ('b, 'd) gc \<Rightarrow> ('b, 'd) gc \<Rightarrow> bool" where
  "sweepsOff M ks s t \<longleftrightarrow> gcRec t = gcRec s \<and> (\<forall>k. present t k \<longrightarrow> present s k) \<and>
     (\<forall>k. present s k \<longrightarrow> k \<in> M \<or> k \<notin> cidHash ` set ks \<longrightarrow> present t k)"

lemma sweepsOff_refl [simp]: "sweepsOff M ks s s"
  by (simp add: sweepsOff_def)

lemma sweepsOff_live: "sweepsOff M ks s t \<Longrightarrow> sweepsOff M (c # ks) s t"
  unfolding sweepsOff_def list.set image_insert insert_iff by blast

lemma sweepsOff_delete:
  assumes "sweepsOff M ks u t" "gcRec u = gcRec s" "\<And>k. present u k \<Longrightarrow> present s k" "\<And>k. present s k \<Longrightarrow> k \<noteq> cidHash c \<Longrightarrow> present u k" "cidHash c \<notin> M"
  shows "sweepsOff M (c # ks) s t"
proof -
  have "present t k" if "present s k" "k \<in> M \<or> k \<notin> cidHash ` set (c # ks)" for k
  proof -
    have "k \<noteq> cidHash c" "k \<in> M \<or> k \<notin> cidHash ` set ks" using that(2) assms(5) by auto
    with that(1) assms(1,4) show ?thesis unfolding sweepsOff_def by blast
  qed
  moreover have "present s k" if "present t k" for k using that assms(1,3) unfolding sweepsOff_def by blast
  ultimately show ?thesis using assms(1,2) unfolding sweepsOff_def by metis
qed

lemma sweepLoop_Cons:
  assumes "gcSchedule s = []" "\<not> gcCancelled s" "cidHash c \<notin> M" "baseDelete (epBase (gcStore s)) c = (d, bs)"
  shows "sweepLoop L K M (c # ks) stats s = (let stats' = stats\<lparr>gsScanned := gsScanned stats + 1\<rparr>; u = s\<lparr>gcStore := (gcStore s)\<lparr>epBase := bs\<rparr>\<rparr> in
    case d of Inl e \<Rightarrow> (Inr (stats', Some e), u) | Inr _ \<Rightarrow> sweepLoop L K M ks (stats'\<lparr>gsSwept := gsSwept stats' + 1\<rparr>) u)"
  using assms by (simp add: attempt_def gcCtx_def bind_def markKey_def Let_def tick_def split: sum.split)

lemma sweepLoop_run:
  "gcSchedule s = [] \<Longrightarrow> sweepLoop L K M ks stats s = (r, t) \<Longrightarrow> sweepsOff M ks s t \<and>
    (\<exists>st e. r = Inr (st, e) \<and> (e = None \<longrightarrow> (\<forall>c\<in>set ks. cidHash c \<in> M \<or> \<not> present t (cidHash c))))"
proof (induction ks arbitrary: stats s)
  case Nil
  then show ?case by (auto simp: attempt_def gcCtx_def bind_def split: if_splits)
next
  case (Cons c ks)
  show ?case
  proof (cases "gcCancelled s \<or> cidHash c \<in> M")
    case True
    then consider "gcCancelled s" | "\<not> gcCancelled s" "cidHash c \<in> M" by blast
    then show ?thesis
    proof cases
      case 1
      then have "t = s" "\<exists>e. r = Inr (stats, Some e)" using Cons.prems by (auto simp: attempt_def gcCtx_def bind_def)
      then show ?thesis by auto
    next
      case 2
      then have "sweepLoop L K M ks (stats\<lparr>gsScanned := gsScanned stats + 1\<rparr>) s = (r, t)"
        using Cons.prems by (simp add: attempt_def gcCtx_def bind_def markKey_def Let_def)
      from Cons.IH [OF Cons.prems(1) this] 2 show ?thesis by (auto intro: sweepsOff_live)
    qed
  next
    case False
    obtain d bs where d: "baseDelete (epBase (gcStore s)) c = (d, bs)" by fastforce
    let ?u = "s\<lparr>gcStore := (gcStore s)\<lparr>epBase := bs\<rparr>\<rparr>"
    have u: "\<And>k. present ?u k \<Longrightarrow> present s k" "\<And>k. present s k \<Longrightarrow> k \<noteq> cidHash c \<Longrightarrow> present ?u k" "d = Inr () \<Longrightarrow> \<not> present ?u (cidHash c)"
      using d by (auto simp: present_def baseDelete_def split: if_splits)
    have run: "(let stats' = stats\<lparr>gsScanned := gsScanned stats + 1\<rparr> in
      case d of Inl e \<Rightarrow> (Inr (stats', Some e), ?u) | Inr _ \<Rightarrow> sweepLoop L K M ks (stats'\<lparr>gsSwept := gsSwept stats' + 1\<rparr>) ?u) = (r, t)"
      using Cons.prems(2) sweepLoop_Cons [OF Cons.prems(1) _ _ d, of M L K ks stats] False by (simp only: Let_def de_Morgan_disj simp_thms)
    have off: "sweepsOff M (c # ks) s t'" if "sweepsOff M ks ?u t'" for t'
      by (rule sweepsOff_delete [OF that _ u(1,2)]) (use False in simp_all)
    show ?thesis
    proof (cases d)
      case (Inl e)
      then have "t = ?u" "\<exists>st. r = Inr (st, Some e)" using run by (auto simp: Let_def)
      then show ?thesis using off [of ?u] by auto
    next
      case (Inr x)
      then obtain stats' where rest: "sweepLoop L K M ks stats' ?u = (r, t)" using run by (simp add: Let_def)
      have "gcSchedule ?u = []" using Cons.prems(1) by simp
      note ih = Cons.IH [OF this rest]
      have "\<not> present t (cidHash c)" using ih u(3) Inr unfolding sweepsOff_def by (metis old.unit.exhaust)
      with ih off show ?thesis by auto
    qed
  qed
qed

section \<open>The pins of a run\<close>

text \<open>The pins in the ledger that a run retains: those of the registered names and, where staging is configured, the staged
  ones.\<close>

definition ledgerPins :: "'d cidLib \<Rightarrow> ('b, 'd) gcConfig \<Rightarrow> ('b, 'd) reconciler \<Rightarrow> ('d cid \<times> bool) set" where
  "ledgerPins K cfg rc = {(c, r). \<exists>h p x. ledgerOf K (rcKv rc) (h, p, c) = Some (r, x) \<and>
     (h \<in> set (rcNames rc) \<or> stagingClock cfg \<noteq> None \<and> h = StagingHead)}"

text \<open>The fetchers the program configures: fetching block stores over an exchange.\<close>

definition cfgOk :: "('b, 'd) lib \<Rightarrow> 'd cidLib \<Rightarrow> ('b, 'd) gcConfig \<Rightarrow> bool" where
  "cfgOk L K cfg \<longleftrightarrow> (\<forall>ff name f. fetchFor cfg = Some ff \<longrightarrow> ff name = Some f \<longrightarrow> (\<exists>net. netOk L net \<and> f = fetchingGet L K net))"

text \<open>A step that changes the ledger's file only.\<close>

definition kvOnly :: "'d cidLib \<Rightarrow> ('b, 'd) gc \<Rightarrow> ('b, 'd) gc \<Rightarrow> bool" where
  "kvOnly K s t \<longleftrightarrow> gcStore t = gcStore s \<and> gcSchedule t = gcSchedule s \<and> gcCancelled t = gcCancelled s \<and> rcNames (gcRec t) = rcNames (gcRec s) \<and>
     rcHeads (gcRec t) = rcHeads (gcRec s) \<and> (kvInv K (gcRec s) \<longrightarrow> kvInv K (gcRec t))"

lemma kvOnly_trans: "kvOnly K s t \<Longrightarrow> kvOnly K t u \<Longrightarrow> kvOnly K s u"
  by (simp add: kvOnly_def)

lemma kvOnly_refl [simp]: "kvOnly K s s"
  by (simp add: kvOnly_def)

lemma onKv_run: "onRec (onKv m) s = (r, t) \<Longrightarrow> \<exists>kv. m (rcKv (gcRec s)) = (r, kv) \<and> t = s\<lparr>gcRec := (gcRec s)\<lparr>rcKv := kv\<rparr>\<rparr>"
  by (auto simp: onRec_def onKv_def split: prod.splits)

definition rowsOf :: "'d cidLib \<Rightarrow> ('b, 'd) gc \<Rightarrow> string \<Rightarrow> ('d cid \<times> bool) set" where
  "rowsOf K s h = {(c, r). \<exists>p x. ledgerOf K (rcKv (gcRec s)) (h, p, c) = Some (r, x)}"

lemma listsPins_pinSet:
  assumes "listsPins K h es m" shows "pinSet es = {(c, r). \<exists>p x. m (h, p, c) = Some (r, x)}"
proof -
  have "(c, r) \<in> pinSet es \<longleftrightarrow> (\<exists>p x. m (h, p, c) = Some (r, x))" for c r
  proof
    assume "(c, r) \<in> pinSet es"
    then obtain e where "e \<in> set es" "peCID e = Some c" "peRecursive e = r" by (auto simp: pinSet_def)
    with listsPins_mem [OF assms this(1)] show "\<exists>p x. m (h, p, c) = Some (r, x)" by auto
  next
    assume "\<exists>p x. m (h, p, c) = Some (r, x)"
    then obtain p x where "\<lparr>pePurpose = p, peCID = Some c, peRecursive = r, peExpiry = x\<rparr> \<in> set es" using assms by (auto simp: listsPins_def)
    then show "(c, r) \<in> pinSet es" by (force simp: pinSet_def)
  qed
  then show ?thesis by auto
qed

lemma ListAll_gc:
  assumes run: "onRec (onKv (ListAll K h)) s = (r, t)"
  shows "kvOnly K s t \<and> (kvInv K (gcRec s) \<longrightarrow> ledgerOf K (rcKv (gcRec t)) = ledgerOf K (rcKv (gcRec s)) \<and>
    rowsOf K t = rowsOf K s \<and> (\<forall>es. r = Inr es \<longrightarrow> pinSet es = rowsOf K s h))"
proof -
  obtain kv where kv: "ListAll K h (rcKv (gcRec s)) = (r, kv)" "t = s\<lparr>gcRec := (gcRec s)\<lparr>rcKv := kv\<rparr>\<rparr>" using onKv_run [OF run] by blast
  have "kvInv K (gcRec t) \<and> ledgerOf K kv = ledgerOf K (rcKv (gcRec s)) \<and> (\<forall>es. r = Inr es \<longrightarrow> listsPins K h es (ledgerOf K (rcKv (gcRec s))))"
    if "kvInv K (gcRec s)"
  proof -
    have K: "cidLib_ok K" and wf: "kvWf K (rcKv (gcRec s))" using that by (simp_all add: kvInv_def)
    note l = ListAll_spec [OF K wf, of h, unfolded kv(1)]
    then have "sameRows (rcKv (gcRec s)) kv" by (cases r) simp_all
    from sameRows_abs [OF this, of K] l K wf show ?thesis by (cases r) (simp_all add: kvInv_def kv(2))
  qed
  moreover from this have "rowsOf K t = rowsOf K s" if "kvInv K (gcRec s)" using that by (simp add: rowsOf_def fun_eq_iff kv(2))
  moreover from calculation(1) have "pinSet es = rowsOf K s h" if "kvInv K (gcRec s)" "r = Inr es" for es
    using listsPins_pinSet [of K h es "ledgerOf K (rcKv (gcRec s))"] that by (simp add: rowsOf_def)
  ultimately show ?thesis by (simp add: kvOnly_def kv(2))
qed

lemma groupPins_append [simp]: "groupPins (xs @ ys) = groupPins xs \<union> groupPins ys"
  by (auto simp: groupPins_def)

definition fetchIn :: "(string \<Rightarrow> ('b, 'd) fetcher option) option \<Rightarrow> ('b, 'd) headMark \<Rightarrow> bool" where
  "fetchIn ff g \<longleftrightarrow> (\<forall>f. hmFetch g = Some f \<longrightarrow> (\<exists>h n. ff = Some h \<and> h n = Some f))"

lemma pinsLoop_run:
  "pinsLoop K ff names w fo tot s = (r, t) \<Longrightarrow> kvOnly K s t \<and> (kvInv K (gcRec s) \<longrightarrow> rowsOf K t = rowsOf K s \<and>
    (\<forall>groups n. r = Inr (groups, n) \<longrightarrow> groupPins groups = groupPins w \<union> groupPins fo \<union> (\<Union>h\<in>set names. rowsOf K s h) \<and>
      ((\<forall>g\<in>set (w @ fo). fetchIn ff g) \<longrightarrow> (\<forall>g\<in>set groups. fetchIn ff g))))"
proof (induction names arbitrary: w fo tot s)
  case Nil
  then show ?case by auto
next
  case (Cons name names)
  obtain r1 u where l: "onRec (onKv (ListAll K name)) s = (r1, u)" by fastforce
  note ls = ListAll_gc [OF l]
  show ?case
  proof (cases r1)
    case (Inl e)
    then have "r = Inl e" "t = u" using Cons.prems l by simp_all
    then show ?thesis using ls by simp
  next
    case (Inr es)
    let ?g = "\<lparr>hmHead = name, hmFetch = (case ff of None \<Rightarrow> None | Some f \<Rightarrow> f name), hmPins = es\<rparr>"
    have g: "fetchIn ff ?g" by (auto simp: fetchIn_def split: option.splits)
    have pins: "pinSet es = rowsOf K s name" "rowsOf K u = rowsOf K s" if "kvInv K (gcRec s)"
      using ls that Inr by simp_all
    obtain w' fo' where rest: "pinsLoop K ff names w' fo' (tot + length es) u = (r, t)"
      and wf: "w' = w @ [?g] \<and> fo' = fo \<or> w' = w \<and> fo' = fo @ [?g]"
      using Cons.prems l Inr by (auto simp: Let_def split: if_splits)
    have gp: "groupPins w' \<union> groupPins fo' = groupPins w \<union> groupPins fo \<union> pinSet es" "(\<forall>g\<in>set (w @ fo). fetchIn ff g) \<Longrightarrow> (\<forall>g\<in>set (w' @ fo'). fetchIn ff g)"
      using wf g by auto
    note ih = Cons.IH [OF rest]
    have "kvOnly K s t" by (rule kvOnly_trans [OF conjunct1 [OF ls] conjunct1 [OF ih]])
    moreover have "rowsOf K t = rowsOf K s \<and>
      (\<forall>groups n. r = Inr (groups, n) \<longrightarrow> groupPins groups = groupPins w \<union> groupPins fo \<union> (\<Union>h\<in>set (name # names). rowsOf K s h) \<and>
      ((\<forall>g\<in>set (w @ fo). fetchIn ff g) \<longrightarrow> (\<forall>g\<in>set groups. fetchIn ff g)))" if k: "kvInv K (gcRec s)"
    proof -
      have "kvInv K (gcRec u)" using ls k by (simp add: kvOnly_def)
      with ih have ih': "rowsOf K t = rowsOf K u" "\<And>groups n. r = Inr (groups, n) \<Longrightarrow> groupPins groups = groupPins w' \<union> groupPins fo' \<union> (\<Union>h\<in>set names. rowsOf K u h) \<and>
        ((\<forall>g\<in>set (w' @ fo'). fetchIn ff g) \<longrightarrow> (\<forall>g\<in>set groups. fetchIn ff g))" by blast+
      show ?thesis
      proof (intro conjI allI impI)
        fix groups n assume r: "r = Inr (groups, n)"
        show "groupPins groups = groupPins w \<union> groupPins fo \<union> (\<Union>h\<in>set (name # names). rowsOf K s h)"
          using ih'(2) [OF r] gp(1) pins [OF k] by auto
        show "\<forall>g\<in>set groups. fetchIn ff g" if "\<forall>g\<in>set (w @ fo). fetchIn ff g" using ih'(2) [OF r] gp(2) [OF that] by blast
      qed (simp add: ih'(1) pins(2) [OF k])
    qed
    ultimately show ?thesis by blast
  qed
qed

lemma gcPins_run:
  assumes run: "gcPins K cfg s = (r, t)"
  shows "kvOnly K s t \<and> (kvInv K (gcRec s) \<longrightarrow> rowsOf K t = rowsOf K s \<and>
    (\<forall>groups x. r = Inr (groups, x) \<longrightarrow> groupPins groups = ledgerPins K cfg (gcRec t) \<and> (\<forall>g\<in>set groups. fetchIn (fetchFor cfg) g)))"
proof -
  obtain r1 u where p: "pinsLoop K (fetchFor cfg) (rcNames (gcRec s)) [] [] 0 s = (r1, u)" by fastforce
  note pl = pinsLoop_run [OF p]
  have live: "ledgerPins K cfg (gcRec v) = (\<Union>h\<in>set (rcNames (gcRec s)). rowsOf K s h) \<union> (if stagingClock cfg = None then {} else rowsOf K s StagingHead)"
    if "rowsOf K v = rowsOf K s" "rcNames (gcRec v) = rcNames (gcRec s)" for v
  proof -
    have "ledgerPins K cfg (gcRec v) = (\<Union>h\<in>set (rcNames (gcRec v)). rowsOf K v h) \<union> (if stagingClock cfg = None then {} else rowsOf K v StagingHead)"
      by (auto simp: ledgerPins_def rowsOf_def)
    then show ?thesis by (simp only: that)
  qed
  show ?thesis
  proof (cases r1)
    case (Inl e)
    then have "r = Inl e" "t = u" using run p by (simp_all add: gcPins_def bind_def)
    then show ?thesis using pl by auto
  next
    case (Inr x)
    obtain groups n where x: "x = (groups, n)" by (cases x)
    show ?thesis
    proof (cases "stagingClock cfg = None")
      case True
      then have rt: "r = Inr (groups, n, 0)" "t = u" using run p Inr x by (simp_all add: gcPins_def bind_def)
      have "rcNames (gcRec u) = rcNames (gcRec s)" using pl by (simp add: kvOnly_def)
      then show ?thesis using pl Inr x live [of u] True by (simp add: rt)
    next
      case False
      obtain r2 v where l: "onRec (onKv (ListAll K StagingHead)) u = (r2, v)" by fastforce
      note ls = ListAll_gc [OF l]
      have tv: "t = v" and r: "r = map_sum id (\<lambda>es. (groups @ [\<lparr>hmHead = StagingHead, hmFetch = None, hmPins = es\<rparr>], n + length es, length es)) r2"
        using run p Inr x False l by (auto simp: gcPins_def bind_def StagingList_def split: sum.splits)
      have kv: "kvOnly K s t" unfolding tv by (rule kvOnly_trans [OF conjunct1 [OF pl] conjunct1 [OF ls]])
      have "rowsOf K t = rowsOf K s \<and> (\<forall>groups x. r = Inr (groups, x) \<longrightarrow> groupPins groups = ledgerPins K cfg (gcRec t) \<and> (\<forall>g\<in>set groups. fetchIn (fetchFor cfg) g))"
        if k: "kvInv K (gcRec s)"
      proof -
        have ku: "kvInv K (gcRec u)" and us: "rowsOf K u = rowsOf K s" using pl k by (simp_all add: kvOnly_def)
        have ts: "rowsOf K t = rowsOf K s" using ls ku us tv by simp
        have es: "pinSet es = rowsOf K s StagingHead" if "r2 = Inr es" for es
          using ls ku that us by simp
        have g: "groupPins groups = (\<Union>h\<in>set (rcNames (gcRec s)). rowsOf K s h)" "\<forall>g\<in>set groups. fetchIn (fetchFor cfg) g" using pl k Inr x by simp_all
        have "rcNames (gcRec t) = rcNames (gcRec s)" using kv by (simp add: kvOnly_def)
        note lv = live [OF ts this]
        show ?thesis
        proof (cases r2)
          case (Inr es')
          then show ?thesis using ts es [OF Inr] g lv False by (simp add: r fetchIn_def Un_commute)
        qed (simp add: r ts)
      qed
      with kv show ?thesis by blast
    qed
  qed
qed

section \<open>Before the epoch\<close>

text \<open>The pass over the registered names. \<open>Others\<close>' rows and registrations are left alone.\<close>

lemma onKv_heads: "onKv m s = (r, t) \<Longrightarrow> rcHeads t = rcHeads s \<and> rcNames t = rcNames s"
  by (auto simp: onKv_def split: prod.splits)

definition sameHeads :: "('b, 'd) reconciler \<Rightarrow> ('b, 'd) reconciler \<Rightarrow> bool" where
  "sameHeads s t \<longleftrightarrow> rcHeads t = rcHeads s \<and> rcNames t = rcNames s"

lemma onKv_sameHeads: "keeps sameHeads (onKv m)"
  by (rule keepsI) (simp add: sameHeads_def onKv_heads)

lemma sameHeads_preorder: "reflp sameHeads" "transp sameHeads"
  by (auto simp: reflp_def transp_def sameHeads_def)

lemma addPins_keeps: "(\<And>p c r. keeps sameHeads (add p c r)) \<Longrightarrow> keeps sameHeads (addPins add ps n)"
  by (induction ps arbitrary: n) (auto intro!: keeps_bind keeps_pure sameHeads_preorder)

lemma removePins_keeps: "(\<And>p c. keeps sameHeads (remove p c)) \<Longrightarrow> keeps sameHeads (removePins remove ps n)"
  by (induction ps arbitrary: n) (auto intro!: keeps_bind keeps_pure sameHeads_preorder)

lemma syncPins_heads:
  "keeps sameHeads (syncPins K (\<lambda>h p c r. onKv (Add K h p c r)) (\<lambda>h p c. onKv (Remove K h p c)) (\<lambda>h. onKv (ListAll K h)) name desired)"
  unfolding syncPins_def
  by (intro keeps_bind [OF sameHeads_preorder(2)] onKv_sameHeads)
    (auto intro!: keeps_bind keeps_pure sameHeads_preorder addPins_keeps removePins_keeps onKv_sameHeads split: prod.split)

text \<open>A registered name: it is among the names.\<close>

definition regWf :: "('b, 'd) reconciler \<Rightarrow> bool" where
  "regWf s \<longleftrightarrow> rcNames s = sort (map fst (rcHeads s)) \<and> distinct (map fst (rcHeads s))"

definition passes :: "string \<Rightarrow> ('b, 'd) reconciler \<Rightarrow> ('b, 'd) reconciler \<Rightarrow> bool" where
  "passes name s t \<longleftrightarrow> (\<forall>n. n \<noteq> name \<longrightarrow> map_of (rcHeads t) n = map_of (rcHeads s) n) \<and>
    (\<forall>e. map_of (rcHeads s) name = Some e \<longrightarrow> \<not> reWithdrawal e \<longrightarrow> map_of (rcHeads t) name \<noteq> None) \<and> (regWf s \<longrightarrow> regWf t)"

lemma passes_refl [simp]: "passes name s s"
  by (auto simp: passes_def)

lemma desiredPins_heads:
  "desiredPins L g g' tip name e s = (r, t) \<Longrightarrow> t = s \<or> (\<exists>h. t = setEntry name (e\<lparr>reHead := h\<rparr>) s)"
  by (auto simp: desiredPins_def enumerateHead_def bind_def split: if_splits sum.splits prod.splits option.splits)

lemma setEntry_passes: "map_of (rcHeads s) name = Some e \<Longrightarrow> passes name s (setEntry name e' s)"
  by (auto simp: passes_def setEntry_def update_conv' regWf_def update_keys map_of_eq_None_iff dest: map_of_SomeD)
    (metis image_eqI fst_conv map_of_SomeD)+

lemma regWf_dropTombstone: "regWf s \<Longrightarrow> regWf (dropTombstone name s)"
  by (auto simp: dropTombstone_def sortNames_def regWf_def distinct_delete split: option.split)

lemma dropTombstone_heads: "n \<noteq> name \<Longrightarrow> map_of (rcHeads (dropTombstone name s)) n = map_of (rcHeads s) n"
  by (auto simp: dropTombstone_def sortNames_def delete_conv' split: option.split)

lemma reconcileHead_heads:
  assumes run: "reconcileHead L K g g' tip id name s = (r, t)"
  shows "passes name s t"
proof (cases "map_of (rcHeads s) name")
  case None
  then show ?thesis using run by (simp add: reconcileHead_def)
next
  case (Some e)
  let ?sync = "syncPins K (\<lambda>h p c r. onKv (Add K h p c r)) (\<lambda>h p c. onKv (Remove K h p c)) (\<lambda>h. onKv (ListAll K h)) name"
  obtain r1 u where d: "desiredPins L g g' tip name e s = (r1, u)" by fastforce
  have su: "passes name s u" using desiredPins_heads [OF d] setEntry_passes [OF Some] by auto
  show ?thesis
  proof (cases r1)
    case (Inl x)
    then show ?thesis using run d su Some by (auto simp: reconcileHead_def)
  next
    case (Inr desired)
    obtain r2 v where sy: "?sync desired u = (r2, v)" by fastforce
    have "sameHeads u v" using syncPins_heads sy by (rule keepsD)
    then have sv: "passes name s v" using su by (simp add: passes_def sameHeads_def regWf_def)
    have "t = v \<or> t = dropTombstone name v \<and> reWithdrawal e"
      using run d Some Inr sy by (cases r2) (auto simp: reconcileHead_def split: if_splits)
    then show ?thesis using sv Some by (auto simp: passes_def dropTombstone_heads regWf_dropTombstone)
  qed
qed

lemma reconcileHead_inv:
  assumes "kvInv K s" "reconcileHead L K g g' tip id name s = (r, t)"
  shows "kvInv K t \<and> (\<forall>k. fst k \<noteq> name \<longrightarrow> ledgerOf K (rcKv t) k = ledgerOf K (rcKv s) k)"
proof (cases "map_of (rcHeads s) name")
  case None
  then show ?thesis using assms by (simp add: reconcileHead_def)
next
  case (Some e)
  from reconcileHead_run [OF assms(1) Some assms(2)] show ?thesis by blast
qed

lemma reconcileLoop_run:
  "reconcileLoop (reconcileHead L K g g' tip id) names acc s = (r, t) \<Longrightarrow> kvInv K s \<Longrightarrow> kvInv K t \<and> (regWf s \<longrightarrow> regWf t) \<and>
    (\<forall>n. n \<notin> set names \<longrightarrow> map_of (rcHeads t) n = map_of (rcHeads s) n) \<and>
    (\<forall>k. fst k \<notin> set names \<longrightarrow> ledgerOf K (rcKv t) k = ledgerOf K (rcKv s) k)"
proof (induction names arbitrary: acc s)
  case (Cons n names)
  obtain r1 u where h: "reconcileHead L K g g' tip id n s = (r1, u)" by fastforce
  note hi = reconcileHead_inv [OF Cons.prems(2) h] and hp = reconcileHead_heads [OF h]
  show ?case
  proof (cases r1)
    case (Inl e)
    then have "t = u" using Cons.prems(1) h by (simp add: id_def)
    then show ?thesis using hi hp by (auto simp: passes_def)
  next
    case (Inr d)
    then have rest: "reconcileLoop (reconcileHead L K g g' tip id) names (deltaAdd acc d) u = (r, t)" using Cons.prems(1) h by (simp add: id_def)
    from Cons.IH [OF rest conjunct1 [OF hi]] hi hp show ?thesis by (auto simp: passes_def)
  qed
qed simp

text \<open>A name that was registered and not withdrawn has, after a successful pass, exactly the rows its policy asks for.\<close>

lemma reconcileLoop_exact:
  "reconcileLoop (reconcileHead L K g g' tip id) names acc s = (Inr d, t) \<Longrightarrow> kvInv K s \<Longrightarrow> distinct names \<Longrightarrow> name \<in> set names \<Longrightarrow>
    map_of (rcHeads s) name = Some e \<Longrightarrow> \<not> reWithdrawal e \<Longrightarrow> map_of (rcHeads t) name \<noteq> None \<and>
    (\<exists>u desired. fst (desiredPins L g g' tip name e u) = Inr desired \<and> exactPins K name desired (ledgerOf K (rcKv t)))"
proof (induction names arbitrary: acc s)
  case (Cons n names)
  obtain r1 u where h: "reconcileHead L K g g' tip id n s = (r1, u)" by fastforce
  note hi = reconcileHead_inv [OF Cons.prems(2) h] and hp = reconcileHead_heads [OF h]
  from Cons.prems(1) h obtain x where x: "r1 = Inr x" by (cases r1) (auto simp: id_def)
  with Cons.prems(1) h have rest: "reconcileLoop (reconcileHead L K g g' tip id) names (deltaAdd acc x) u = (Inr d, t)" by (simp add: id_def)
  note lr = reconcileLoop_run [OF rest conjunct1 [OF hi]]
  show ?case
  proof (cases "n = name")
    case True
    have "\<exists>desired. fst (desiredPins L g g' tip name e s) = Inr desired \<and> exactPins K name desired (ledgerOf K (rcKv u))"
      using reconcileHead_run [OF Cons.prems(2) Cons.prems(5), of L g g' tip "Inr x" u] h True x by auto
    moreover have "map_of (rcHeads u) name \<noteq> None" using hp Cons.prems(5,6) True by (auto simp: passes_def)
    moreover have "name \<notin> set names" using Cons.prems(3) True by simp
    ultimately show ?thesis using lr by (auto simp: exactPins_def)
  next
    case False
    then have "map_of (rcHeads u) name = Some e" using hp Cons.prems(5) by (simp add: passes_def)
    from Cons.IH [OF rest conjunct1 [OF hi] _ _ this Cons.prems(6)] Cons.prems(3,4) False show ?thesis by auto
  qed
qed simp

definition ledgerKept :: "'d cidLib \<Rightarrow> ('b, 'd) gc \<Rightarrow> ('b, 'd) gc \<Rightarrow> bool" where
  "ledgerKept K s t \<longleftrightarrow> (kvInv K (gcRec s) \<longrightarrow> kvInv K (gcRec t) \<and> ledgerOf K (rcKv (gcRec t)) = ledgerOf K (rcKv (gcRec s)))"

lemma ledgerKept_preorder: "reflp (ledgerKept K)" "transp (ledgerKept K)"
  by (auto simp: reflp_def transp_def ledgerKept_def)

lemma ListAll_keeps: "keeps (ledgerKept K) (onRec (onKv (ListAll K h)))"
  by (rule keepsI) (auto dest!: ListAll_gc simp: ledgerKept_def kvOnly_def)

lemma pinsLoop_keeps: "keeps (ledgerKept K) (pinsLoop K ff names w fo tot)"
proof (induction names arbitrary: w fo tot)
  case (Cons n names)
  show ?case unfolding pinsLoop.simps Let_def
    by (intro keeps_bind [OF ledgerKept_preorder(2)] ListAll_keeps keeps_cases Cons.IH)
qed (simp add: keeps_pure ledgerKept_preorder)

lemma gcPins_keeps: "keeps (ledgerKept K) (gcPins K cfg)"
  unfolding gcPins_def StagingList_def
  by (intro keeps_bind [OF ledgerKept_preorder(2)] pinsLoop_keeps keeps_pure ledgerKept_preorder)
    (auto intro!: keeps_bind keeps_pure ledgerKept_preorder ListAll_keeps)

lemma expireStaging_run:
  assumes run: "expireStaging K clock s = (r, t)"
  shows "kvOnly K s t \<and> (kvInv K (gcRec s) \<longrightarrow> (\<forall>k. fst k \<noteq> StagingHead \<longrightarrow> ledgerOf K (rcKv (gcRec t)) k = ledgerOf K (rcKv (gcRec s)) k))"
proof (cases clock)
  case (Some now)
  then have "onRec (onKv (DropExpired K now)) s = (r, t)" using run by (simp add: expireStaging_def)
  from onKv_run [OF this] obtain kv where kv: "DropExpired K now (rcKv (gcRec s)) = (r, kv)" "t = s\<lparr>gcRec := (gcRec s)\<lparr>rcKv := kv\<rparr>\<rparr>" by blast
  have "kvInv K (gcRec t) \<and> (\<forall>k. fst k \<noteq> StagingHead \<longrightarrow> ledgerOf K kv k = ledgerOf K (rcKv (gcRec s)) k)" if "kvInv K (gcRec s)"
  proof -
    have K: "cidLib_ok K" and wf: "kvWf K (rcKv (gcRec s))" using that by (simp_all add: kvInv_def)
    note d = DropExpired_spec [OF K wf, of now, unfolded kv(1)]
    show ?thesis
    proof (cases r)
      case (Inl e)
      then have "sameRows (rcKv (gcRec s)) kv" using d by simp
      from sameRows_abs [OF this, of K] K wf show ?thesis by (simp add: kvInv_def kv(2))
    next
      case (Inr n)
      then show ?thesis using d K by (simp add: kvInv_def kv(2) lapsed_def)
    qed
  qed
  then show ?thesis by (simp add: kvOnly_def kv(2))
qed (use run in \<open>simp add: expireStaging_def\<close>)

lemma fetchIn_ok:
  assumes "cfgOk L K cfg" "\<forall>g\<in>set groups. fetchIn (fetchFor cfg) g" shows "groupsOk L K groups"
  using assms fetchingGet_ok unfolding groupsOk_def fetchOptOk_def fetchIn_def cfgOk_def by metis

text \<open>Where a run stands before its epoch: the store is as it was; the groups are the ledger's pins; and the rows of a registered
  head are what its policy asks for.\<close>

definition prepared :: "('b, 'd) lib \<Rightarrow> 'd cidLib \<Rightarrow> ('b, 'd) gcConfig \<Rightarrow> ('b, 'd) headMark list \<Rightarrow> ('b, 'd) gc \<Rightarrow> ('b, 'd) gc \<Rightarrow> bool" where
  "prepared L K cfg groups s t \<longleftrightarrow> groupPins groups = ledgerPins K cfg (gcRec t) \<and> (cfgOk L K cfg \<longrightarrow> groupsOk L K groups) \<and>
     (regWf (gcRec s) \<longrightarrow> (\<forall>name e. map_of (rcHeads (gcRec s)) name = Some e \<longrightarrow> \<not> reWithdrawal e \<longrightarrow> name \<noteq> StagingHead \<longrightarrow>
        name \<in> set (rcNames (gcRec t)) \<and> (\<exists>u desired. fst (desiredPins L (genBefore cfg) (genAfter cfg) (tipOf cfg) name e u) = Inr desired \<and>
          exactPins K name desired (ledgerOf K (rcKv (gcRec t))))))"

definition storeSame :: "('b, 'd) gc \<Rightarrow> ('b, 'd) gc \<Rightarrow> bool" where
  "storeSame s t \<longleftrightarrow> gcStore t = gcStore s \<and> gcSchedule t = gcSchedule s \<and> gcCancelled t = gcCancelled s"

lemma prepare_run:
  assumes run: "prepare L K cfg s = (r, t)" and inv: "kvInv K (gcRec s)"
  shows "storeSame s t \<and> (\<exists>expired x. r = Inr (expired, x) \<and> (\<forall>groups y. x = Inr (groups, y) \<longrightarrow> prepared L K cfg groups s t))"
proof -
  let ?s = "s\<lparr>refetched := 0, validatedRawReads := 0, validatedNodeReads := 0, validatedRawBytes := 0, validatedNodeBytes := 0\<rparr>"
  let ?loop = "reconcileLoop (reconcileHead L K (genBefore cfg) (genAfter cfg) (tipOf cfg) id) (rcNames (gcRec s)) \<lparr>dAdded = 0, dRemoved = 0\<rparr>"
  obtain r1 rc where l: "?loop (gcRec s) = (r1, rc)" by fastforce
  have rec: "onRec (reconcileAll L K (genBefore cfg) (genAfter cfg) (tipOf cfg) id) ?s = (r1, ?s\<lparr>gcRec := rc\<rparr>)"
    using l by (simp add: onRec_def reconcileAll_def bind_def id_def)
  note lr = reconcileLoop_run [OF l inv]
  let ?u = "?s\<lparr>gcRec := rc\<rparr>"
  show ?thesis
  proof (cases r1)
    case (Inl e)
    then have "r = Inr (0, Inl e)" "t = ?u" using run rec by (simp_all add: prepare_def bind_def attempt_def)
    then show ?thesis by (simp add: storeSame_def)
  next
    case (Inr d)
    obtain r2 v where ex: "expireStaging K (stagingClock cfg) ?u = (r2, v)" by fastforce
    note exr = expireStaging_run [OF ex]
    show ?thesis
    proof (cases r2)
      case (Inl e)
      then have "r = Inr (0, Inl e)" "t = v" using run rec Inr ex by (simp_all add: prepare_def bind_def attempt_def)
      then show ?thesis using exr by (simp add: storeSame_def kvOnly_def)
    next
      case r2: (Inr n)
      obtain r3 w where gp: "gcPins K cfg v = (r3, w)" by fastforce
      note gpr = gcPins_run [OF gp]
      have rt: "r = Inr (n, r3)" "t = w" using run rec Inr ex r2 gp by (simp_all add: prepare_def bind_def attempt_def)
      have v: "kvInv K (gcRec v)" using exr lr by (simp add: kvOnly_def)
      have same: "storeSame s t" using exr gpr by (simp add: storeSame_def kvOnly_def rt)
      have led: "ledgerOf K (rcKv (gcRec t)) = ledgerOf K (rcKv (gcRec v))" using keepsD [OF gcPins_keeps gp] v by (simp add: ledgerKept_def rt)
      have names: "rcNames (gcRec t) = rcNames rc" "rcHeads (gcRec t) = rcHeads rc" using exr gpr by (simp_all add: kvOnly_def rt)
      have exact: "name \<in> set (rcNames (gcRec t)) \<and> (\<exists>u desired. fst (desiredPins L (genBefore cfg) (genAfter cfg) (tipOf cfg) name e u) = Inr desired \<and>
          exactPins K name desired (ledgerOf K (rcKv (gcRec t))))"
        if reg: "regWf (gcRec s)" and e: "map_of (rcHeads (gcRec s)) name = Some e" "\<not> reWithdrawal e" "name \<noteq> StagingHead" for name e
      proof -
        have n: "distinct (rcNames (gcRec s))" "name \<in> set (rcNames (gcRec s))" using reg e(1) by (force simp: regWf_def dest: map_of_SomeD)+
        note le = reconcileLoop_exact [OF l [unfolded Inr] inv n e(1,2)]
        then have "name \<in> fst ` set (rcHeads rc)" by (metis map_of_eq_None_iff)
        moreover have "regWf rc" using lr reg by blast
        ultimately have "name \<in> set (rcNames (gcRec t))" by (simp add: names regWf_def)
        moreover have "ledgerOf K (rcKv (gcRec t)) (name, p, c) = ledgerOf K (rcKv rc) (name, p, c)" for p c
          using exr lr e(3) by (simp add: led)
        ultimately show ?thesis using le by (simp add: exactPins_def)
      qed
      have "prepared L K cfg groups s t" if "r3 = Inr (groups, y)" for groups y
        unfolding prepared_def using gpr v that fetchIn_ok [of L K cfg groups] exact by (simp add: rt)
      then show ?thesis using same rt by blast
    qed
  qed
qed

section \<open>A run with epochs\<close>

lemma mark_keeps: "groupsOk L K groups \<Longrightarrow> keeps (gcGrows K D) (mark L K scrub n groups)"
  unfolding mark_def by (rule markGroups_keeps)

lemma End_store: "present (s\<lparr>gcStore := snd (End e (gcStore s))\<rparr>) = present s"
  by (simp add: present_def fun_eq_iff)

text \<open>Marking and sweeping in epoch \<open>a\<close>, from the state \<open>s\<close> in which it began to the state \<open>t\<close> after it ended.\<close>

definition epochRun :: "('b, 'd) lib \<Rightarrow> ('d cid \<times> bool) set \<Rightarrow> 'd mhash set \<Rightarrow> nat \<Rightarrow> 'd err + 'd event list \<Rightarrow> ('b, 'd) gc \<Rightarrow> 'd err option \<Rightarrow> ('b, 'd) gc \<Rightarrow> bool" where
  "epochRun L P D a events s e t \<longleftrightarrow>
     (\<forall>k\<in>liveKeys (shaLink L) P - D. present s k \<or> e = None \<longrightarrow> present t k) \<and>
     (e = None \<longrightarrow> (\<exists>evs. events = Inr evs \<and> (\<forall>c. EKey c \<in> set evs \<longrightarrow> present t (cidHash c) \<longrightarrow>
        cidHash c \<in> liveKeys (dagLink L) P \<or> cidHash c \<in> keysAt (gcStore t) a)))"

lemma epochRun_frame: "epochRun L P D a events s e t \<Longrightarrow> present u = present t \<Longrightarrow> keysAt (gcStore u) a = keysAt (gcStore t) a \<Longrightarrow> epochRun L P D a events s e u"
  by (simp add: epochRun_def)

lemma marked_sweep:
  assumes L: "lib_ok L" and g: "groupsOk L K groups" and s: "gcSafe K D s" "epActive (gcStore s) = Some a"
    and m: "mark L K scrub fuel groups s = (Inr M, u)" and sw: "sweepOnline L K epoch M events u = (r, t)"
  shows "\<exists>st e. r = Inr (st, e) \<and> epochRun L (groupPins groups) D a events s e t \<and> gcRec t = gcRec s \<and> epActive (gcStore t) = Some a"
proof -
  have mk: "gcSafe K D u" "gcGrows K D s u" "\<forall>k\<in>M - D. present u k" "liveKeys (shaLink L) (groupPins groups) \<subseteq> M" "M \<subseteq> liveKeys (dagLink L) (groupPins groups)"
    using wpD [OF mark_wp [OF L g s(1)] m] by simp_all
  have u: "epActive (gcStore u) = Some a" "gcRec u = gcRec s" using mk(2) s by (simp_all add: gcGrows_def storeGrows_def)
  from sweepOnline_run [OF sw, of D a] obtain st e where r: "r = Inr (st, e)" and swp: "sweeps K D M a u t"
    and dn: "e = None \<longrightarrow> (\<exists>evs. events = Inr evs \<and> (\<forall>c. EKey c \<in> set evs \<longrightarrow> swept M a t (cidHash c)))" using mk(1) u(1) by blast
  have t: "epActive (gcStore t) = Some a" "gcRec t = gcRec s" using swp mk(1) u by (simp_all add: sweeps_def)
  have keep: "present t k" if "k \<in> M - D" for k
    using swp mk(1,3) u(1) that unfolding sweeps_def by blast
  have "epochRun L (groupPins groups) D a events s e t" unfolding epochRun_def
    using keep mk(4,5) dn unfolding swept_def by blast
  with r t show ?thesis by blast
qed

lemma Begin_gc:
  assumes "epInv K (gcStore p)" "epActive (gcStore p) = None"
  obtains st where "Begin (gcStore p) = (Inr \<lparr>beState = length (epStates (gcStore p)), beEnded = False, beEndCount = 0\<rparr>, st)"
    "epInv K st" "epActive st = Some (length (epStates (gcStore p)))" "epBase st = epBase (gcStore p)"
proof -
  from Begin_spec(2) [OF assms(2)] obtain st where b: "Begin (gcStore p) = (Inr \<lparr>beState = length (epStates (gcStore p)), beEnded = False, beEndCount = 0\<rparr>, st)"
    and st: "epActive st = Some (length (epStates (gcStore p)))" "epBase st = epBase (gcStore p)" by fastforce
  have "epInv K st" using epDo_inv [OF assms(1), of undefined SBegin] b by simp
  with b st that show ?thesis by blast
qed

text \<open>The part of \<open>runOnline\<close> after \<open>Begin\<close>.\<close>

definition inEpoch :: "('b, 'd) lib \<Rightarrow> 'd cidLib \<Rightarrow> ('b, 'd) gcConfig \<Rightarrow> nat \<Rightarrow> 'd err + 'd event list \<Rightarrow> nat \<Rightarrow> ('b, 'd) headMark list \<Rightarrow> nat \<Rightarrow> nat \<Rightarrow>
    BlockstoreEpoch \<Rightarrow> ('b, 'd, GCStats \<times> 'd err option) gcop" where
  "inEpoch L K cfg fuel events expired groups npins staged epoch =
     bind (attempt (mark L K (separateScrub cfg) fuel groups)) (\<lambda>r s2. case r of
       Inl e \<Rightarrow> (case End epoch (gcStore s2) of (ep, st2) \<Rightarrow>
         (Inr (zeroGCStats\<lparr>gsPins := npins, gsStaged := staged, gsExpired := expired, gsProtected := beEndCount ep, gsStagingObserved := True\<rparr>, Some e),
          s2\<lparr>gcStore := st2\<rparr>))
     | Inr marked \<Rightarrow> (case sweepOnline L K epoch marked events s2 of
         (Inl e, s3) \<Rightarrow> (Inl e, s3)
       | (Inr (stats, e), s3) \<Rightarrow> (case End epoch (gcStore s3) of (ep, st3) \<Rightarrow>
           (Inr (finishStats (stats\<lparr>gsProtected := beEndCount ep\<rparr>) npins staged expired marked s3, e), s3\<lparr>gcStore := st3\<rparr>))))"

lemma runOnline_phases:
  "runOnline L K cfg fuel events = bind (prepare L K cfg) (\<lambda>(expired, r). case r of
     Inl e \<Rightarrow> ret (zeroGCStats\<lparr>gsExpired := expired\<rparr>, Some e)
   | Inr (groups, npins, staged) \<Rightarrow> (\<lambda>s. case Begin (gcStore s) of
       (Inl e, st) \<Rightarrow> (Inr (zeroGCStats\<lparr>gsExpired := expired\<rparr>, Some e), s\<lparr>gcStore := st\<rparr>)
     | (Inr epoch, st) \<Rightarrow> inEpoch L K cfg fuel events expired groups npins staged epoch (s\<lparr>gcStore := st\<rparr>)))"
  by (simp only: runOnline_def inEpoch_def)

lemma epochRun_fail: "(\<And>k. k \<notin> D \<Longrightarrow> present s k \<Longrightarrow> present u k) \<Longrightarrow> epochRun L P D a events s (Some e) u"
  by (simp add: epochRun_def)

lemma inEpoch_run:
  assumes L: "lib_ok L" and go: "groupsOk L K groups" and q: "gcSafe K D q" "epActive (gcStore q) = Some a"
    and run: "inEpoch L K cfg fuel events expired groups np sg \<lparr>beState = a, beEnded = False, beEndCount = n\<rparr> q = (r, t)"
  shows "\<exists>stats e. r = Inr (stats, e) \<and> epochRun L (groupPins groups) D a events q e t \<and> gcRec t = gcRec q \<and> epActive (gcStore t) = None"
proof -
  let ?ep = "\<lparr>beState = a, beEnded = False, beEndCount = n\<rparr>"
  obtain m u where m: "mark L K (separateScrub cfg) fuel groups q = (m, u)" by fastforce
  show ?thesis
  proof (cases m)
    case (Inl e)
    note g = keepsD [OF mark_keeps [OF go, of D] m]
    have u: "gcRec u = gcRec q" "epActive (gcStore u) = Some a" using g q by (auto simp: gcGrows_def storeGrows_def)
    have rt: "\<exists>stats. r = Inr (stats, Some e)" "t = u\<lparr>gcStore := snd (End ?ep (gcStore u))\<rparr>"
      using run m Inl by (auto simp: inEpoch_def bind_def attempt_def split: prod.splits)
    have "epochRun L (groupPins groups) D a events q (Some e) t"
      by (rule epochRun_fail) (simp add: rt(2) End_store gcGrows_present(2) [OF g q(1)])
    then show ?thesis using rt(1) u by (auto simp: rt(2) End_def)
  next
    case (Inr M)
    obtain r3 v where sw: "sweepOnline L K ?ep M events u = (r3, v)" by fastforce
    from marked_sweep [OF L go q m [unfolded Inr] sw] obtain stats e where r3: "r3 = Inr (stats, e)"
      and er: "epochRun L (groupPins groups) D a events q e v" and v: "gcRec v = gcRec q" "epActive (gcStore v) = Some a" by auto
    have rt: "\<exists>stats. r = Inr (stats, e)" "t = v\<lparr>gcStore := snd (End ?ep (gcStore v))\<rparr>"
      using run m Inr sw r3 by (auto simp: inEpoch_def bind_def attempt_def split: prod.splits)
    have "epochRun L (groupPins groups) D a events q e t"
      using er by (rule epochRun_frame) (simp_all only: rt(2) End_store, simp add: keysAt_def)
    then show ?thesis using rt(1) v by (auto simp: rt(2) End_def)
  qed
qed

lemma runOnline_run:
  assumes L: "lib_ok L" and cfg: "cfgOk L K cfg" and kv: "kvInv K (gcRec s)" and ep: "epInv K (gcStore s)"
    and run: "runOnline L K cfg fuel events s = (r, t)"
  shows "\<exists>stats e. r = Inr (stats, e) \<and> epActive (gcStore t) = epActive (gcStore s) \<and>
    epochRun L (ledgerPins K cfg (gcRec t)) (schedDeletes s) (length (epStates (gcStore s))) events s e t \<and>
    ((\<exists>groups. prepared L K cfg groups s t) \<or> e \<noteq> None \<and> (\<forall>k. k \<notin> schedDeletes s \<longrightarrow> present s k \<longrightarrow> present t k)) \<and> gcRec t = gcRec (snd (prepare L K cfg s))"
proof -
  let ?D = "schedDeletes s" and ?a = "length (epStates (gcStore s))"
  obtain r1 p where pr: "prepare L K cfg s = (r1, p)" by fastforce
  from prepare_run [OF pr kv] obtain expired x where r1: "r1 = Inr (expired, x)" and same: "storeSame s p"
    and prep: "\<And>groups y. x = Inr (groups, y) \<Longrightarrow> prepared L K cfg groups s p" by blast
  have p: "gcStore p = gcStore s" "gcSchedule p = gcSchedule s" "present p = present s" using same by (auto simp: storeSame_def present_def)
  have fails: "?thesis" if "\<exists>stats e. r = Inr (stats, Some e)" "t = p" using that p pr epochRun_fail [of ?D s p] by auto
  show ?thesis
  proof (cases x)
    case (Inl e)
    then show ?thesis using run pr r1 by (intro fails) (auto simp: runOnline_phases)
  next
    case (Inr y)
    obtain groups np sg where y: "y = (groups, np, sg)" by (cases y) auto
    note pd = prep [OF Inr [unfolded y]]
    have gp: "groupPins groups = ledgerPins K cfg (gcRec p)" and go: "groupsOk L K groups" using pd cfg by (simp_all add: prepared_def)
    show ?thesis
    proof (cases "epActive (gcStore p)")
      case (Some b)
      then show ?thesis using run pr r1 Inr y Begin_spec(1) [OF Some] by (intro fails) (auto simp: runOnline_phases)
    next
      case None
      have "epInv K (gcStore p)" using ep p by simp
      from Begin_gc [OF this None] obtain st where b: "Begin (gcStore p) = (Inr \<lparr>beState = ?a, beEnded = False, beEndCount = 0\<rparr>, st)"
        and st: "epInv K st" "epActive st = Some ?a" "epBase st = epBase (gcStore p)" unfolding p by blast
      let ?q = "p\<lparr>gcStore := st\<rparr>"
      have q: "gcSafe K ?D ?q" "epActive (gcStore ?q) = Some ?a" and sq: "present ?q = present s"
        using st p by (auto simp: gcSafe_def schedDeletes_def present_def fun_eq_iff)
      have "inEpoch L K cfg fuel events expired groups np sg \<lparr>beState = ?a, beEnded = False, beEndCount = 0\<rparr> ?q = (r, t)"
        using run pr r1 Inr y b by (simp add: runOnline_phases)
      from inEpoch_run [OF L go q this] obtain stats e where r: "r = Inr (stats, e)" and er: "epochRun L (groupPins groups) ?D ?a events ?q e t"
        and t: "gcRec t = gcRec p" "epActive (gcStore t) = None" by auto
      have "epochRun L (ledgerPins K cfg (gcRec t)) ?D ?a events s e t" using er sq gp t(1) by (simp add: epochRun_def)
      moreover have "prepared L K cfg groups s t" using pd t(1) by (simp add: prepared_def)
      ultimately show ?thesis using r t None p pr by auto
    qed
  qed
qed

section \<open>A run without epochs\<close>

lemma runOffline_run:
  assumes L: "lib_ok L" and cfg: "cfgOk L K cfg" and kv: "kvInv K (gcRec s)" and ep: "epInv K (gcStore s)" and alone: "gcSchedule s = []"
    and run: "runOffline L K cfg fuel keys s = (r, t)"
  shows "\<exists>stats e. r = Inr (stats, e) \<and>
    (\<forall>k\<in>liveKeys (shaLink L) (ledgerPins K cfg (gcRec t)). present s k \<or> e = None \<longrightarrow> present t k) \<and>
    (e = None \<longrightarrow> (\<exists>ks. keys = Inr ks \<and> (\<forall>c\<in>set ks. present t (cidHash c) \<longrightarrow> cidHash c \<in> liveKeys (dagLink L) (ledgerPins K cfg (gcRec t))) \<and>
      (\<forall>k. k \<notin> cidHash ` set ks \<longrightarrow> present s k \<longrightarrow> present t k)))"
proof -
  obtain r1 p where pr: "prepare L K cfg s = (r1, p)" by fastforce
  from prepare_run [OF pr kv] obtain expired x where r1: "r1 = Inr (expired, x)" and same: "storeSame s p"
    and prep: "\<And>groups y. x = Inr (groups, y) \<Longrightarrow> prepared L K cfg groups s p" by blast
  have p: "gcSafe K {} p" "present p = present s" "gcSchedule p = []" using same alone ep by (auto simp: storeSame_def present_def gcSafe_def schedDeletes_def)
  have fails: "?thesis" if "\<exists>stats e. r = Inr (stats, Some e)" "\<And>k. present s k \<Longrightarrow> present t k" using that by auto
  show ?thesis
  proof (cases x)
    case (Inl e)
    then show ?thesis using run pr r1 p by (intro fails) (auto simp: runOffline_def)
  next
    case (Inr y)
    obtain groups np sg where y: "y = (groups, np, sg)" by (cases y) auto
    have gp: "groupPins groups = ledgerPins K cfg (gcRec p)" and go: "groupsOk L K groups" using prep [OF Inr [unfolded y]] cfg by (simp_all add: prepared_def)
    obtain m u where m: "mark L K (separateScrub cfg) fuel groups p = (m, u)" by fastforce
    note g = keepsD [OF mark_keeps [OF go, of "{}"] m]
    have u: "gcRec u = gcRec p" "gcSchedule u = []" "\<And>k. present s k \<Longrightarrow> present u k" using g p gcGrows_present(2) [OF g p(1)] by (simp_all add: gcGrows_def)
    show ?thesis
    proof (cases m)
      case (Inl e)
      then show ?thesis using run pr r1 Inr y m u(3) by (intro fails) (auto simp: runOffline_def attempt_def)
    next
      case M: (Inr M)
      have mk: "\<forall>k\<in>M. present u k" "liveKeys (shaLink L) (groupPins groups) \<subseteq> M" "M \<subseteq> liveKeys (dagLink L) (groupPins groups)"
        using wpD [OF mark_wp [OF L go p(1)] m [unfolded M]] by simp_all
      obtain r3 v where sw: "sweep L K M keys u = (r3, v)" by fastforce
      have rt: "\<And>stats e. r3 = Inr (stats, e) \<Longrightarrow> \<exists>stats. r = Inr (stats, e) \<and> t = v"
        using run pr r1 Inr y m M sw by (auto simp: runOffline_def attempt_def)
      show ?thesis
      proof (cases keys)
        case (Inl e)
        then have r3: "r3 = Inr (zeroGCStats, Some e)" and v: "v = u" using sw by (simp_all add: sweep_def)
        show ?thesis using rt [OF r3] v u(3) by (intro fails) auto
      next
        case ks: (Inr ks)
        then have "sweepLoop L K M ks zeroGCStats u = (r3, v)" using sw by (simp add: sweep_def)
        from sweepLoop_run [OF u(2) this] obtain stats e where off: "sweepsOff M ks u v" and r3: "r3 = Inr (stats, e)"
          and gone: "e = None \<longrightarrow> (\<forall>c\<in>set ks. cidHash c \<in> M \<or> \<not> present v (cidHash c))" by blast
        from rt [OF r3] obtain st where r: "r = Inr (st, e)" and tv: "t = v" by blast
        have led: "ledgerPins K cfg (gcRec t) = groupPins groups" using off u(1) gp by (simp add: sweepsOff_def tv)
        have keep: "present t k" if "k \<in> M \<or> k \<notin> cidHash ` set ks \<and> present s k" for k
          using that off mk(1) u(3) unfolding sweepsOff_def tv by blast
        show ?thesis unfolding led using r keep mk(2,3) gone ks unfolding tv by blast
      qed
    qed
  qed
qed

section \<open>Blobs of the window\<close>

lemma appendLinks_canon: "set (appendLinks (canonNode n)) = set (appendLinks n)"
proof (induction n)
  case (NMap kvs)
  have "set (appendLinks (canonNode (snd kv))) = set (appendLinks (snd kv))" if "kv \<in> set kvs" for kv
    by (rule NMap.IH [OF that]) (simp add: prod_set_defs)
  then show ?case by simp
qed auto

lemma segment_links:
  assumes L: "lib_ok L" and enc: "EncodeSegment L seg = Inr (b, c)" and r: "r \<in> set (sRows seg)" "e \<in> set (rEntries r)" "eBlob e = Some blob"
  shows "shaLink L c blob"
proof -
  note e = EncodeSegment_Inr [OF enc]
  have wf: "wfNode (segmentNode seg)" using e(1-3) by (intro wfNode_segmentNode) (simp_all add: SegmentValidate_iff)
  have dec: "cborDecode L b = Some (canonNode (segmentNode seg))" by (rule lib_ok_encode_decode [OF L wf encodeNode_Inr(1) [OF e(4)]])
  have cid: "NodeCID L b = Inr c" using enc by (rule encoders_cid)
  obtain d where "mhSum L SHA2_256 (- 1) b = Some (32, d)" using L unfolding lib_ok_def by blast
  with cid have c: "c = Cid 1 codecDagCBOR SHA2_256 32 d" by (simp add: NodeCID_def prefixSum_def nodePrefix_def)
  have "Some blob \<in> set (appendLinks (segmentNode seg))"
    using r by (auto simp: segmentNode_def rowNode_def refEntryNode_def qpInt_def intro!: bexI [of _ r] bexI [of _ e])
  then show ?thesis unfolding shaLink_def dagLink_def shaCid_def
    using NodeCID_prefixSum [OF L cid] dec appendLinks_canon [of "segmentNode seg"] c by auto
qed

text \<open>A blob of the window hangs on a recursive row of its head.\<close>

lemma window_blob_pinned:
  assumes L: "lib_ok L" and ok: "headOk L h (cur h) p rows (Some x)" and pf: "proofsOk L (enStructure h)"
    and e: "reHead e = Some h" "\<not> reWithdrawal e" "poMode (rePolicy e) = ModeWindow"
    and d: "fst (desiredPins L g g' tip name e u) = Inr desired" and ex: "exactPins K name desired m"
    and r: "r \<in> set rows" "windowLow (rePolicy e) x \<le> rSlot r" "b \<in> set (rEntries r)" "eBlob b = Some blob"
  shows "\<exists>c pur t. m (name, pur, c) = Some (True, t) \<and> shaLink L c blob"
proof -
  note w = headOk_walkable [OF ok]
  from desiredPins_Inr [OF d e(1,2) w pf] obtain en pins where en: "enumerated L (enBlocks h) (cur h) en" and pins: "Desired (rePolicy e) en = Inr pins"
    and des: "desired = pins \<or> (\<exists>tp. desired = pins @ [\<lparr>pnPurpose = PurposeManifest, pnCID = tp, pnRecursive = True\<rparr>])" by blast
  let ?seg = "segOf p rows (ord (rSlot r) (pSegBits p))"
  from window_retains [OF L ok en pins e(3) r(1,2)] obtain q where q: "q \<in> set pins" "pnCID q = segCid L ?seg" "pnCID q \<noteq> None"
    "pnPurpose q = PurposeWindow \<or> pnPurpose q = PurposeOpen" by blast
  then obtain c where c: "pnCID q = Some c" "segCid L ?seg = Some c" by auto
  then obtain blk where enc: "EncodeSegment L ?seg = Inr (blk, c)" by (auto simp: segCid_def split: sum.splits)
  have "map_option pnRecursive (wanted K desired (key K (pnPurpose q) (Some c))) = Some True" by (rule wanted_window [OF pins e(3) q(1) c(1) q(4) des])
  moreover have "map_option fst (m (name, pnPurpose q, c)) = map_option pnRecursive (wanted K desired (key K (pnPurpose q) (Some c)))"
    using ex by (simp only: exactPins_def)
  ultimately obtain t where "m (name, pnPurpose q, c) = Some (True, t)" by auto
  moreover have "r \<in> set (sRows ?seg)" using r(1) by (simp add: segOf_def winRows_def)
  ultimately show ?thesis using segment_links [OF L enc _ r(3,4)] by blast
qed

lemma window_blob_live:
  assumes prep: "prepared L K cfg groups s t" "regWf (gcRec s)" and L: "lib_ok L" and ok: "headOk L h (cur h) p rows (Some x)" and pf: "proofsOk L (enStructure h)"
    and e: "map_of (rcHeads (gcRec s)) name = Some e" "reHead e = Some h" "\<not> reWithdrawal e" "poMode (rePolicy e) = ModeWindow" "name \<noteq> StagingHead"
    and r: "r \<in> set rows" "windowLow (rePolicy e) x \<le> rSlot r" "b \<in> set (rEntries r)" "eBlob b = Some blob"
  shows "cidHash blob \<in> liveKeys (shaLink L) (ledgerPins K cfg (gcRec t))"
proof -
  have n: "name \<in> set (rcNames (gcRec t))" and "\<exists>u desired. fst (desiredPins L (genBefore cfg) (genAfter cfg) (tipOf cfg) name e u) = Inr desired \<and>
      exactPins K name desired (ledgerOf K (rcKv (gcRec t)))" using prep e(1,3,5) unfolding prepared_def by blast+
  then obtain u desired where d: "fst (desiredPins L (genBefore cfg) (genAfter cfg) (tipOf cfg) name e u) = Inr desired"
    "exactPins K name desired (ledgerOf K (rcKv (gcRec t)))" by blast
  from window_blob_pinned [OF L ok pf e(2,3,4) d r] obtain c pur tm where c: "ledgerOf K (rcKv (gcRec t)) (name, pur, c) = Some (True, tm)" "shaLink L c blob" by blast
  then have "(c, True) \<in> ledgerPins K cfg (gcRec t)" using n by (auto simp: ledgerPins_def)
  with c(2) show ?thesis unfolding liveKeys_def by blast
qed

section \<open>Staged blobs\<close>

lemma expireStaging_keeps_row:
  assumes run: "expireStaging K (Some now) s = (r, t)" and inv: "kvInv K (gcRec s)"
    and row: "ledgerOf K (rcKv (gcRec s)) k = Some (rc, x)" "x = zeroTime \<or> now < x"
  shows "ledgerOf K (rcKv (gcRec t)) k = Some (rc, x)"
proof -
  have "onRec (onKv (DropExpired K now)) s = (r, t)" using run by (simp add: expireStaging_def)
  from onKv_run [OF this] obtain kv where kv: "DropExpired K now (rcKv (gcRec s)) = (r, kv)" "t = s\<lparr>gcRec := (gcRec s)\<lparr>rcKv := kv\<rparr>\<rparr>" by blast
  have K: "cidLib_ok K" and wf: "kvWf K (rcKv (gcRec s))" using inv by (simp_all add: kvInv_def)
  note d = DropExpired_spec [OF K wf, of now, unfolded kv(1)]
  show ?thesis
  proof (cases r)
    case (Inl e)
    then have "sameRows (rcKv (gcRec s)) kv" using d by simp
    from sameRows_abs(2) [OF this, of K] row show ?thesis by (simp add: kv(2))
  next
    case (Inr n)
    then show ?thesis using d row by (auto simp: kv(2) lapsed_def)
  qed
qed

lemma prepare_staging:
  assumes inv: "kvInv K (gcRec s)" and nm: "StagingHead \<notin> set (rcNames (gcRec s))" and cl: "stagingClock cfg = Some now"
    and row: "ledgerOf K (rcKv (gcRec s)) (StagingHead, pur, c) = Some (rc, x)" "x = zeroTime \<or> now < x"
  shows "ledgerOf K (rcKv (gcRec (snd (prepare L K cfg s)))) (StagingHead, pur, c) = Some (rc, x)"
proof -
  let ?s = "s\<lparr>refetched := 0, validatedRawReads := 0, validatedNodeReads := 0, validatedRawBytes := 0, validatedNodeBytes := 0\<rparr>"
  let ?loop = "reconcileLoop (reconcileHead L K (genBefore cfg) (genAfter cfg) (tipOf cfg) id) (rcNames (gcRec s)) \<lparr>dAdded = 0, dRemoved = 0\<rparr>"
  obtain r1 rc' where l: "?loop (gcRec s) = (r1, rc')" by fastforce
  have rec: "onRec (reconcileAll L K (genBefore cfg) (genAfter cfg) (tipOf cfg) id) ?s = (r1, ?s\<lparr>gcRec := rc'\<rparr>)"
    using l by (simp add: onRec_def reconcileAll_def bind_def id_def)
  let ?u = "?s\<lparr>gcRec := rc'\<rparr>"
  have u: "kvInv K (gcRec ?u)" "ledgerOf K (rcKv (gcRec ?u)) (StagingHead, pur, c) = Some (rc, x)"
    using reconcileLoop_run [OF l inv] nm row(1) by simp_all
  obtain r2 v where ex: "expireStaging K (stagingClock cfg) ?u = (r2, v)" by fastforce
  have v: "kvInv K (gcRec v)" "ledgerOf K (rcKv (gcRec v)) (StagingHead, pur, c) = Some (rc, x)"
    using expireStaging_run [OF ex] expireStaging_keeps_row [OF ex [unfolded cl] u row(2)] u(1) by (simp_all add: kvOnly_def)
  obtain r3 w where gp: "gcPins K cfg v = (r3, w)" by fastforce
  have w: "ledgerOf K (rcKv (gcRec w)) (StagingHead, pur, c) = Some (rc, x)" using keepsD [OF gcPins_keeps gp] v by (simp add: ledgerKept_def)
  show ?thesis using rec ex gp u(2) v(2) w by (cases r1; cases r2) (simp_all add: prepare_def bind_def attempt_def)
qed

lemma staged_live:
  assumes "stagingClock cfg = Some now" "ledgerOf K (rcKv rec) (StagingHead, pur, c) = Some (rc, x)"
  shows "cidHash c \<in> liveKeys E (ledgerPins K cfg rec)"
  using assms unfolding liveKeys_def ledgerPins_def by blast

end
