(* ===== verification/ConcreteGC.thy ===== *)
theory ConcreteGC
  imports Concrete Retention "HOL-Library.Countable"
begin

text \<open>
  The concrete instance for the collector: a rendering of CIDs as bytes, a database, a store with a blob, an index block that
  links it and a block nobody names, and the state from which a collection starts.
\<close>

instance cid :: (countable) countable
  by countable_datatype

instance node :: (countable) countable
  by countable_datatype

instance wdig :: countable
  by countable_datatype

definition wNode :: "wdig node" where
  "wNode = NList [NLink (Some wBlob)]"

definition wTop :: "wdig cid" where
  "wTop = Cid 1 codecDagCBOR SHA2_256 32 (WDig wNode)"

definition wJunk :: "wdig cid" where
  "wJunk = Cid 1 codecRaw SHA2_256 32 (WDig (NBool True))"

text \<open>The three CIDs above have one byte each; the others are written in unary.\<close>

definition wK :: "wdig cidLib" where
  "wK = \<lparr>cidBytes = (\<lambda>c. if c = wBlob then [1] else if c = wTop then [2] else if c = wJunk then [3] else 4 # replicate (to_nat c) 5),
     cidCast = (\<lambda>bs. if bs = [1] then Some wBlob else if bs = [2] then Some wTop else if bs = [3] then Some wJunk else Some (from_nat (length bs - 1))),
     mhBytes = (\<lambda>_. [])\<rparr>"

lemma wK_ok: "cidLib_ok wK"
  by (auto simp: cidLib_ok_def wK_def)

definition wStaged :: "wdig PinEntry" where
  "wStaged = \<lparr>pePurpose = PurposeStaging, peCID = Some wBlob, peRecursive = False, peExpiry = 9000000000\<rparr>"

definition wKv :: kvdb where
  "wKv = snd (AddBatch wK StagingHead [wStaged] \<lparr>kvRows = [], kvFaults = []\<rparr>)"

lemma wEmpty_ok: "kvWf K \<lparr>kvRows = [], kvFaults = fs\<rparr>"
  by (simp add: kvWf_def kvSorted_def)

lemma wKv_does: "kvWf wK wKv \<and> ledgerOf wK wKv (StagingHead, PurposeStaging, wBlob) = Some (False, 9000000000)"
proof -
  let ?s = "\<lparr>kvRows = [], kvFaults = []\<rparr>"
  have "AddBatch wK StagingHead [wStaged] ?s = (Inr (), wKv)"
    by (simp add: wKv_def AddBatch_def pinBatch_def wStaged_def bindE_def ctxErr_def faultOr_def kvCommit_def bind_def checkName_def strBytes_def)
  with AddBatch_does [OF wK_ok, of StagingHead "[wStaged]"] wEmpty_ok [of wK "[]"]
  have "kvWf wK wKv" "ledgerOf wK wKv = setPins StagingHead [wStaged] (ledgerOf wK ?s)" by (auto simp: kvDoes_def split: prod.splits sum.splits)
  then show ?thesis by (simp add: setPins_def wStaged_def storedTime_def zeroTime_def Unix_def)
qed

definition wPile :: "(wdig node, wdig) blocks" where
  "wPile = \<lparr>contents = [cidHash wBlob \<mapsto> NNull, cidHash wTop \<mapsto> wNode, cidHash wJunk \<mapsto> NBool True], getFault = (\<lambda>_. False), putFault = (\<lambda>_. False)\<rparr>"

text \<open>The archive of the witnesses is registered with a window of two slots; while the collector runs the application looks up a
  block and deletes none.\<close>

definition wWindow :: Policy where
  "wWindow = Window 24000000000 12"

definition wRec :: "(wdig node, wdig) reconciler" where
  "wRec = \<lparr>rcKv = wKv, rcHeads = [(''w'', \<lparr>reHead = Some wFull, rePolicy = wWindow, reWithdrawal = False\<rparr>)], rcNames = [''w''], rcPending = []\<rparr>"

definition wGc :: "(wdig node, wdig) gc" where
  "wGc = \<lparr>gcStore = NewBlockstoreEpochs wPile, gcRec = wRec, gcSchedule = [([AHas wTop], False)], gcCancelled = False, refetched = 0,
     validatedRawReads = 0, validatedNodeReads = 0, validatedRawBytes = 0, validatedNodeBytes = 0\<rparr>"

definition wNet :: "wdig cid \<Rightarrow> wdig err + wdig node" where
  "wNet c = (if c = wTop then Inr wNode else Inl (NotFound c))"

definition wCfg :: "(wdig node, wdig) gcConfig" where
  "wCfg = \<lparr>separateScrub = False, fetchFor = Some (\<lambda>n. if n = ''f'' then Some (fetchingGet wLib wK wNet) else None), stagingClock = Some 1000000000,
     tipOf = None, genBefore = None, genAfter = None\<rparr>"

lemma wNet_ok: "netOk wLib wNet"
  by (auto simp: netOk_def wNet_def wLib_def wTop_def prefixSum_def cidPrefix_def)

lemma wCfg_ok: "cfgOk wLib wK wCfg"
  using wNet_ok by (auto simp: cfgOk_def wCfg_def split: if_splits)

lemma wGc_ok: "kvInv wK (gcRec wGc)" "epInv wK (gcStore wGc)" "schedDeletes wGc = {}" "regWf (gcRec wGc)"
  using wK_ok wKv_does by (simp_all add: wGc_def wRec_def kvInv_def epInv_def NewBlockstoreEpochs_def schedDeletes_def regWf_def)

lemma wGc_present: "present wGc (cidHash wBlob)" "present wGc (cidHash wTop)" "present wGc (cidHash wJunk)"
  by (simp_all add: present_def wGc_def NewBlockstoreEpochs_def wPile_def)

text \<open>The same without a registered head.\<close>

definition wIdle :: "(wdig node, wdig) gc" where
  "wIdle = wGc\<lparr>gcRec := \<lparr>rcKv = wKv, rcHeads = [], rcNames = [], rcPending = []\<rparr>\<rparr>"

lemma wKv_rows: "wKv = \<lparr>kvRows = [(ledgerKey wK StagingHead PurposeStaging wBlob, encodePinValue False 9000000000)], kvFaults = []\<rparr>"
  by (simp add: wKv_def AddBatch_def pinBatch_def wStaged_def bindE_def ctxErr_def faultOr_def kvCommit_def bind_def checkName_def strBytes_def)

lemma wList: "ListAll wK StagingHead wKv = (Inr [wStaged], wKv)"
proof -
  have "validName PurposeStaging" by (simp add: validName_def strBytes_def)
  from decodePin_ledgerKey [OF wK_ok this, of StagingHead wBlob "encodePinValue False 9000000000"]
  have "decodePin wK (length (headPrefix StagingHead)) (ledgerKey wK StagingHead PurposeStaging wBlob, encodePinValue False 9000000000) = (Inr wStaged :: wdig err + _)"
    by (simp add: decode_encode wStaged_def storedTime_def zeroTime_def Unix_def)
  then show ?thesis
    by (simp add: ListAll_def scan_def kvIter_def wKv_rows ctxErr_def faultOr_def bind_def checkName_valid [OF validName_staging] inRange_prefix headPrefix_key bindE_def)
qed

definition wEvents :: "wdig err + wdig event list" where
  "wEvents = Inr [EKey wBlob, EKey wTop, EKey wJunk]"

lemma wIdle_ok: "kvInv wK (gcRec wIdle)" "epInv wK (gcStore wIdle)" "schedDeletes wIdle = {}"
  using wGc_ok wK_ok wKv_does by (simp_all add: wIdle_def kvInv_def schedDeletes_def)

lemma wStaged_sel [simp]: "peExpiry wStaged = 9000000000" "peCID wStaged = Some wBlob" "\<not> peRecursive wStaged"
  by (simp_all add: wStaged_def)

lemma wExpire: "DropExpired wK 1000000000 wKv = (Inr 0, wKv)"
  by (simp add: DropExpired_def StagingList_def bind_def wList RemoveBatch_def pinBatch_def ctxErr_def faultOr_def Let_def)
    (simp add: wKv_rows)

lemma wIdle_prepare: "prepare wLib wK wCfg wIdle = (Inr (0, Inr ([\<lparr>hmHead = StagingHead, hmFetch = None, hmPins = [wStaged]\<rparr>], 1, 1)), wIdle)"
  by (simp add: prepare_def reconcileAll_def onRec_def bind_def attempt_def expireStaging_def wCfg_def wIdle_def wGc_def onKv_def wExpire StagingList_def wList gcPins_def Let_def)

lemma wHash [simp]: "cidHash wBlob \<noteq> cidHash wTop" "cidHash wBlob \<noteq> cidHash wJunk" "cidHash wTop \<noteq> cidHash wJunk"
  "cidHash wTop \<noteq> cidHash wBlob" "cidHash wJunk \<noteq> cidHash wBlob" "cidHash wJunk \<noteq> cidHash wTop"
  by (simp_all add: cidHash_def wBlob_def wTop_def wJunk_def wNode_def)

text \<open>The store when the epoch begins, after the application's look-up, and after the sweep.\<close>

definition wBegun :: "(wdig node, wdig) epochs" where
  "wBegun = snd (Begin (NewBlockstoreEpochs wPile))"

lemma wBegin: "Begin (NewBlockstoreEpochs wPile) = (Inr \<lparr>beState = 0, beEnded = False, beEndCount = 0\<rparr>, wBegun)"
  by (simp add: wBegun_def Begin_def NewBlockstoreEpochs_def Let_def)

lemma wGet: "validatingGet wLib (epBase (runApp wLib wK (AHas wTop) wBegun)) wBlob = Inr NNull"
  by (simp add: wBegun_def Begin_def NewBlockstoreEpochs_def Let_def appHas_def withKey_def baseHas_def wPile_def
    validatingGet_def baseGet_def wLib_def wBlob_def prefixSum_def cidPrefix_def bindE_def cidHash_def wTop_def wJunk_def wNode_def)

lemma wMark: "\<exists>t. mark wLib wK False 5 [\<lparr>hmHead = StagingHead, hmFetch = None, hmPins = [wStaged]\<rparr>] (wIdle\<lparr>gcStore := wBegun\<rparr>) = (Inr {cidHash wBlob}, t) \<and>
    gcStore t = runApp wLib wK (AHas wTop) wBegun \<and> gcSchedule t = [] \<and> \<not> gcCancelled t"
proof -
  have "mark wLib wK False 5 [\<lparr>hmHead = StagingHead, hmFetch = None, hmPins = [wStaged]\<rparr>] (wIdle\<lparr>gcStore := wBegun\<rparr>) = (Inr {cidHash wBlob},
    countRead wBlob (blen wLib NNull) (wIdle\<lparr>gcStore := runApp wLib wK (AHas wTop) wBegun, gcSchedule := []\<rparr>))"
    by (simp add: mark_def markHead_def bind_def attempt_def retainForMark_def readForMark_def gcGet_def tick_def wIdle_def wGc_def wGet markKey_def numeral_eq_Suc del: runApp.simps)
  then show ?thesis by (simp add: countRead_def wIdle_def wGc_def del: runApp.simps)
qed

definition wSwept :: "(wdig node, wdig) epochs" where
  "wSwept = snd (DeleteCandidate wK \<lparr>beState = 0, beEnded = False, beEndCount = 0\<rparr> wJunk (runApp wLib wK (AHas wTop) wBegun))"

lemmas wStore_defs = wBegun_def Begin_def NewBlockstoreEpochs_def Let_def appHas_def withKey_def baseHas_def wPile_def touchAt_def touch_def multihashKey_def
  DeleteCandidate_def baseDelete_def

lemma wDelete:
  "DeleteCandidate wK \<lparr>beState = 0, beEnded = False, beEndCount = 0\<rparr> wTop (runApp wLib wK (AHas wTop) wBegun) = (Inr (False, True), runApp wLib wK (AHas wTop) wBegun)"
  "DeleteCandidate wK \<lparr>beState = 0, beEnded = False, beEndCount = 0\<rparr> wJunk (runApp wLib wK (AHas wTop) wBegun) = (Inr (True, False), wSwept)"
  using wHash by (auto simp: wStore_defs wSwept_def)

lemma wSwept_contents: "contents (epBase wSwept) (cidHash wTop) \<noteq> None" "contents (epBase wSwept) (cidHash wJunk) = None"
  using wHash by (auto simp: wStore_defs wSwept_def)

lemma wIdle_run:
  "\<exists>stats t. runOnline wLib wK wCfg 5 wEvents wIdle = (Inr (stats, None), t) \<and> present t (cidHash wTop) \<and> \<not> present t (cidHash wJunk)"
proof -
  let ?ep = "\<lparr>beState = 0, beEnded = False, beEndCount = 0\<rparr>"
  from wMark obtain u where m: "mark wLib wK False 5 [\<lparr>hmHead = StagingHead, hmFetch = None, hmPins = [wStaged]\<rparr>] (wIdle\<lparr>gcStore := wBegun\<rparr>) = (Inr {cidHash wBlob}, u)"
    and u: "gcStore u = runApp wLib wK (AHas wTop) wBegun" "gcSchedule u = []" "\<not> gcCancelled u" by blast
  have same: "u\<lparr>gcStore := runApp wLib wK (AHas wTop) wBegun\<rparr> = u" using u(1) by simp
  have sw: "\<exists>stats. sweepOnline wLib wK ?ep {cidHash wBlob} wEvents u = (Inr (stats, None), u\<lparr>gcStore := wSwept\<rparr>)"
    using wHash by (simp add: sweepOnline_def wEvents_def markKey_def Let_def tick_def u wDelete same attempt_def gcCtx_def bind_def del: runApp.simps)
  have st: "gcStore wIdle = NewBlockstoreEpochs wPile" "separateScrub wCfg = False" by (simp_all add: wIdle_def wGc_def wCfg_def)
  obtain stats where sw': "sweepOnline wLib wK ?ep {cidHash wBlob} wEvents u = (Inr (stats, None), u\<lparr>gcStore := wSwept\<rparr>)" using sw by blast
  show ?thesis using wSwept_contents
    by (simp add: runOnline_phases wIdle_prepare st wBegin inEpoch_def bind_def attempt_def m sw' present_def split: prod.split) (auto simp: End_def)
qed

section \<open>Inputs of single operations\<close>

definition wGroups :: "(wdig node, wdig) headMark list" where
  "wGroups = [\<lparr>hmHead = ''f'', hmFetch = Some (fetchingGet wLib wK wNet), hmPins = [\<lparr>pePurpose = ''root'', peCID = Some wTop, peRecursive = True, peExpiry = zeroTime\<rparr>]\<rparr>]"

definition wActs :: "wdig kvAct list" where
  "wActs = [KAdd ''w'' ''root'' (Some wTop) True, KPut 7 (Some wBlob), KAddBatch StagingHead [wStaged], KRemove ''w'' ''root'' (Some wTop), KAdd [] ''root'' (Some wTop) True]"

definition wDb :: kvdb where
  "wDb = snd (kvRun wK wActs \<lparr>kvRows = [], kvFaults = []\<rparr>)"

definition wAccepted :: "wdig kvAct list" where
  "wAccepted = fst (kvRun wK wActs \<lparr>kvRows = [], kvFaults = []\<rparr>)"

definition wPass :: "(wdig err + Delta) \<times> (wdig node, wdig) reconciler" where
  "wPass = reconcileHead wLib wK None None None id ''w'' wRec"

definition wEntry :: "(wdig node, wdig) regEntry" where
  "wEntry = \<lparr>reHead = Some wFull, rePolicy = wWindow, reWithdrawal = False\<rparr>"

definition wDesired :: "wdig Pin list" where
  "wDesired = [\<lparr>pnPurpose = PurposeRoot, pnCID = Some wTop, pnRecursive = True\<rparr>]"

abbreviation wSync :: "(wdig node, wdig) reconciler \<Rightarrow> (wdig err + Delta) \<times> (wdig node, wdig) reconciler" where
  "wSync \<equiv> syncPins wK (\<lambda>h p c r. onKv (Add wK h p c r)) (\<lambda>h p c. onKv (Remove wK h p c)) (\<lambda>h. onKv (ListAll wK h)) ''w'' wDesired"

lemma wSync_run: "\<exists>t. wSync wRec = (Inr \<lparr>dAdded = 1, dRemoved = 0\<rparr>, t)"
proof -
  have "\<not> (\<exists>r. ledgerKey wK StagingHead PurposeStaging wBlob = headPrefix ''w'' @ r)"
    by (simp add: headPrefix_key headPrefix_def strBytes_def)
  then have l: "ListAll wK ''w'' wKv = (Inr [], wKv)"
    by (simp add: ListAll_def scan_def kvIter_def wKv_rows ctxErr_def faultOr_def bind_def checkName_def strBytes_def inRange_prefix)
  have "\<exists>kv. Add wK ''w'' PurposeRoot (Some wTop) True wKv = (Inr (), kv)"
    by (simp add: Add_def ledgerAdd_def ctxErr_def faultOr_def bind_def checkNames_def checkName_def strBytes_def bindE_def kvSet_def kvCommit_def wKv_rows)
  then obtain kv where a: "Add wK ''w'' PurposeRoot (Some wTop) True wKv = (Inr (), kv)" by blast
  show ?thesis by (simp add: syncPins_def onKv_def wRec_def l plan_def Let_def wDesired_def a bind_def)
qed

end
