(* ===== verification/Admission.thy ===== *)
theory Admission
  imports Enumerate
begin

text \<open>
  The segment proofs that \<open>archive/structure_cache.go\<close> keeps across roots are a shortcut of the enumeration and not an
  authority: without a collection generation they change no admission.
\<close>

section \<open>Two walks that know different proofs\<close>

text \<open>Two walks that differ only in the segment proofs they know.\<close>

definition alike :: "('b, 'd) lib \<Rightarrow> 'd walker \<Rightarrow> 'd walker \<Rightarrow> bool" where
  "alike L w w' \<longleftrightarrow> proofsOk L (newProofs w) \<and> proofsOk L (newProofs w') \<and> w' = w\<lparr>newProofs := newProofs w'\<rparr>"

definition sameRun :: "('s \<Rightarrow> 's \<Rightarrow> bool) \<Rightarrow> ('s, 'e, 'a) op \<Rightarrow> ('s, 'e, 'a) op \<Rightarrow> bool" where
  "sameRun R m m' \<longleftrightarrow> (\<forall>s s'. R s s' \<longrightarrow> fst (m s) = fst (m' s') \<and> R (snd (m s)) (snd (m' s')))"

lemma sameRun_bind: "sameRun R m m' \<Longrightarrow> (\<And>a. sameRun R (f a) (f' a)) \<Longrightarrow> sameRun R (bind m f) (bind m' f')"
  by (fastforce simp: sameRun_def bind_def split: prod.splits sum.splits)

lemma sameRun_gets: "(\<And>w w'. R w w' \<Longrightarrow> sameRun R (f (g w)) (f' (g w'))) \<Longrightarrow> sameRun R (bind (gets g) f) (bind (gets g) f')"
  by (fastforce simp: sameRun_def bind_def)

lemma sameRun_pure: "sameRun R (ret a) (ret a)" "sameRun R (fail e) (fail e)" "sameRun R (liftE r) (liftE r)" "sameRun R (check b e) (check b e)"
  by (auto simp: sameRun_def)

lemma sameRun_modify: "(\<And>w w'. R w w' \<Longrightarrow> R (h w) (h' w')) \<Longrightarrow> sameRun R (modify h) (modify h')"
  by (simp add: sameRun_def)

lemma sameRun_deferred: "sameRun R m m' \<Longrightarrow> (\<And>w w'. R w w' \<Longrightarrow> R (h w) (h w')) \<Longrightarrow> sameRun R (deferred h m) (deferred h m')"
  by (auto simp: sameRun_def deferred_def split: prod.splits) (metis fst_conv snd_conv)+

lemmas sameRun_rules = sameRun_bind sameRun_pure

lemma alike_sel:
  assumes "alike L w w'"
  shows "bUnique w' = bUnique w" "bPaths w' = bPaths w" "bDecoded w' = bDecoded w" "bOutputs w' = bOutputs w" "dirNodes w' = dirNodes w"
    "dirActive w' = dirActive w" "dirMemo w' = dirMemo w" "dirContains w' = dirContains w" "wSegments w' = wSegments w"
    "outPages w' = outPages w" "outSealed w' = outSealed w"
proof -
  obtain np where w': "w' = w\<lparr>newProofs := np\<rparr>" using assms unfolding alike_def by blast
  show "bUnique w' = bUnique w" "bPaths w' = bPaths w" "bDecoded w' = bDecoded w" "bOutputs w' = bOutputs w" "dirNodes w' = dirNodes w"
    "dirActive w' = dirActive w" "dirMemo w' = dirMemo w" "dirContains w' = dirContains w" "wSegments w' = wSegments w"
    "outPages w' = outPages w" "outSealed w' = outSealed w"
    unfolding w' by simp_all
qed

lemma alikeI: "proofsOk L (newProofs w) \<Longrightarrow> proofsOk L np \<Longrightarrow> w' = w\<lparr>newProofs := np\<rparr> \<Longrightarrow> alike L w w'"
  by (simp add: alike_def)

lemma alikeE:
  assumes "alike L w w'" obtains np where "w' = w\<lparr>newProofs := np\<rparr>" "proofsOk L (newProofs w)" "proofsOk L np"
  using assms unfolding alike_def by blast

lemma alike_upd:
  assumes "\<And>np w. h (w\<lparr>newProofs := np\<rparr>) = (h w)\<lparr>newProofs := np\<rparr>" "\<And>w. newProofs (h w) = newProofs w" "alike L w w'"
  shows "alike L (h w) (h w')"
  using assms(3) by (rule alikeE, intro alikeI [where np = "newProofs w'"]) (simp_all add: assms(1,2))

lemma alike_modify:
  assumes "\<And>np w. h (w\<lparr>newProofs := np\<rparr>) = (h w)\<lparr>newProofs := np\<rparr>" "\<And>w. newProofs (h w) = newProofs w"
  shows "sameRun (alike L) (modify h) (modify h)"
  by (rule sameRun_modify) (rule alike_upd [OF assms])

lemma index_collision:
  assumes "lib_ok L" "cidMhType c = SHA2_256" "cidMhLen c = 32" "prefixSum L (cidPrefix c) b = Some c" "prefixSum L (cidPrefix c) b' = Some c"
  shows "b = b'"
proof -
  obtain d d' where d: "mhSum L SHA2_256 (- 1) b = Some (32, d)" "mhSum L SHA2_256 32 b = Some (32, d)"
    "mhSum L SHA2_256 (- 1) b' = Some (32, d')" "mhSum L SHA2_256 32 b' = Some (32, d')"
    using assms(1) unfolding lib_ok_def by metis
  then have "Cid (cidVersion c) (cidCodec c) 18 32 d = c" "Cid (cidVersion c) (cidCodec c) 18 32 d' = c"
    using assms(2-5) by (auto simp: prefixSum_def cidPrefix_def)
  then have "d = d'" by (metis cid.inject)
  then show ?thesis using assms(1) d unfolding lib_ok_def by metis
qed

lemma proof_decodes:
  assumes "lib_ok L" "cidMhType c = SHA2_256" "cidMhLen c = 32" "proofOk L c pf" "validatingGet L bs c = Inr b"
  shows "\<exists>seg. DecodeSegment L b = Inr seg \<and> segmentShape seg = Inr pf"
  using assms(4) index_collision [OF assms(1-3) validatingGet_sound [OF assms(5)]] by (auto simp: proofOk_def)

lemma sameRun_same: "(\<And>w w'. R w w' \<Longrightarrow> g w' = g w) \<Longrightarrow> (\<And>a. sameRun R (f a) (f' a)) \<Longrightarrow> sameRun R (bind (gets g) f) (bind (gets g) f')"
  by (rule sameRun_gets) simp

lemmas alike_gets = sameRun_same [OF alike_sel(1)] sameRun_same [OF alike_sel(2)] sameRun_same [OF alike_sel(3)]
  sameRun_same [OF alike_sel(4)] sameRun_same [OF alike_sel(5)] sameRun_same [OF alike_sel(9)]

lemma sameRun_if: "(b \<Longrightarrow> sameRun R m m') \<Longrightarrow> (\<not> b \<Longrightarrow> sameRun R n n') \<Longrightarrow> sameRun R (if b then m else n) (if b then m' else n')"
  by simp

lemma addUnique_alike: "sameRun (alike L) (addUnique c) (addUnique c)"
  unfolding addUnique_def by (intro alike_gets sameRun_if sameRun_rules alike_modify) simp_all

lemma readNode_alike:
  assumes "weBlocks E' = weBlocks E" shows "sameRun (alike L) (readNode L E c) (readNode L E' c)"
  unfolding readNode_def assms by (intro alike_gets sameRun_bind [OF addUnique_alike] sameRun_rules alike_modify) simp_all

lemma addPaths_alike: "sameRun (alike L) (addPaths n) (addPaths n)"
  unfolding addPaths_def by (intro alike_gets sameRun_if sameRun_rules alike_modify) simp_all

lemma addOutput_alike: "sameRun (alike L) addOutput addOutput"
  unfolding addOutput_def by (intro alike_gets sameRun_if sameRun_rules alike_modify) simp_all

lemma sameRun_option:
  "(x = None \<Longrightarrow> sameRun R f f') \<Longrightarrow> (\<And>a. x = Some a \<Longrightarrow> sameRun R (g a) (g' a)) \<Longrightarrow>
    sameRun R (case x of None \<Rightarrow> f | Some a \<Rightarrow> g a) (case x of None \<Rightarrow> f' | Some a \<Rightarrow> g' a)"
  by (cases x) simp_all

lemma readDir_alike:
  assumes "weBlocks E' = weBlocks E" shows "sameRun (alike L) (readDir L E c) (readDir L E' c)"
  unfolding readDir_def
  by (intro alike_gets sameRun_option sameRun_bind [OF readNode_alike [OF assms]] sameRun_rules alike_modify) simp_all

text \<open>Without a collection generation a segment is read whether its proof is known or not, and the proof is the one its
  block gives.\<close>

lemma segmentProofFor_run:
  assumes L: "lib_ok L" "cidMhType c = SHA2_256" "cidMhLen c = 32" and struct: "proofsOk L (weStructure E)"
    and none: "weGeneration E = None" and new: "proofsOk L (newProofs w)"
  shows "\<exists>np. proofsOk L np \<and> segmentProofFor L E c w = (case readNode L E c w of (Inl e, w1) \<Rightarrow> (Inl e, w1)
    | (Inr b, w1) \<Rightarrow> (case bindE (liftS (DecodeSegment L b)) segmentShape of Inl e \<Rightarrow> (Inl e, w1) | Inr pf \<Rightarrow> (Inr pf, w1\<lparr>newProofs := np\<rparr>)))"
proof -
  have same: "returns (readNode L E c) (\<lambda>b w1. validatingGet L (weBlocks E) c = Inr b \<and> newProofs w1 = newProofs w) w"
    by (rule readNode_wp) simp
  show ?thesis
  proof (cases "readNode L E c w")
    case (Pair r w1)
    show ?thesis
    proof (cases r)
      case (Inl e)
      then show ?thesis using Pair new none by (auto simp: segmentProofFor_def Let_def bind_def split: option.splits)
    next
      case (Inr b)
      then have b: "validatingGet L (weBlocks E) c = Inr b" "newProofs w1 = newProofs w" using same Pair by (simp_all add: wp_def)
      let ?cached = "case map_of (newProofs w) c of Some p \<Rightarrow> Some p | None \<Rightarrow> map_of (weStructure E) c"
      let ?upd = "\<lambda>pf. AList.update c \<lparr>cpProof = pf, cpGeneration = 0, cpGenerationKnown = False\<rparr> (newProofs w)"
      have upd: "proofsOk L (?upd pf)" if "proofOk L c pf" for pf using new that by (auto intro: proofsOk_update)
      show ?thesis
      proof (cases ?cached)
        case (Some cp)
        then have ok: "proofOk L c (cpProof cp)" using struct new by (auto split: option.splits dest: proofsOk_lookup)
        then obtain seg where "DecodeSegment L b = Inr seg" "segmentShape seg = Inr (cpProof cp)"
          using proof_decodes [OF L _ b(1)] by blast
        then show ?thesis using Some Inr Pair none b(2) upd [OF ok]
          by (intro exI [of _ "?upd (cpProof cp)"]) (simp add: segmentProofFor_def Let_def bind_def liftS_def bindE_def)
      next
        case None
        have "\<exists>np. proofsOk L np \<and> (\<forall>pf. bindE (liftS (DecodeSegment L b)) segmentShape = (Inr pf :: 'b err + _) \<longrightarrow> np = ?upd pf)"
          using upd proofOkI [OF validatingGet_sound [OF b(1)]] new
          by (cases "bindE (liftS (DecodeSegment L b)) segmentShape :: 'b err + segmentProof")
            (auto simp: bindE_Inr_iff liftS_def map_sum_def split: sum.splits)
        then show ?thesis using None Inr Pair none b(2)
          by (auto simp: segmentProofFor_def Let_def bind_def bindE_def split: sum.splits)
      qed
    qed
  qed
qed

definition envAlike :: "('b, 'd) lib \<Rightarrow> ('b, 'd) walkEnv \<Rightarrow> ('b, 'd) walkEnv \<Rightarrow> bool" where
  "envAlike L E E' \<longleftrightarrow> weBlocks E' = weBlocks E \<and> weState E' = weState E \<and> weGeneration E = None \<and> weGeneration E' = None \<and>
     proofsOk L (weStructure E) \<and> proofsOk L (weStructure E')"

lemma segmentProofFor_alike:
  assumes L: "lib_ok L" "cidMhType c = SHA2_256" "cidMhLen c = 32" and E: "envAlike L E E'"
  shows "sameRun (alike L) (segmentProofFor L E c) (segmentProofFor L E' c)"
  unfolding sameRun_def
proof (intro allI impI)
  fix w w' assume w: "alike L w w'"
  have E': "proofsOk L (weStructure E)" "proofsOk L (weStructure E')" "weGeneration E = None" "weGeneration E' = None"
    and np: "proofsOk L (newProofs w)" "proofsOk L (newProofs w')" using E w by (simp_all add: envAlike_def alike_def)
  from segmentProofFor_run [OF L E'(1,3) np(1)] obtain np where run: "proofsOk L np"
    "segmentProofFor L E c w = (case readNode L E c w of (Inl e, w1) \<Rightarrow> (Inl e, w1)
      | (Inr b, w1) \<Rightarrow> (case bindE (liftS (DecodeSegment L b)) segmentShape of Inl e \<Rightarrow> (Inl e, w1) | Inr pf \<Rightarrow> (Inr pf, w1\<lparr>newProofs := np\<rparr>)))"
    by blast
  from segmentProofFor_run [OF L E'(2,4) np(2)] obtain np' where run': "proofsOk L np'"
    "segmentProofFor L E' c w' = (case readNode L E' c w' of (Inl e, w1) \<Rightarrow> (Inl e, w1)
      | (Inr b, w1) \<Rightarrow> (case bindE (liftS (DecodeSegment L b)) segmentShape of Inl e \<Rightarrow> (Inl e, w1) | Inr pf \<Rightarrow> (Inr pf, w1\<lparr>newProofs := np'\<rparr>)))"
    by blast
  have "fst (readNode L E c w) = fst (readNode L E' c w') \<and> alike L (snd (readNode L E c w)) (snd (readNode L E' c w'))"
    using readNode_alike [of E' E L c] E w by (simp add: envAlike_def sameRun_def)
  then show "fst (segmentProofFor L E c w) = fst (segmentProofFor L E' c w') \<and> alike L (snd (segmentProofFor L E c w)) (snd (segmentProofFor L E' c w'))"
    unfolding run(2) run'(2) using run(1) run'(1)
    by (cases "readNode L E c w"; cases "readNode L E' c w'")
      (auto simp: alikeI elim!: alikeE split: sum.splits)
qed

lemma sameRun_lift: "(\<And>a. r = Inr a \<Longrightarrow> sameRun R (f a) (f' a)) \<Longrightarrow> sameRun R (bind (liftE r) f) (bind (liftE r) f')"
  by (cases r) (auto simp: sameRun_def)

lemma validateIndexCID_Inr: "validateIndexCID l s = Inr c \<Longrightarrow> l = Some c \<and> cidMhType c = SHA2_256 \<and> cidMhLen c = 32"
  by (auto simp: validateIndexCID_def split: option.splits if_splits)

lemma validateSegment_alike:
  assumes "lib_ok L" "envAlike L E E'"
  shows "sameRun (alike L) (validateSegment L E l v upper open') (validateSegment L E' l v upper open')"
proof -
  have st: "weState E' = weState E" using assms(2) by (simp add: envAlike_def)
  show ?thesis unfolding validateSegment_def Let_def st
    by (intro sameRun_lift alike_gets sameRun_bind sameRun_pure alike_modify segmentProofFor_alike [OF assms(1) _ _ assms(2)])
      (auto dest: validateIndexCID_Inr)
qed

lemma walkLeaf_alike:
  assumes "lib_ok L" "envAlike L E E'"
  shows "sameRun (alike L) (walkLeaf L E i kids n) (walkLeaf L E' i kids n)"
proof (induction kids arbitrary: i n)
  case (Cons kid kids)
  have st: "weState E' = weState E" using assms(2) by (simp add: envAlike_def)
  show ?case unfolding walkLeaf.simps Let_def st
    by (intro sameRun_option sameRun_bind sameRun_pure alike_modify addOutput_alike validateSegment_alike [OF assms] Cons.IH) simp_all
qed (simp add: sameRun_pure)

lemma walkKids_alike:
  assumes "\<And>kid i n. sameRun R (walk kid i n) (walk' kid i n)"
  shows "sameRun R (walkKids walk cap off n d kids k) (walkKids walk' cap off n d kids k)"
proof (induction kids arbitrary: d k)
  case (Cons kid kids)
  show ?case unfolding walkKids.simps Let_def by (intro sameRun_if sameRun_bind sameRun_pure assms Cons.IH)
qed (simp add: sameRun_pure)

lemma walkDir_alike:
  assumes "lib_ok L" "envAlike L E E'"
  shows "sameRun (alike L) (walkDir L E d node i n) (walkDir L E' d node i n)"
proof (induction d arbitrary: node i n)
  case (Suc d)
  have st: "weState E' = weState E" "weBlocks E' = weBlocks E" using assms(2) by (simp_all add: envAlike_def)
  have page: "sameRun (alike L) (walkPage L E d (walkDir L E d) page j m) (walkPage L E' d (walkDir L E' d) page j m)" for page j m
    unfolding walkPage_def Let_def st(1) by (intro sameRun_if sameRun_bind sameRun_pure walkLeaf_alike [OF assms] walkKids_alike Suc.IH)
  show ?case unfolding walkDir.simps
    apply (intro sameRun_bind [OF sameRun_pure(4)] sameRun_lift)
    apply (rule sameRun_gets)
    subgoal premises prems for a c w w'
      unfolding id_apply alike_sel [OF prems(2)] Let_def
      by (intro sameRun_option sameRun_bind sameRun_pure sameRun_deferred page addPaths_alike readDir_alike [OF st(2)] alike_gets alike_modify
          alike_upd [where h = "\<lambda>w. w\<lparr>dirActive := (dirActive w)(c := False)\<rparr>"]) simp_all
    done
qed (simp add: sameRun_pure)

lemma enumerateWalk_alike:
  assumes "lib_ok L" "envAlike L E E'"
  shows "sameRun (alike L) (enumerateWalk L E) (enumerateWalk L E')"
proof -
  have st: "weState E' = weState E" "weBlocks E' = weBlocks E" using assms(2) by (simp_all add: envAlike_def)
  have fin: "sameRun (alike L) (bind (gets id) f) (bind (gets id) f)"
    if "\<And>w w'. alike L w w' \<Longrightarrow> sameRun (alike L) (f w) (f w')" for f :: "'b walker \<Rightarrow> ('b, 'b Enumeration) walk"
    using that by (rule sameRun_gets) simp
  show ?thesis unfolding enumerateWalk_def Let_def st case_prod_unfold
    apply (intro sameRun_lift sameRun_bind [OF readNode_alike [OF st(2)]] sameRun_if sameRun_pure
        sameRun_bind [OF validateSegment_alike [OF assms]])
    apply (rule sameRun_bind)
     apply (intro sameRun_if sameRun_bind [OF walkDir_alike [OF assms]] sameRun_pure)
    apply (rule fin)
    subgoal premises prems for _ _ _ _ _ w w'
      unfolding alike_sel [OF prems(4)] by (intro sameRun_rules)
    done
qed

text \<open>A store with no collection generation admits a root or refuses it independently of the segment proofs kept from earlier
  roots.\<close>

lemma Enumerate_structure:
  assumes L: "lib_ok L" and c: "proofsOk L c" "proofsOk L c'"
  shows "fst (Enumerate L None g (s\<lparr>enStructure := c\<rparr>)) = fst (Enumerate L None g (s\<lparr>enStructure := c'\<rparr>))"
proof -
  let ?E = "\<lambda>c. \<lparr>weBlocks = enBlocks s, weStructure = c, weState = cur s, weGeneration = None\<rparr>"
  have "envAlike L (?E c) (?E c')" using c by (simp add: envAlike_def)
  moreover have "alike L newWalker newWalker" by (rule alikeI [of _ _ "[]"]) (simp_all add: newWalker_def proofsOk_def)
  ultimately have "fst (enumerateWalk L (?E c) newWalker) = fst (enumerateWalk L (?E c') newWalker)"
    using enumerateWalk_alike [OF L, of "?E c" "?E c'"] by (simp add: sameRun_def)
  then show ?thesis
    by (cases "enumerateWalk L (?E c) newWalker"; cases "enumerateWalk L (?E c') newWalker"; cases "fst (enumerateWalk L (?E c) newWalker)")
      (auto simp: Enumerate_def bind_def)
qed

end
