(* ===== verification/Spec2Isabelle.thy ===== *)
theory Spec2Isabelle
  imports ConcreteGC Admission
begin

text \<open>
  \<^bold>\<open>Verification of bloar, an archive of Ethereum blobs.\<close>

  The program stores blobs in a content-addressed block store and indexes them by beacon slot. A \<^emph>\<open>head\<close> is an
  immutable index: a directory (a radix tree of \<open>DirNode\<close> pages) of sealed \<open>Segment\<close> blocks, one per window of
  \<open>2^seg_bits\<close> slots, and one open segment. Every mutation writes new blocks and publishes a new root.

  \<^bold>\<open>Parts and theories.\<close>
  \<^item> \<open>Prelude\<close>: machine words, results, computations \<open>('s, 'e, 'a) op\<close> that return an error or a value and a state, and
    the rules for them (\<open>wp\<close>, \<open>keeps\<close>, \<open>failKeeps\<close>).
  \<^item> \<open>Ipld\<close>, \<open>Schema\<close>, \<open>SchemaCodec\<close>: the IPLD data model and CIDs as far as the code uses them, and \<open>schema/*.go\<close>: heads,
    segments, directory pages, validation, encoders, decoders. The locale \<open>node_codec\<close> collects what a codec promises;
    it is interpreted on the four codecs (\<open>segC\<close>, \<open>dirC\<close>, \<open>headC\<close>, \<open>manC\<close>). \<open>Manifest\<close>: \<open>schema/manifest.go\<close>.
  \<^item> \<open>Blockstore\<close>: the physical store keyed by multihash with its faults, and the validating wrapper \<open>store/validate.go\<close>.
  \<^item> \<open>Core\<close>: \<open>core/*.go\<close>, the decoded-node cache, node stores and copy-on-write pointers. The locales \<open>cached_nodes\<close> and
    \<open>node_store\<close> are the interface the archive uses; they are interpreted on the three node stores in \<open>Engine\<close>.
  \<^item> \<open>Arith\<close>: \<open>archive/arith.go\<close> on 64-bit words.
  \<^item> \<open>Engine\<close>: \<open>archive/archive.go\<close>, the engine's state, creation, loading, publication. \<open>Dir\<close>: \<open>archive/dir.go\<close>.
    \<open>Lookup\<close>: \<open>archive/lookup.go\<close>, and the abstraction \<open>headOk\<close>: a state is the archive of a list of rows and a coverage.
    \<open>Apply\<close>, \<open>ApplySpec\<close>: \<open>archive/apply.go\<close> and the abstract update \<open>specApply\<close> it implements. \<open>Truncate\<close>:
    \<open>archive/truncate.go\<close>, \<open>archive/generation.go\<close>. \<open>Enumerate\<close>, \<open>Admission\<close>: \<open>archive/enumerate.go\<close>,
    \<open>archive/structure_cache.go\<close>. \<open>Sample\<close>: the segment samples of \<open>archive/apply.go\<close>.
  \<^item> \<open>History\<close>: the archives that any sequence of operations can reach, and the invariant of all of them. \<open>Reopen\<close>:
    loading a published root.
  \<^item> \<open>Epoch\<close>: \<open>store/epoch.go\<close>, the protection epochs of the block store: what the application touches while a collection
    runs, and the deletion of candidates. \<open>Catalog\<close>: \<open>catalog/*.go\<close>, the blob catalog and the pin ledger over an ordered
    key-value store. \<open>Pinning\<close>: \<open>pinning/policy.go\<close> and \<open>pinning/staging.go\<close>. \<open>Reconcile\<close>: \<open>pinning/reconcile.go\<close> and
    \<open>pinning/follow.go\<close>; its locale \<open>pin_ledger\<close> is the interface to the ledger and is interpreted on the ledger of
    \<open>Catalog\<close> (\<open>kvl\<close>). \<open>GC\<close>: \<open>pinning/gc.go\<close> and the fetching block store of \<open>p2p/bitswap.go\<close>. \<open>Marking\<close> and
    \<open>Retention\<close> hold the lemmas on the marking phase and on whole runs of the collector.
  \<^item> \<open>Concrete\<close> and \<open>ConcreteGC\<close>: one instance of every parameter, used by the witnesses.

  \<^bold>\<open>State.\<close> The record \<open>engine\<close> is the Go \<open>Head\<close>: its block store, caches, mutation scratch and the published \<open>state\<close>
  (\<open>cur\<close>). A Go method is a function of the same name on it; an error return keeps the writes made before it. Slices are
  lists, Go maps keyed by CID are maps or association lists, \<open>uint64\<close> is a 64-bit word and wraps. The record \<open>gc\<close> is the
  collector with the store and the reconciler it works on. What other goroutines do to the block store between two
  accesses of the collector is its \<open>gcSchedule\<close>, a list that the theorems quantify over. The shard locks of an epoch
  make the operations on one key atomic, so each is one step; the reconciler's gate keeps registrations and ledger still
  while a run prepares.

  \<^bold>\<open>What is assumed.\<close> The library routines are the record \<open>lib\<close>: DAG-CBOR encoding and decoding, multihash sums, the length
  of a block. The hypothesis \<open>lib_ok\<close> states that decoding an encoded node gives the node with its map keys in
  canonical order, that SHA-256 always gives 32 bytes, and that no two blocks have the same digest. The blob
  resolver is an argument of \<open>ApplyRefs\<close>. The rendering of CIDs is the record \<open>cidLib\<close>; \<open>cidLib_ok\<close> states that \<open>Cast\<close> reads
  back what \<open>Bytes\<close> wrote. The exchange behind a fetching block store is an argument; \<open>netOk\<close> states that it returns
  only bytes that hash to the CID asked for. Pebble is its contract: a commit applies all of a batch or nothing, and an
  iterator returns the keys of a range in byte order. Faults of the medium are part of the state, and \<open>envErr\<close> names the failures
  that are not the program's: a read or write fault, an encoded node above \<open>MaxIndexNodeBytes\<close>, and, where the flag is
  set, a number that DAG-CBOR cannot carry.

  \<^bold>\<open>Loops and fuel.\<close> The loops over windows, rows, kids and digits terminate by measures on the source's own counters. The
  window loop of \<open>ApplyRefs\<close> would not end for the last window of the word range, which is the error \<open>NonTermination\<close>.
  The loop of \<open>canonicalDirectoryPages\<close> has fuel 64, enough for every fanout of at least one bit, and the walk of
  \<open>Enumerate\<close> recurses on the depth of the directory. The frontier loop of the collector has its fuel as an argument:
  the safety theorems hold for every fuel, and \<open>mark_terminates\<close> says how much is enough.

  \<^bold>\<open>What is shown.\<close> The properties below: refinement of the abstract archive by every operation, invariance under every
  history, history independence of the root, exactness of enumeration, failure atomicity, liveness on a faultless medium,
  round trips of the codecs, bounds of the cache and of the arithmetic; that an epoch records exactly what is touched,
  that the ledger represents a table of pins, that reconciliation is exact and safe to cut short, and that a
  collection keeps all that the pins reach, and with it every blob of a retention window and every staged blob, and
  removes what nothing reaches.

  \<^bold>\<open>Not modelled.\<close> Mutexes and goroutines of the archive (an engine runs one operation at a time), context cancellation and
  the deadline of \<open>Enumerate\<close>, error texts, metrics, logging, timers and the loops that only call \<open>Run\<close>, \<open>Scrub\<close> and the
  reconciler periodically, the gate itself (\<open>pinning/gate.go\<close>). The packages that do network, process or
  file-system I/O (\<open>server\<close>, \<open>follow\<close>, \<open>index\<close>, \<open>ingest\<close>, \<open>kubo\<close>, the rest of \<open>p2p\<close>, \<open>replica\<close>, \<open>census\<close>, \<open>metrics\<close>, \<open>cmd\<close>, the
  opening of stores) are not modelled.
\<close>

section \<open>Properties\<close>



text \<open>C4: The root of an archive does not depend on how it was built: any two archives reached by any sequence of applies, truncations, lookups, enumerations, reopenings and failures, with the same parameters, the same coverage and the same answer to every lookup, have the same state and the same root CID.\<close>

theorem history_independent:
  assumes "lib_ok L" "reach L p s" "reach L p t" "infoSyncedTo (Info s) = infoSyncedTo (Info t)"
    and "\<forall>slot. \<exists>r. fst (LookupSlot L slot s) = Inr r \<and> fst (LookupSlot L slot t) = Inr r"
  shows "cur s = cur t \<and> Info s = Info t"
proof -
  obtain rows syn where s: "cacheOk L s" "headOk L s (cur s) p rows syn" using reach_archiveOk [OF assms(1,2)] by (auto simp: archiveOk_def)
  obtain rows' syn' where t: "cacheOk L t" "headOk L t (cur t) p rows' syn'" using reach_archiveOk [OF assms(1,3)] by (auto simp: archiveOk_def)
  have syn: "syn' = syn" using headOk_Info [OF s(2)] headOk_Info [OF t(2)] assms(4) by simp
  have look: "specLookup p rows syn slot = specLookup p rows' syn slot" for slot
    using assms(5) lookup_run [OF assms(1) s, of slot] lookup_run [OF assms(1) t, of slot] syn by (metis prod.collapse)
  have "rows = rows'"
  proof (cases syn)
    case None
    then show ?thesis using s(2) t(2) syn by (simp add: headOk_def bodyOk_def)
  next
    case (Some x)
    have "rowsIn p rows x" "rowsIn p rows' x" using s(2) t(2) syn Some by (simp_all add: headOk_def bodyOk_def)
    with look Some show ?thesis by (auto intro: rows_by_lookup)
  qed
  then have "cur s = cur t" using headOk_unique [OF s(2), of t "cur t"] t(2) syn by simp
  then show ?thesis by (simp add: Info_def)
qed

theorem history_independent_witness:
  "cur wFull = cur wTwice \<and> Info wFull = Info wTwice"
proof (rule history_independent [OF wLib_ok wFull_ok(5) wTwice_ok(3)])
  show "infoSyncedTo (Info wFull) = infoSyncedTo (Info wTwice)" using headOk_Info [OF wFull_ok(3)] headOk_Info [OF wTwice_ok(2)] by simp
  show "\<forall>slot. \<exists>r. fst (LookupSlot wLib slot wFull) = Inr r \<and> fst (LookupSlot wLib slot wTwice) = Inr r"
    using LookupSlot_total [OF wLib_ok wFull_ok(1-3)] LookupSlot_total [OF wLib_ok wTwice_ok(4,1,2)] by auto
qed



text \<open>C6: An accepted enumeration of an archive lists exactly the non-empty sealed windows in ascending order, each with its window number and the CID of the segment that holds its rows, the open segment, and every directory page once; it changes nothing but the cache of segment proofs, and a refused one changes nothing.\<close>

theorem Enumerate_exact:
  assumes "lib_ok L" "headOk L s (cur s) p rows (Some x)" "proofsOk L (enStructure s)"
  shows "case Enumerate L before after s of
      (Inr e, t) \<Rightarrow> map (\<lambda>y. (slOrd y, Some (slCID y))) (emSealed e) = map (\<lambda>w. (w, segCid L (segOf p rows w))) (sealedWindows p rows x) \<and>
        emOpen e = segCid L (segOf p rows (ord (x + 1) (pSegBits p))) \<and> emSyncedTo e = x \<and> emRoot e = root (cur s) \<and>
        set (emDirPages e) = set (pagesOf (kidsOf L (enBlocks s)) (unat (dirDepth (cur s))) (dir (cur s))) \<and> distinct (emDirPages e) \<and>
        cur t = cur s \<and> enBlocks t = enBlocks s \<and> proofsOk L (enStructure t)
    | (Inl e, t) \<Rightarrow> t = s"
proof -
  note w = headOk_walkable [OF assms(2)]
  have st: "openSeg (cur s) = segCid L (segOf p rows (ord (x + 1) (pSegBits p)))" "syncedTo (cur s) = x"
    using assms(2) by (auto simp: headOk_def bodyOk_def)
  have "returns (Enumerate L before after) (\<lambda>e t. enumerated L (enBlocks s) (cur s) e \<and> (\<exists>c. proofsOk L c \<and> t = s\<lparr>enStructure := c\<rparr>)) s"
    by (rule Enumerate_wp [OF w(1) assms(3) w(2)]) auto
  note e = this
  obtain r t where run: "Enumerate L before after s = (r, t)" by fastforce
  show ?thesis
  proof (cases r)
    case (Inl err)
    with run Enumerate_Inl [of L before after s] show ?thesis by simp
  next
    case (Inr em)
    with e run have em: "enumerated L (enBlocks s) (cur s) em" "\<exists>c. proofsOk L c \<and> t = s\<lparr>enStructure := c\<rparr>" by (simp_all add: wp_def)
    from em(1) have "emOpen em = openSeg (cur s)" "emSyncedTo em = syncedTo (cur s)" "emRoot em = root (cur s)" "distinct (emDirPages em)"
      "set (emDirPages em) = set (pagesOf (kidsOf L (enBlocks s)) (unat (dirDepth (cur s))) (dir (cur s)))"
      unfolding enumerated_def Let_def by blast+
    with em(2) enumerated_windows [OF assms(1,2) em(1)] st run Inr show ?thesis by auto
  qed
qed

theorem Enumerate_exact_witness:
  "case Enumerate wLib None None wFull of
      (Inr e, t) \<Rightarrow> map (\<lambda>y. (slOrd y, Some (slCID y))) (emSealed e) =
          map (\<lambda>w. (w, segCid wLib (segOf wParams wRows w))) (sealedWindows wParams wRows 6) \<and>
        emOpen e = segCid wLib (segOf wParams wRows (ord (6 + 1) (pSegBits wParams))) \<and> emSyncedTo e = 6 \<and> emRoot e = root (cur wFull) \<and>
        set (emDirPages e) = set (pagesOf (kidsOf wLib (enBlocks wFull)) (unat (dirDepth (cur wFull))) (dir (cur wFull))) \<and> distinct (emDirPages e) \<and>
        cur t = cur wFull \<and> enBlocks t = enBlocks wFull \<and> proofsOk wLib (enStructure t)
    | (Inl e, t) \<Rightarrow> t = wFull"
  using Enumerate_exact [OF wLib_ok wFull_ok(3)] reach_archiveOk [OF wLib_ok wFull_ok(5)] by (simp add: archiveOk_def)



text \<open>C10: \<open>Lookup\<close> answers from the rows of the archive: before the origin, not yet covered, or found with the entries of the row of that slot and none if there is no row; it fails only if the medium does, and never changes the archive.\<close>

theorem LookupSlot_refines:
  assumes "lib_ok L" "cacheOk L s" "headOk L s (cur s) p rows syn"
  shows "case LookupSlot L slot s of
      (Inr r, t) \<Rightarrow> r = specLookup p rows syn slot \<and> grows L s t
    | (Inl e, t) \<Rightarrow> envErr L False s e \<and> grows L s t"
proof -
  have "wp (LookupSlot L slot) (envErr L False s) (\<lambda>r t. r = specLookup p rows syn slot) s"
    by (rule LookupSlot_wp [OF assms(1,2)]) (use assms(3) in \<open>auto simp: headOk_def\<close>)
  then show ?thesis using keepsD [OF Lookup_grows(1)] by (fastforce simp: wp_def split: prod.splits sum.splits)
qed

theorem LookupSlot_refines_witness:
  "case LookupSlot wLib 4 wFull of
      (Inr r, t) \<Rightarrow> r = specLookup wParams wRows (Some 6) 4 \<and> grows wLib wFull t
    | (Inl e, t) \<Rightarrow> envErr wLib False wFull e \<and> grows wLib wFull t"
  by (rule LookupSlot_refines [OF wLib_ok wFull_ok(2,3)])

text \<open>C13: \<open>LookupVHs\<close> returns one entry per requested hash in request order, or names the first requested hash that the slot does not carry.\<close>

theorem LookupVHs_refines:
  assumes "lib_ok L" "cacheOk L s" "headOk L s (cur s) p rows syn"
  shows "case LookupVHs L slot vhs s of
      (Inr r, t) \<Rightarrow> r = specLookupVHs p rows syn slot vhs \<and> grows L s t
    | (Inl e, t) \<Rightarrow> envErr L False s e \<and> grows L s t"
proof -
  have "wp (LookupVHs L slot vhs) (envErr L False s) (\<lambda>r t. r = specLookupVHs p rows syn slot vhs) s"
    by (rule LookupVHs_wp [OF assms(1,2)]) (use assms(3) in \<open>auto simp: headOk_def\<close>)
  then show ?thesis using keepsD [OF Lookup_grows(2)] by (fastforce simp: wp_def split: prod.splits sum.splits)
qed

theorem LookupVHs_refines_witness:
  "case LookupVHs wLib 1 [8, 7] wFull of
      (Inr r, t) \<Rightarrow> r = specLookupVHs wParams wRows (Some 6) 1 [8, 7] \<and> grows wLib wFull t
    | (Inl e, t) \<Rightarrow> envErr wLib False wFull e \<and> grows wLib wFull t"
  by (rule LookupVHs_refines [OF wLib_ok wFull_ok(2,3)])



text \<open>C15: When \<open>ApplyRefs\<close>, \<open>Truncate\<close>, \<open>TruncateRetainingWindow\<close> or \<open>TruncateToEmpty\<close> fails, at whatever point, the published state is the one before the call and every block that could be read before can still be read.\<close>

theorem failures_leave_the_head:
  assumes "lib_ok L"
    and "ApplyRefs L cfg batch n s = (Inl e, t) \<or> Truncate L slot s = (Inl e, t) \<or>
      TruncateRetainingWindow L slot ws s = (Inl e, t) \<or> TruncateToEmpty L s = (Inl e, t)"
  shows "cur t = cur s \<and> (\<forall>c b. validatingGet L (enBlocks s) c = Inr b \<longrightarrow> validatingGet L (enBlocks t) c = Inr b)"
proof -
  have "ApplyRefs L cfg batch n s = (Inl e, t) \<Longrightarrow> grows L s t"
    using ApplyRefs_fail [OF assms(1), of cfg batch n] by (auto simp: failKeeps_def)
  moreover have "Truncate.truncate L slot ws' retain s = (Inl e, t) \<Longrightarrow> grows L s t" for ws' retain
    using truncate_fail [OF assms(1), of slot ws' retain] by (auto simp: failKeeps_def)
  moreover have "TruncateToEmpty L s = (Inl e, t) \<Longrightarrow> grows L s t"
    using TruncateToEmpty_fail [OF assms(1)] by (auto simp: failKeeps_def)
  ultimately have "grows L s t"
    using assms(2) by (auto simp: Truncate_def TruncateRetainingWindow_def)
  then show ?thesis by (auto simp: grows_def dest: extends_get)
qed

theorem failures_leave_the_head_witness:
  "\<exists>e t. Truncate wLib 7 wFull = (Inl e, t) \<and> cur t = cur wFull"
proof -
  have "Truncate wLib 7 wFull = (Inl (Conflict CTruncatePastSynced), wFull)"
    using wFull_ok(3) by (simp add: Truncate_def Truncate.truncate_def Let_def headOk_def bodyOk_def)
  with failures_leave_the_head [OF wLib_ok disjI2 [OF disjI1 [OF this]]] show ?thesis by blast
qed

text \<open>C16: After a successful \<open>TruncateRetainingWindow\<close> every blob of a surviving row whose window is retained by the new head but was not by the old one, or that was copied into the rewritten segment, is present in the store.\<close>

theorem TruncateRetainingWindow_retains:
  assumes "lib_ok L" "cacheOk L s" "headOk L s (cur s) p rows (Some x)" "TruncateRetainingWindow L slot ws s = (Inr r, t)"
    and "row \<in> set rows" "rSlot row \<le> slot" "e \<in> set (rEntries row)"
    and "retainedFrom p slot ws \<le> ord (rSlot row) (pSegBits p)" "ord (rSlot row) (pSegBits p) < retainedFrom p x ws \<or> ord (rSlot row) (pSegBits p) = ord slot (pSegBits p)"
  shows "\<exists>c. eBlob e = Some c \<and> cidCodec c = codecRaw \<and> hashHeld L t (cidHash c)"
proof -
  let ?w = "ord (rSlot row) (pSegBits p)"
  have run: "Truncate.truncate L slot ws True s = (Inr r, t)" using assms(4) by (simp add: TruncateRetainingWindow_def)
  have st: "params (cur s) = p" "covered (cur s)" "syncedTo (cur s) = x" "rowsOk rows" using assms(3) by (auto simp: headOk_def bodyOk_def rowsIn_def)
  have c: "slot \<le> x" "pOriginSlot p \<le> slot"
    using run st by (auto simp: Truncate.truncate_def bind_Inr_iff Let_def not_less split: if_splits)
  have "wp (Truncate.truncate L slot ws True) (\<lambda>e. envErr L True s e \<or> True \<and> \<not> blobsHeld L s (upTo slot rows))
      (\<lambda>_ u. touched L u (blobLinks (winRows (pSegBits p) (ord slot (pSegBits p)) (upTo slot rows))) \<and>
        retainedTouched L p x slot ws (upTo slot rows) u) s"
    by (rule truncate_wp [OF assms(1-3) c(2,1)]) auto
  from wp_Inr [OF this run]
  have "touched L t (blobLinks (winRows (pSegBits p) (ord slot (pSegBits p)) (upTo slot rows)))" and
    "newlyRetained p x slot ws ?w \<Longrightarrow> touched L t (blobLinks (winRows (pSegBits p) ?w (upTo slot rows)))"
    by (auto simp: retainedTouched_def)
  then have "touched L t (blobLinks (winRows (pSegBits p) ?w (upTo slot rows)))"
    using assms(8,9) ord_mono [OF assms(6)] by (auto simp: newlyRetained_def)
  moreover have "eBlob e \<in> set (blobLinks (winRows (pSegBits p) ?w (upTo slot rows)))"
    using assms(5-7) by (auto simp: blobLinks_def winRows_def)
  moreover have "eBlob e \<noteq> None" using st(4) assms(5,7) by (auto simp: rowsOk_def rowOk_def)
  ultimately show ?thesis by (auto simp: touched_def)
qed

theorem TruncateRetainingWindow_retains_witness:
  "\<exists>r t. TruncateRetainingWindow wLib 4 1 wFull = (Inr r, t) \<and> hashHeld wLib t (cidHash wBlob)"
proof -
  have x: "pOriginSlot wParams \<le> 4" "4 \<le> (6 :: u64)" by (simp_all add: wParams_def)
  have held: "blobsHeld wLib wFull (upTo 4 wRows)"
  proof -
    have "blobHeld wLib wFull (Some wBlob)" using wFull_ok(4) unfolding blobHeld_Some by (auto simp: wBlob_def)
    then show ?thesis by (auto simp: blobsHeld_def blobLinks_def wRows_def rowOf_def entryOf_def wResolver_def)
  qed
  have "wp (Truncate.truncate wLib 4 1 True) (\<lambda>e. envErr wLib False wFull e \<or> True \<and> \<not> blobsHeld wLib wFull (upTo 4 wRows)) (\<lambda>_ _. True) wFull"
    by (rule truncate_wp [OF wLib_ok wFull_ok(2,3) x]) simp
  then have "wp (TruncateRetainingWindow wLib 4 1) (envErr wLib False wFull) (\<lambda>_ _. True) wFull"
    using held by (simp add: TruncateRetainingWindow_def)
  then obtain r t where run: "TruncateRetainingWindow wLib 4 1 wFull = (Inr r, t)" using faultless_run [OF wFull_ok(1)] by blast
  let ?row = "rowOf wResolver \<lparr>rrSlot = 4, rrVHs = [9]\<rparr>"
  have row: "?row \<in> set wRows" "rSlot ?row = 4" "rEntries ?row = [RefEntry 9 (Some wBlob)]"
    by (simp_all add: wRows_def wBatch_def rowOf_def entryOf_def wResolver_def)
  have "retainedFrom wParams 4 1 \<le> ord 4 (pSegBits wParams)"
    by (simp add: retainedFrom_def wParams_def ord_def)
  with TruncateRetainingWindow_retains [OF wLib_ok wFull_ok(2,3) run row(1), of "RefEntry 9 (Some wBlob)"] row(2,3)
  have "hashHeld wLib t (cidHash wBlob)" by simp
  with run show ?thesis by blast
qed

text \<open>C18: Without a collection generation the cross-root cache of segment proofs changes no admission decision and no result of \<open>Enumerate\<close>: any two caches of true proofs give the same outcome.\<close>

theorem Enumerate_cache_irrelevant:
  assumes "lib_ok L" "proofsOk L c" "proofsOk L c'"
  shows "fst (Enumerate L None after (s\<lparr>enStructure := c\<rparr>)) = fst (Enumerate L None after (s\<lparr>enStructure := c'\<rparr>))"
  using assms by (rule Enumerate_structure)

theorem Enumerate_cache_irrelevant_witness:
  "fst (Enumerate wLib None None (wFull\<lparr>enStructure := enStructure (snd (Enumerate wLib None None wFull))\<rparr>)) =
   fst (Enumerate wLib None None (wFull\<lparr>enStructure := []\<rparr>))"
proof (rule Enumerate_cache_irrelevant [OF wLib_ok])
  have "archiveOk wLib wParams (snd (Enumerate wLib None None wFull))"
    using listed_archiveOk [OF reach_archiveOk [OF wLib_ok wFull_ok(5)]] by (metis prod.collapse)
  then show "proofsOk wLib (enStructure (snd (Enumerate wLib None None wFull)))" by (simp add: archiveOk_def)
qed (simp add: proofsOk_def)



text \<open>C20: Truncating to the old coverage after an extending \<open>ApplyRefs\<close> restores the old state, root CID included.\<close>

theorem Truncate_undoes_ApplyRefs:
  assumes "lib_ok L" "cacheOk L s" "headOk L s (cur s) p rows (Some x)" "x < n" "n < maxInt64"
    and "ApplyRefs L cfg batch n s = (Inr r, t)" "Truncate L x t = (Inr r', u)"
  shows "cur u = cur s"
proof -
  have "\<exists>rows'. headOk L t (cur t) p rows' (Some n) \<and> cacheOk L t \<and> upTo x rows' = rows"
  proof -
    have "wp (ApplyRefs L cfg batch n) (\<lambda>_. True) (\<lambda>_ t. moves L s t \<and> (\<exists>rows' syn'.
        specApply p cfg (availIn L s cfg) rows (Some x) batch n = Some (rows', syn') \<and> headOk L t (cur t) p rows' syn')) s"
      by (rule wp_mono [OF ApplyRefs_wp [OF assms(1-3) less_imp_le [OF assms(5)] disjI2 [OF assms(5)] refl]]) auto
    from wp_Inr [OF this assms(6)] obtain rows' syn' where sp: "specApply p cfg (availIn L s cfg) rows (Some x) batch n = Some (rows', syn')"
      and t: "headOk L t (cur t) p rows' syn'" "moves L s t" by blast
    obtain rs where "rows' = rows @ map (rowOf rs) batch" "syn' = Some n" "\<forall>r\<in>set batch. x < rrSlot r"
      using sp assms(4) by (auto simp: specApply_def not_le split: if_splits option.splits)
    moreover have "rowsIn p rows x" using assms(3) by (simp add: headOk_def bodyOk_def)
    ultimately have "upTo x rows' = rows" using upTo_append [of p rows x "map (rowOf rs) batch"] by auto
    with t \<open>syn' = Some n\<close> moves_cacheOk [OF t(2) assms(2)] show ?thesis by blast
  qed
  then obtain rows' where t: "headOk L t (cur t) p rows' (Some n)" "cacheOk L t" "upTo x rows' = rows" by blast
  have x: "pOriginSlot p \<le> x" "x \<le> n" using assms(3,4) by (auto simp: headOk_def bodyOk_def)
  have "wp (Truncate.truncate L x 0 False) (\<lambda>e. envErr L True t e \<or> False \<and> \<not> blobsHeld L t (upTo x rows'))
      (\<lambda>_ u. headOk L u (cur u) p (upTo x rows') (Some x)) t"
    by (rule truncate_wp [OF assms(1) t(2,1) x]) simp
  from wp_Inr [OF this assms(7) [unfolded Truncate_def]] t(3) have "headOk L u (cur u) p rows (Some x)" by simp
  then show ?thesis using headOk_unique assms(3) by blast
qed

theorem Truncate_undoes_ApplyRefs_witness:
  "\<exists>r t r' u. ApplyRefs wLib (Some wResolver) [] 9 wFull = (Inr r, t) \<and> Truncate wLib 6 t = (Inr r', u) \<and> cur u = cur wFull"
proof -
  have n: "(9 :: u64) < maxInt64" by (simp add: maxInt64_def)
  have sp: "specApply wParams (Some wResolver) (availIn wLib wFull (Some wResolver)) wRows (Some 6) [] 9 = Some (wRows, Some 9)"
    by (simp add: specApply_def shapeOk_def wParams_def)
  have "wp (ApplyRefs wLib (Some wResolver) [] 9) (envErr wLib False wFull) (\<lambda>_ t. moves wLib wFull t \<and> headOk wLib t (cur t) wParams wRows (Some 9)) wFull"
    by (rule wp_mono [OF ApplyRefs_wp [OF wLib_ok wFull_ok(2,3) less_imp_le [OF n] disjI2 [OF n] refl]]) (use sp in auto)
  from faultless_run [OF wFull_ok(1) this] obtain r t where
    t: "ApplyRefs wLib (Some wResolver) [] 9 wFull = (Inr r, t)" "moves wLib wFull t" "headOk wLib t (cur t) wParams wRows (Some 9)" by blast
  have "wp (Truncate.truncate wLib 6 0 False) (\<lambda>e. envErr wLib False t e \<or> False \<and> \<not> blobsHeld wLib t (upTo 6 wRows)) (\<lambda>_ _. True) t"
    by (rule truncate_wp [OF wLib_ok moves_cacheOk [OF t(2) wFull_ok(2)] t(3)]) (simp_all add: wParams_def)
  then have "wp (Truncate wLib 6) (envErr wLib False t) (\<lambda>_ _. True) t" by (simp add: Truncate_def)
  from faultless_run [OF faultless_moves [OF t(2) wFull_ok(1)] this] obtain r' u where u: "Truncate wLib 6 t = (Inr r', u)" by blast
  have "cur u = cur wFull"
    by (rule Truncate_undoes_ApplyRefs [OF wLib_ok wFull_ok(2,3) _ n t(1) u]) simp
  with t(1) u show ?thesis by blast
qed









text \<open>C29: Decoding an encoded segment gives it back, and no other segment has its CID.\<close>

theorem segment_roundtrip_cid:
  assumes "lib_ok L" "EncodeSegment L s = Inr (b, c)"
  shows "DecodeSegment L b = Inr s \<and> (\<forall>s' b'. EncodeSegment L s' = Inr (b', c) \<longrightarrow> s' = s)"
  using segC.roundtrip [OF assms] segC.cid_determines(1) [OF assms(1) _ assms(2)] by auto

theorem segment_roundtrip_cid_witness:
  "\<exists>b c. EncodeSegment wLib (segOf wParams wRows 2) = Inr (b, c) \<and> DecodeSegment wLib b = Inr (segOf wParams wRows 2) \<and>
    length (sRows (segOf wParams wRows 2)) = 1"
proof -
  have "segmentEncodable (segOf wParams wRows 2)"
    by (simp add: segmentEncodable_def SegmentValidate_iff segOf_def winRows_def wRows_def wBatch_def wParams_def rowsOk_def rowOk_def rowOf_def
      entryOf_def wResolver_def ord_def windowStart_def maxInt64_def)
  then obtain b c where e: "EncodeSegment wLib (segOf wParams wRows 2) = Inr (b, c)" using segmentEncodable_iff [OF wLib_ok] by blast
  moreover have "length (sRows (segOf wParams wRows 2)) = 1"
    by (simp add: segOf_def winRows_def wRows_def wBatch_def wParams_def rowOf_def ord_def)
  ultimately show ?thesis using segment_roundtrip_cid [OF wLib_ok e] by blast
qed

text \<open>C30: Decoding an encoded head gives it back, and no other head has its CID.\<close>

theorem head_roundtrip_cid:
  assumes "lib_ok L" "EncodeHead L h = Inr (b, c)"
  shows "DecodeHead L b = Inr h \<and> (\<forall>h' b'. EncodeHead L h' = Inr (b', c) \<longrightarrow> h' = h)"
  using headC.roundtrip [OF assms] headC.cid_determines(1) [OF assms(1) _ assms(2)] by auto

theorem head_roundtrip_cid_witness:
  "\<exists>b c. EncodeHead wLib (headObject (cur wFull)) = Inr (b, c) \<and> DecodeHead wLib b = Inr (headObject (cur wFull))"
  using wFull_ok(3) head_roundtrip_cid [OF wLib_ok] by (auto simp: headOk_def)

text \<open>C31: Decoding an encoded directory page gives its links without the trailing nulls, and two pages have the same CID exactly when they differ only in trailing nulls.\<close>

theorem dirNode_roundtrip_cid:
  assumes "lib_ok L" "EncodeDirNode L d = Inr (b, c)"
  shows "DecodeDirNode L b = Inr \<lparr>dKids = trimTrailingNulls (dKids d)\<rparr> \<and>
    (\<forall>d' b' c'. EncodeDirNode L d' = Inr (b', c') \<longrightarrow> (c' = c \<longleftrightarrow> trimTrailingNulls (dKids d') = trimTrailingNulls (dKids d)))"
  using dirC.roundtrip [OF assms] dirC.cid_eq_iff [OF assms(1) _ assms(2)] by (auto simp: canonDirNode_def)

theorem dirNode_roundtrip_cid_witness:
  "\<exists>b c. EncodeDirNode wLib \<lparr>dKids = [None, Some wBlob, None]\<rparr> = Inr (b, c) \<and> DecodeDirNode wLib b = Inr \<lparr>dKids = [None, Some wBlob]\<rparr>"
proof -
  obtain b c where e: "EncodeDirNode wLib \<lparr>dKids = [None, Some wBlob, None]\<rparr> = Inr (b, c)"
    using pageCid_Some [OF wLib_ok, of "[None, Some wBlob, None]"] by (auto simp: pageCid_def split: sum.splits)
  have "trimTrailingNulls [None, Some wBlob, None] = [None, Some wBlob]" by (simp add: trimTrailingNulls_def)
  with dirNode_roundtrip_cid [OF wLib_ok e] e show ?thesis by simp
qed

text \<open>C32: Decoding an encoded manifest gives it back up to the unused end block of an open-ended source, and encoding the result gives the same block and CID.\<close>

theorem manifest_roundtrip_cid:
  assumes "lib_ok L" "EncodeManifest L m = Inr (b, c)"
  shows "DecodeManifest L b = Inr (canonManifest m) \<and> EncodeManifest L (canonManifest m) = Inr (b, c)"
  using manC.roundtrip [OF assms] EncodeManifest_canon [of L m] assms by simp

theorem manifest_roundtrip_cid_witness:
  "\<exists>b c. EncodeManifest wLib wManifest = Inr (b, c) \<and> DecodeManifest wLib b = Inr (canonManifest wManifest)"
proof -
  have "manifestEncodable wManifest"
    by (simp add: manifestEncodable_def wManifest_def ManifestValidate_def SourceValidate_def sourceInts_def headNameRE_def headNameChar_def maxInt64_def)
  then obtain b c where e: "EncodeManifest wLib wManifest = Inr (b, c)" using manC.encodable_iff [OF wLib_ok, of wManifest] by blast
  with manifest_roundtrip_cid [OF wLib_ok e] show ?thesis by blast
qed



text \<open>C34: \<open>canonicalDepth\<close> is the least depth, at least one, whose capacity holds the given number of entries.\<close>

theorem canonicalDepth_minimal:
  assumes "1 \<le> fb" "fb \<le> 32" "n \<noteq> 0"
  shows "1 \<le> canonicalDepth n fb \<and> unat n \<le> (2 ^ unat fb) ^ unat (canonicalDepth n fb) \<and>
    (\<forall>d. 1 \<le> d \<and> unat n \<le> (2 ^ unat fb) ^ d \<longrightarrow> unat (canonicalDepth n fb) \<le> d)"
proof -
  have fb: "fanoutOk fb" using assms by (simp add: fanoutOk_def)
  have n: "unat n \<noteq> 0" using assms(3) by (simp add: u64_eq_iff)
  note d = canonicalDepth_depthFor(1) [OF fb, of n]
  then have "1 \<le> unat (canonicalDepth n fb)" "unat n \<le> fan fb ^ unat (canonicalDepth n fb)" using n by (auto simp: depthFor_def)
  moreover have "unat (canonicalDepth n fb) \<le> e" if e: "1 \<le> e" "unat n \<le> fan fb ^ e" for e
  proof (rule ccontr)
    assume "\<not> unat (canonicalDepth n fb) \<le> e"
    then have "fan fb ^ e \<le> fan fb ^ (unat (canonicalDepth n fb) - 1)" using fan_ge2 [OF fb] by (intro power_increasing) auto
    with d n e \<open>\<not> unat (canonicalDepth n fb) \<le> e\<close> show False by (auto simp: depthFor_def)
  qed
  ultimately show ?thesis by (auto simp: word_le_nat_alt)
qed

theorem canonicalDepth_minimal_witness:
  "unat (canonicalDepth 9 1) \<le> 4 \<and> 1 \<le> canonicalDepth 9 1"
proof -
  have "1 \<le> canonicalDepth 9 1 \<and> unat (9 :: u64) \<le> (2 ^ unat (1 :: u64)) ^ unat (canonicalDepth 9 1) \<and>
    (\<forall>d. 1 \<le> d \<and> unat (9 :: u64) \<le> (2 ^ unat (1 :: u64)) ^ d \<longrightarrow> unat (canonicalDepth 9 1) \<le> d)"
    by (rule canonicalDepth_minimal) simp_all
  moreover have "unat (9 :: u64) \<le> (2 ^ unat (1 :: u64)) ^ 4" by simp
  ultimately show ?thesis by (metis one_le_numeral)
qed

text \<open>C35: The unbounded loop of \<open>canonicalDirectoryPages\<close> returns for every fanout in range and every count up to half the word range, and counts the pages of every level of the canonical directory.\<close>

theorem canonicalDirectoryPages_returns:
  assumes "1 \<le> fb" "fb \<le> 32" "unat n \<le> 2 ^ 63"
  shows "\<exists>p. canonicalDirectoryPages n fb = Some p \<and>
    unat p = (if n = 0 then 0 else \<Sum>j = 1..unat (canonicalDepth n fb). (unat n - 1) div (2 ^ unat fb) ^ j + 1)"
proof -
  have "fanoutOk fb" using assms by (simp add: fanoutOk_def)
  from canonicalDirectoryPages_eq [OF this assms(3)] show ?thesis by (simp only: dirPages_def)
qed

theorem canonicalDirectoryPages_returns_witness:
  "\<exists>p. canonicalDirectoryPages 9 1 = Some p"
  using canonicalDirectoryPages_returns [of 1 9] by auto



text \<open>C37: The windows partition the slots: a slot lies within the bounds of its own window and of no other, up to the last window, whose end does not overflow.\<close>

theorem window_partition:
  assumes "k \<le> 63"
  shows "windowStart (ord slot k) k \<le> slot \<and> slot \<le> windowEnd (ord slot k) k \<and>
    (\<forall>w. unat w < 2 ^ (64 - unat k) \<and> windowStart w k \<le> slot \<and> slot \<le> windowEnd w k \<longrightarrow> w = ord slot k)"
  using ord_eq_iff [OF windowOk_ord [OF assms, of slot], of slot] ord_eq_iff [of k _ slot] assms by (auto simp: windowOk_def)

theorem window_partition_witness:
  "windowStart (ord 37 5) 5 \<le> 37 \<and> 37 \<le> windowEnd (ord 37 5) 5"
  using window_partition [of 5 37] by simp

section \<open>Properties of retention and collection\<close>

text \<open>C3: An online collection, for every interleaving with the application and every outcome, keeps every stored block that the pins in the ledger reach and that the application does not delete; after a successful run all of these are stored, healed ones included; the run ends the epoch it began.\<close>

theorem gc_keeps_live:
  assumes "lib_ok L" "cfgOk L K cfg" "kvInv K (gcRec s)" "epInv K (gcStore s)"
  shows "case runOnline L K cfg fuel events s of
      (Inr (stats, e), t) \<Rightarrow> (\<forall>k\<in>liveKeys (shaLink L) (ledgerPins K cfg (gcRec t)) - schedDeletes s. present s k \<or> e = None \<longrightarrow> present t k) \<and>
        epActive (gcStore t) = epActive (gcStore s)
    | (Inl _, _) \<Rightarrow> False"
proof -
  obtain r t where run: "runOnline L K cfg fuel events s = (r, t)" by fastforce
  from runOnline_run [OF assms run] show ?thesis by (auto simp: run epochRun_def)
qed

theorem gc_keeps_live_witness:
  "\<exists>stats t. runOnline wLib wK wCfg 5 wEvents wIdle = (Inr (stats, None), t) \<and> \<not> present t (cidHash wJunk) \<and>
     (\<forall>k\<in>liveKeys (shaLink wLib) (ledgerPins wK wCfg (gcRec t)). present t k)"
proof -
  obtain stats t where run: "runOnline wLib wK wCfg 5 wEvents wIdle = (Inr (stats, None), t)" "\<not> present t (cidHash wJunk)" using wIdle_run by blast
  have "case runOnline wLib wK wCfg 5 wEvents wIdle of
      (Inr (stats, e), t) \<Rightarrow> (\<forall>k\<in>liveKeys (shaLink wLib) (ledgerPins wK wCfg (gcRec t)) - schedDeletes wIdle. present wIdle k \<or> e = None \<longrightarrow> present t k) \<and>
        epActive (gcStore t) = epActive (gcStore wIdle)
    | (Inl _, _) \<Rightarrow> False" by (rule gc_keeps_live [OF wLib_ok wCfg_ok wIdle_ok(1,2)])
  with run show ?thesis by (simp add: wIdle_ok(3))
qed

text \<open>C2: A collection never loses a blob of the retention window: whatever the application does meanwhile and however the run ends, a blob named by a row of a registered archive under a window policy, with its slot at most the number of window slots behind the coverage, is still stored afterwards unless the application itself deletes it, and after a successful run it is stored in any case.\<close>

theorem gc_keeps_window_blobs:
  assumes "lib_ok L" "cfgOk L K cfg" "kvInv K (gcRec s)" "epInv K (gcStore s)" "regWf (gcRec s)"
    and "map_of (rcHeads (gcRec s)) name = Some e" "reHead e = Some h" "\<not> reWithdrawal e" "poMode (rePolicy e) = ModeWindow" "name \<noteq> StagingHead"
    and "headOk L h (cur h) p rows (Some x)" "proofsOk L (enStructure h)"
    and "r \<in> set rows" "unat x \<le> unat (rSlot r) + unat (WindowSlots (rePolicy e))" "b \<in> set (rEntries r)" "eBlob b = Some blob" "cidHash blob \<notin> schedDeletes s"
  shows "case runOnline L K cfg fuel events s of
      (Inr (stats, err), t) \<Rightarrow> present s (cidHash blob) \<or> err = None \<longrightarrow> present t (cidHash blob)
    | (Inl _, _) \<Rightarrow> False"
proof -
  obtain res t where run: "runOnline L K cfg fuel events s = (res, t)" by fastforce
  from runOnline_run [OF assms(1-4) run] obtain stats err where res: "res = Inr (stats, err)"
    and er: "epochRun L (ledgerPins K cfg (gcRec t)) (schedDeletes s) (length (epStates (gcStore s))) events s err t"
    and pd: "(\<exists>groups. prepared L K cfg groups s t) \<or> err \<noteq> None \<and> (\<forall>k. k \<notin> schedDeletes s \<longrightarrow> present s k \<longrightarrow> present t k)" by blast
  have "present t (cidHash blob)" if "present s (cidHash blob) \<or> err = None"
    using pd
  proof
    assume "\<exists>groups. prepared L K cfg groups s t"
    then obtain groups where "prepared L K cfg groups s t" by blast
    from window_blob_live [OF this assms(5,1,11,12) assms(6-10) assms(13) windowLow_covers [OF assms(14)] assms(15,16)] er assms(17) that show ?thesis unfolding epochRun_def by blast
  qed (use that assms(17) in blast)
  then show ?thesis by (simp add: run res)
qed

theorem gc_keeps_window_blobs_witness:
  "case runOnline wLib wK wCfg 5 wEvents wGc of
      (Inr (stats, err), t) \<Rightarrow> present wGc (cidHash wBlob) \<or> err = None \<longrightarrow> present t (cidHash wBlob)
    | (Inl _, _) \<Rightarrow> False"
proof (rule gc_keeps_window_blobs [OF wLib_ok wCfg_ok wGc_ok(1,2,4) _ _ _ _ _ wFull_ok(3)])
  show "proofsOk wLib (enStructure wFull)" using reach_archiveOk [OF wLib_ok wFull_ok(5)] by (simp add: archiveOk_def)
  show "map_of (rcHeads (gcRec wGc)) ''w'' = Some \<lparr>reHead = Some wFull, rePolicy = wWindow, reWithdrawal = False\<rparr>" by (simp add: wGc_def wRec_def)
  show "rowOf wResolver \<lparr>rrSlot = 6, rrVHs = [7]\<rparr> \<in> set wRows" by (simp add: wRows_def wBatch_def)
  show "RefEntry 7 (Some wBlob) \<in> set (rEntries (rowOf wResolver \<lparr>rrSlot = 6, rrVHs = [7]\<rparr>))" by (simp add: rowOf_def wResolver_def entryOf_def)
qed (simp_all add: wGc_ok(3) wWindow_def Window_def windowLow_def WindowSlots_def rowOf_def unat_div)

text \<open>C17: A blob staged by \<open>Pin\<close> is not collected by a run before its expiry, taken in whole seconds, has passed, unless the application deletes it.\<close>

theorem gc_keeps_staged:
  assumes "lib_ok L" "cfgOk L K cfg" "epInv K (gcStore s)" "cidLib_ok K" "kvWf K kv" "StagingPin K ttl now cids kv = (Inr (), rcKv (gcRec s))"
    and "Some c \<in> set cids" "StagingHead \<notin> set (rcNames (gcRec s))" "stagingClock cfg = Some clock"
    and "- (2 ^ 63) \<le> Unix (now + ttl)" "Unix (now + ttl) < 2 ^ 63" "clock < Unix (now + ttl) * 1000000000" "cidHash c \<notin> schedDeletes s"
  shows "case runOnline L K cfg fuel events s of
      (Inr (stats, e), t) \<Rightarrow> present s (cidHash c) \<or> e = None \<longrightarrow> present t (cidHash c)
    | (Inl _, _) \<Rightarrow> False"
proof -
  have pin: "kvWf K (rcKv (gcRec s))" "ledgerOf K (rcKv (gcRec s)) (StagingHead, PurposeStaging, c) = Some (False, storedTime (now + ttl))"
    using StagingPin_does [OF assms(4), of ttl now cids, unfolded kvDoes_def, rule_format, OF assms(5), unfolded assms(6)] assms(7) by force+
  have kv: "kvInv K (gcRec s)" using pin(1) assms(4) by (simp add: kvInv_def)
  obtain r t where run: "runOnline L K cfg fuel events s = (r, t)" by fastforce
  from runOnline_run [OF assms(1,2) kv assms(3) run] obtain stats e where r: "r = Inr (stats, e)"
    and er: "epochRun L (ledgerPins K cfg (gcRec t)) (schedDeletes s) (length (epStates (gcStore s))) events s e t"
    and rc: "gcRec t = gcRec (snd (prepare L K cfg s))" by blast
  have "ledgerOf K (rcKv (gcRec t)) (StagingHead, PurposeStaging, c) = Some (False, storedTime (now + ttl))"
    unfolding rc by (rule prepare_staging [OF kv assms(8,9) pin(2)]) (simp add: storedTime_exact [OF assms(10,11)] assms(12))
  from staged_live [OF assms(9) this] er assms(13) show ?thesis by (auto simp: run r epochRun_def)
qed

theorem gc_keeps_staged_witness:
  "case runOnline wLib wK wCfg 5 wEvents wGc of
      (Inr (stats, e), t) \<Rightarrow> present wGc (cidHash wBlob) \<or> e = None \<longrightarrow> present t (cidHash wBlob)
    | (Inl _, _) \<Rightarrow> False"
proof (rule gc_keeps_staged [OF wLib_ok wCfg_ok wGc_ok(2) wK_ok wEmpty_ok, where ttl = 8000000000 and now = 1000000000 and cids = "[Some wBlob]" and clock = 1000000000])
  show "StagingPin wK 8000000000 1000000000 [Some wBlob] \<lparr>kvRows = [], kvFaults = []\<rparr> = (Inr (), rcKv (gcRec wGc))"
    by (simp add: wGc_def wRec_def wKv_def StagingPin_def stagingEntry_def wStaged_def AddBatch_def pinBatch_def bindE_def ctxErr_def faultOr_def kvCommit_def
      bind_def checkName_def strBytes_def)
  show "StagingHead \<notin> set (rcNames (gcRec wGc))" "stagingClock wCfg = Some 1000000000" by (simp_all add: wGc_def wRec_def wCfg_def)
qed (simp_all add: wGc_ok(3) Unix_def)

text \<open>C9: After a successful online collection every enumerated key that is still stored is reached by a pin or was recorded as touched during the epoch: nothing else survives.\<close>

theorem gc_collects:
  assumes "lib_ok L" "cfgOk L K cfg" "kvInv K (gcRec s)" "epInv K (gcStore s)"
  shows "case runOnline L K cfg fuel events s of
      (Inr (stats, None), t) \<Rightarrow> (\<exists>evs. events = Inr evs \<and> (\<forall>c. EKey c \<in> set evs \<longrightarrow> present t (cidHash c) \<longrightarrow>
        cidHash c \<in> liveKeys (dagLink L) (ledgerPins K cfg (gcRec t)) \<or> cidHash c \<in> keysAt (gcStore t) (length (epStates (gcStore s)))))
    | _ \<Rightarrow> True"
proof -
  obtain r t where run: "runOnline L K cfg fuel events s = (r, t)" by fastforce
  from runOnline_run [OF assms run] obtain stats e where r: "r = Inr (stats, e)"
    and er: "epochRun L (ledgerPins K cfg (gcRec t)) (schedDeletes s) (length (epStates (gcStore s))) events s e t" by blast
  show ?thesis using er by (cases e) (simp_all add: run r epochRun_def)
qed

theorem gc_collects_witness:
  "\<exists>stats t. runOnline wLib wK wCfg 5 wEvents wIdle = (Inr (stats, None), t) \<and> (\<exists>evs. wEvents = Inr evs \<and> (\<forall>c. EKey c \<in> set evs \<longrightarrow> present t (cidHash c) \<longrightarrow>
     cidHash c \<in> liveKeys (dagLink wLib) (ledgerPins wK wCfg (gcRec t)) \<or> cidHash c \<in> keysAt (gcStore t) (length (epStates (gcStore wIdle)))))"
proof -
  obtain stats t where run: "runOnline wLib wK wCfg 5 wEvents wIdle = (Inr (stats, None), t)" using wIdle_run by blast
  from gc_collects [OF wLib_ok wCfg_ok wIdle_ok(1,2), where fuel = 5 and events = wEvents] run show ?thesis by simp
qed

text \<open>C24: A collection without epochs, with the application shut out, keeps every block the pins reach; after a success the enumerated keys that remain are reached by pins, and keys that were not enumerated are untouched.\<close>

theorem gc_offline_exact:
  assumes "lib_ok L" "cfgOk L K cfg" "kvInv K (gcRec s)" "epInv K (gcStore s)" "gcSchedule s = []"
  shows "case runOffline L K cfg fuel keys s of
      (Inr (stats, e), t) \<Rightarrow>
        (\<forall>k\<in>liveKeys (shaLink L) (ledgerPins K cfg (gcRec t)). present s k \<or> e = None \<longrightarrow> present t k) \<and>
        (e = None \<longrightarrow> (\<exists>ks. keys = Inr ks \<and>
          (\<forall>c\<in>set ks. present t (cidHash c) \<longrightarrow> cidHash c \<in> liveKeys (dagLink L) (ledgerPins K cfg (gcRec t))) \<and>
          (\<forall>k. k \<notin> cidHash ` set ks \<longrightarrow> present s k \<longrightarrow> present t k)))
    | (Inl _, _) \<Rightarrow> False"
proof -
  obtain r t where run: "runOffline L K cfg fuel keys s = (r, t)" by fastforce
  from runOffline_run [OF assms run] obtain stats e where "r = Inr (stats, e)"
    "\<forall>k\<in>liveKeys (shaLink L) (ledgerPins K cfg (gcRec t)). present s k \<or> e = None \<longrightarrow> present t k"
    "e = None \<longrightarrow> (\<exists>ks. keys = Inr ks \<and> (\<forall>c\<in>set ks. present t (cidHash c) \<longrightarrow> cidHash c \<in> liveKeys (dagLink L) (ledgerPins K cfg (gcRec t))) \<and>
      (\<forall>k. k \<notin> cidHash ` set ks \<longrightarrow> present s k \<longrightarrow> present t k))" by blast
  then show ?thesis unfolding run by simp
qed

theorem gc_offline_exact_witness:
  "case runOffline wLib wK wCfg 5 (Inr [wBlob, wTop, wJunk]) (wGc\<lparr>gcSchedule := []\<rparr>) of
      (Inr (stats, e), t) \<Rightarrow>
        (\<forall>k\<in>liveKeys (shaLink wLib) (ledgerPins wK wCfg (gcRec t)). present (wGc\<lparr>gcSchedule := []\<rparr>) k \<or> e = None \<longrightarrow> present t k) \<and>
        (e = None \<longrightarrow> (\<exists>ks. (Inr [wBlob, wTop, wJunk] :: wdig err + wdig cid list) = Inr ks \<and>
          (\<forall>c\<in>set ks. present t (cidHash c) \<longrightarrow> cidHash c \<in> liveKeys (dagLink wLib) (ledgerPins wK wCfg (gcRec t))) \<and>
          (\<forall>k. k \<notin> cidHash ` set ks \<longrightarrow> present (wGc\<lparr>gcSchedule := []\<rparr>) k \<longrightarrow> present t k)))
    | (Inl _, _) \<Rightarrow> False"
  by (rule gc_offline_exact [OF wLib_ok wCfg_ok]) (use wGc_ok in simp_all)

text \<open>C7: A successful marking marks everything that the pins reach through SHA-256 blocks, nothing that they do not reach, and every marked block is stored unless the application deletes it; a marking that fails has removed nothing.\<close>

theorem mark_exact:
  assumes "lib_ok L" "epInv K (gcStore s)" "\<forall>g\<in>set groups. \<forall>f. hmFetch g = Some f \<longrightarrow> (\<exists>net. netOk L net \<and> f = fetchingGet L K net)"
  shows "case mark L K scrub fuel groups s of
      (Inr M, t) \<Rightarrow> liveKeys (shaLink L) (groupPins groups) \<subseteq> M \<and> M \<subseteq> liveKeys (dagLink L) (groupPins groups) \<and>
        (\<forall>k\<in>M - schedDeletes s. present t k)
    | (Inl e, t) \<Rightarrow> \<forall>k. k \<notin> schedDeletes s \<longrightarrow> present s k \<longrightarrow> present t k"
proof -
  have go: "groupsOk L K groups" unfolding groupsOk_def fetchOptOk_def using assms(3) fetchingGet_ok by blast
  have s: "gcSafe K (schedDeletes s) s" using assms(2) by (simp add: gcSafe_def)
  obtain r t where run: "mark L K scrub fuel groups s = (r, t)" by fastforce
  show ?thesis
  proof (cases r)
    case (Inl e)
    then show ?thesis using gcGrows_present(2) [OF keepsD [OF mark_keeps [OF go] run] s] by (simp add: run)
  next
    case (Inr M)
    then show ?thesis using wpD [OF mark_wp [OF assms(1) go s] run [unfolded Inr]] by (simp add: run)
  qed
qed

theorem mark_exact_witness:
  "case mark wLib wK False 9 wGroups wGc of
      (Inr M, t) \<Rightarrow> liveKeys (shaLink wLib) (groupPins wGroups) \<subseteq> M \<and> M \<subseteq> liveKeys (dagLink wLib) (groupPins wGroups) \<and>
        (\<forall>k\<in>M - schedDeletes wGc. present t k)
    | (Inl e, t) \<Rightarrow> \<forall>k. k \<notin> schedDeletes wGc \<longrightarrow> present wGc k \<longrightarrow> present t k"
  by (rule mark_exact [OF wLib_ok wGc_ok(2)]) (use wNet_ok in \<open>auto simp: wGroups_def\<close>)

text \<open>C25: The frontier loop of the marking ends: over a finite block graph as many steps as there are pins in a group and links in the graph are enough, for every schedule of the application.\<close>

theorem mark_terminates:
  assumes "finiteDag L U N" "\<forall>g\<in>set groups. length (hmPins g) + sum N U \<le> fuel" "\<forall>c. (c, True) \<in> groupPins groups \<longrightarrow> c \<in> U"
    and "\<forall>g\<in>set groups. \<forall>f. hmFetch g = Some f \<longrightarrow> (\<exists>net. netOk L net \<and> f = fetchingGet L K net)"
  shows "fst (mark L K scrub fuel groups s) \<noteq> Inl NonTermination"
proof -
  have go: "groupsOk L K groups" unfolding groupsOk_def fetchOptOk_def using assms(4) fetchingGet_ok by blast
  have "wp (markGroups L K scrub fuel groups {} {}) (\<lambda>e. e \<noteq> NonTermination) (\<lambda>_ _. True) s"
    by (rule markGroups_fuel [OF assms(1) _ go]) (use assms(2,3) in auto)
  then show ?thesis by (auto simp: mark_def wp_def split: prod.splits sum.splits)
qed

theorem mark_terminates_witness: "fst (mark wLib wK False 3 wGroups wGc) \<noteq> Inl NonTermination"
proof (rule mark_terminates)
  show "finiteDag wLib {wTop, wBlob} (\<lambda>_. 1)"
    by (auto simp: finiteDag_def wTop_def wBlob_def wLib_def prefixSum_def cidPrefix_def wNode_def)
qed (use wNet_ok in \<open>auto simp: wGroups_def card_insert_if\<close>)

text \<open>C11: A completed reconciliation of a head leaves in the ledger exactly the rows that are asked for, with their flags, and no other head changes; one cut short at any point has removed a row only if it was not asked for and every row asked for is in place.\<close>

theorem reconcile_exact:
  assumes "kvInv K s" "map_of (rcHeads s) name = Some e" "reconcileHead L K g g' tip id name s = (r, t)"
  shows "(\<forall>k. fst k \<noteq> name \<longrightarrow> ledgerOf K (rcKv t) k = ledgerOf K (rcKv s) k) \<and>
    (case r of
       Inr _ \<Rightarrow> (\<exists>desired. fst (desiredPins L g g' tip name e s) = Inr desired \<and>
         (\<forall>p c. ledgerOf K (rcKv t) (name, p, c) \<noteq> None \<longleftrightarrow> asked desired p c) \<and>
         (\<forall>p c f x. ledgerOf K (rcKv t) (name, p, c) = Some (f, x) \<longrightarrow> (\<exists>q\<in>set desired. pnPurpose q = p \<and> pnCID q = Some c \<and> pnRecursive q = f)))
     | Inl _ \<Rightarrow> \<forall>p c. ledgerOf K (rcKv s) (name, p, c) \<noteq> None \<and> ledgerOf K (rcKv t) (name, p, c) = None \<longrightarrow>
         (\<exists>desired. fst (desiredPins L g g' tip name e s) = Inr desired \<and> \<not> asked desired p c \<and>
           (\<forall>p' c'. asked desired p' c' \<longrightarrow> ledgerOf K (rcKv t) (name, p', c') \<noteq> None)))"
proof -
  have K: "cidLib_ok K" using assms(1) by (simp add: kvInv_def)
  note run = reconcileHead_run [OF assms]
  show ?thesis
  proof (cases r)
    case (Inr d)
    with run obtain desired where "fst (desiredPins L g g' tip name e s) = Inr desired" "exactPins K name desired (ledgerOf K (rcKv t))" by auto
    with run Inr exactPins_rows [OF K this(2)] show ?thesis by (simp del: not_None_eq) blast
  next
    case (Inl err)
    have "\<exists>desired. fst (desiredPins L g g' tip name e s) = Inr desired \<and> \<not> asked desired p c \<and>
           (\<forall>p' c'. asked desired p' c' \<longrightarrow> ledgerOf K (rcKv t) (name, p', c') \<noteq> None)"
      if "ledgerOf K (rcKv s) (name, p, c) \<noteq> None \<and> ledgerOf K (rcKv t) (name, p, c) = None" for p c
    proof -
      have "ledgerOf K (rcKv t) \<noteq> ledgerOf K (rcKv s)" using that by auto
      then obtain desired where d: "fst (desiredPins L g g' tip name e s) = Inr desired" "crashSafe K name desired (ledgerOf K (rcKv s)) (ledgerOf K (rcKv t))"
        using run Inl that by auto
      from d(1) crashSafe_rows [OF K d(2) conjunct1 [OF that] conjunct2 [OF that]] show ?thesis by blast
    qed
    with run Inl show ?thesis by simp
  qed
qed

theorem reconcile_exact_witness:
  "ledgerOf wK (rcKv (snd wPass)) (StagingHead, PurposeStaging, wBlob) = Some (False, 9000000000) \<and>
    (case fst wPass of
       Inr _ \<Rightarrow> (\<exists>desired. fst (desiredPins wLib None None None ''w'' wEntry wRec) = Inr desired \<and>
         (\<forall>p c. ledgerOf wK (rcKv (snd wPass)) (''w'', p, c) \<noteq> None \<longleftrightarrow> asked desired p c) \<and>
         (\<forall>p c f x. ledgerOf wK (rcKv (snd wPass)) (''w'', p, c) = Some (f, x) \<longrightarrow> (\<exists>q\<in>set desired. pnPurpose q = p \<and> pnCID q = Some c \<and> pnRecursive q = f)))
     | Inl _ \<Rightarrow> \<forall>p c. ledgerOf wK (rcKv wRec) (''w'', p, c) \<noteq> None \<and> ledgerOf wK (rcKv (snd wPass)) (''w'', p, c) = None \<longrightarrow>
         (\<exists>desired. fst (desiredPins wLib None None None ''w'' wEntry wRec) = Inr desired \<and> \<not> asked desired p c \<and>
           (\<forall>p' c'. asked desired p' c' \<longrightarrow> ledgerOf wK (rcKv (snd wPass)) (''w'', p', c') \<noteq> None)))"
proof -
  have "kvInv wK wRec" "map_of (rcHeads wRec) ''w'' = Some wEntry" "ledgerOf wK (rcKv wRec) (StagingHead, PurposeStaging, wBlob) = Some (False, 9000000000)"
    using wGc_ok(1) wKv_does by (simp_all add: wGc_def wRec_def wEntry_def)
  with reconcile_exact [OF this(1,2), of wLib None None None "fst wPass" "snd wPass"] show ?thesis by (simp add: wPass_def)
qed

text \<open>C38: Applying the same desired pins a second time writes nothing and reports a zero delta.\<close>

theorem reconcile_settles:
  assumes "kvInv K s" "\<forall>p\<in>set desired. pnCID p \<noteq> None"
    and "syncPins K (\<lambda>h p c r. onKv (Add K h p c r)) (\<lambda>h p c. onKv (Remove K h p c)) (\<lambda>h. onKv (ListAll K h)) name desired s = (Inr d, t)"
  shows "case syncPins K (\<lambda>h p c r. onKv (Add K h p c r)) (\<lambda>h p c. onKv (Remove K h p c)) (\<lambda>h. onKv (ListAll K h)) name desired t of
      (Inr d', u) \<Rightarrow> d' = \<lparr>dAdded = 0, dRemoved = 0\<rparr> \<and> kvRows (rcKv u) = kvRows (rcKv t)
    | (Inl e, u) \<Rightarrow> (e = Cancelled \<or> e = KVErr) \<and> kvRows (rcKv u) = kvRows (rcKv t)"
proof -
  have K: "cidLib_ok K" using assms(1) by (simp add: kvInv_def)
  have t: "kvWf K (rcKv t)" "exactPins K name desired (ledgerOf K (rcKv t))"
    using kvl.sync_run [OF assms(1,3)] by (simp_all add: kvInv_def)
  obtain r kv where l: "ListAll K name (rcKv t) = (r, kv)" by fastforce
  note spec = ListAll_spec [OF K t(1), of name, unfolded l]
  obtain r0 kv0 where l0: "ListAll K name (rcKv s) = (r0, kv0)" by fastforce
  have "kvWf K (rcKv s)" using assms(1) by (simp add: kvInv_def)
  from ListAll_spec [OF K this, of name, unfolded l0] assms(3) have valid: "validName name"
    by (cases r0) (simp_all add: syncPins_def onKv_def l0)
  show ?thesis
  proof (cases r)
    case (Inr es)
    then have "plan K desired es = ([], [])" "kvRows kv = kvRows (rcKv t)" using spec plan_settled [OF K _ t(2) assms(2)] by (auto simp: sameRows_def)
    then show ?thesis by (simp add: syncPins_def onKv_def l Inr)
  next
    case (Inl e)
    then show ?thesis using spec valid by (simp add: syncPins_def onKv_def l sameRows_def)
  qed
qed

theorem reconcile_settles_witness:
  "\<exists>t. wSync wRec = (Inr \<lparr>dAdded = 1, dRemoved = 0\<rparr>, t) \<and> (case wSync t of
      (Inr d', u) \<Rightarrow> d' = \<lparr>dAdded = 0, dRemoved = 0\<rparr> \<and> kvRows (rcKv u) = kvRows (rcKv t)
    | (Inl e, u) \<Rightarrow> (e = Cancelled \<or> e = KVErr) \<and> kvRows (rcKv u) = kvRows (rcKv t))"
proof -
  obtain t where t: "wSync wRec = (Inr \<lparr>dAdded = 1, dRemoved = 0\<rparr>, t)" using wSync_run by blast
  have "kvInv wK wRec" using wGc_ok(1) by (simp add: wGc_def)
  from reconcile_settles [OF this _ t] t show ?thesis by (simp add: wDesired_def)
qed

text \<open>C22: Through any sequence of requests, failed ones included, the key-value store represents a catalog map and a pin table: \<open>ListAll\<close> lists exactly the pins of a head in key order and \<open>ResolveBlob\<close> gives the last CID put under a hash; they fail only if the store or the context does or the name is invalid.\<close>

theorem catalog_refines:
  assumes "cidLib_ok K" "kvRows s = []" "kvRun K as s = (acc, t)"
  shows "(case ListAll K h t of
      (Inr es, u) \<Rightarrow> sorted_wrt (<) (map (pinKeyOf K h) es) \<and> kvRows u = kvRows t \<and> (\<forall>e\<in>set es. peCID e \<noteq> None) \<and>
        (\<forall>p c r x. \<lparr>pePurpose = p, peCID = Some c, peRecursive = r, peExpiry = x\<rparr> \<in> set es \<longleftrightarrow> fold actLedger acc Map.empty (h, p, c) = Some (r, x))
    | (Inl e, u) \<Rightarrow> (e = Cancelled \<or> e = KVErr \<or> h = [] \<or> 0 \<in> set (strBytes h)) \<and> kvRows u = kvRows t) \<and>
    (case ResolveBlob K vh t of
      (Inr (c, ok), u) \<Rightarrow> c = fold actCatalog acc Map.empty vh \<and> ok = (c \<noteq> None) \<and> kvRows u = kvRows t
    | (Inl e, u) \<Rightarrow> (e = Cancelled \<or> e = KVErr) \<and> kvRows u = kvRows t)"
proof -
  have wf: "kvWf K s" and empty: "ledgerOf K s = Map.empty" "catalogOf K s = Map.empty"
    using assms(2) by (auto simp: kvWf_def kvSorted_def ledgerOf_def catalogOf_def fun_eq_iff)
  note sp = kvRun_spec [OF assms(1) wf assms(3), unfolded empty]
  note l = ListAll_spec [OF assms(1) conjunct1 [OF sp], of h] and r = ResolveBlob_spec [OF assms(1) conjunct1 [OF sp], of vh]
  have "case ListAll K h t of
      (Inr es, u) \<Rightarrow> sorted_wrt (<) (map (pinKeyOf K h) es) \<and> kvRows u = kvRows t \<and> (\<forall>e\<in>set es. peCID e \<noteq> None) \<and>
        (\<forall>p c r x. \<lparr>pePurpose = p, peCID = Some c, peRecursive = r, peExpiry = x\<rparr> \<in> set es \<longleftrightarrow> fold actLedger acc Map.empty (h, p, c) = Some (r, x))
    | (Inl e, u) \<Rightarrow> (e = Cancelled \<or> e = KVErr \<or> h = [] \<or> 0 \<in> set (strBytes h)) \<and> kvRows u = kvRows t"
    using l sp by (cases "ListAll K h t"; cases "fst (ListAll K h t)") (auto simp: listsPins_def sameRows_def validName_def)
  moreover have "case ResolveBlob K vh t of
      (Inr (c, ok), u) \<Rightarrow> c = fold actCatalog acc Map.empty vh \<and> ok = (c \<noteq> None) \<and> kvRows u = kvRows t
    | (Inl e, u) \<Rightarrow> (e = Cancelled \<or> e = KVErr) \<and> kvRows u = kvRows t"
    using r sp by (cases "ResolveBlob K vh t"; cases "fst (ResolveBlob K vh t)") (auto simp: sameRows_def)
  ultimately show ?thesis by blast
qed

theorem catalog_refines_witness:
  "(case ListAll wK StagingHead wDb of
      (Inr es, u) \<Rightarrow> sorted_wrt (<) (map (pinKeyOf wK StagingHead) es) \<and> kvRows u = kvRows wDb \<and> (\<forall>e\<in>set es. peCID e \<noteq> None) \<and>
        (\<forall>p c r x. \<lparr>pePurpose = p, peCID = Some c, peRecursive = r, peExpiry = x\<rparr> \<in> set es \<longleftrightarrow> fold actLedger wAccepted Map.empty (StagingHead, p, c) = Some (r, x))
    | (Inl e, u) \<Rightarrow> (e = Cancelled \<or> e = KVErr \<or> StagingHead = [] \<or> 0 \<in> set (strBytes StagingHead)) \<and> kvRows u = kvRows wDb) \<and>
    (case ResolveBlob wK 7 wDb of
      (Inr (c, ok), u) \<Rightarrow> c = fold actCatalog wAccepted Map.empty 7 \<and> ok = (c \<noteq> None) \<and> kvRows u = kvRows wDb
    | (Inl e, u) \<Rightarrow> (e = Cancelled \<or> e = KVErr) \<and> kvRows u = kvRows wDb)"
  by (rule catalog_refines [OF wK_ok, where s = "\<lparr>kvRows = [], kvFaults = []\<rparr>" and as = wActs]) (simp_all add: wDb_def wAccepted_def)

text \<open>C39: A scan from a prefix up to its \<open>keyUpperBound\<close> returns exactly the rows whose key starts with the prefix, for every prefix, all-0xFF ones included.\<close>

theorem prefix_scan_exact:
  "kvIter pre (keyUpperBound pre) (s\<lparr>kvFaults := []\<rparr>) = (Inr (filter (\<lambda>r. take (length pre) (fst r) = pre) (kvRows s)), s\<lparr>kvFaults := []\<rparr>)"
proof -
  have "inRange pre (keyUpperBound pre) k \<longleftrightarrow> take (length pre) k = pre" for k
    unfolding inRange_prefix by (metis append_eq_conv_conj append_take_drop_id)
  then show ?thesis by (simp add: kvIter_def faultOr_def bind_def)
qed

text \<open>C40: Decoding an encoded ledger value gives the flag and the expiry back, the expiry rounded down to the second.\<close>

theorem pin_value_roundtrip:
  assumes "- (2 ^ 63) \<le> Unix expiry" "Unix expiry < 2 ^ 63"
  shows "decodePinValue (encodePinValue recursive expiry) = Inr (recursive, expiry div 1000000000 * 1000000000)"
  using decode_encode [of recursive expiry] storedTime_exact [OF assms] by (simp add: Unix_def)

theorem pin_value_roundtrip_witness:
  "decodePinValue (encodePinValue True 9000000001) = Inr (True, 9000000000)"
  using pin_value_roundtrip [of 9000000001 True] by (simp add: Unix_def)

text \<open>C12: A block that the application read successfully or wrote during an epoch, and that is stored, stays stored through every later sequence of candidate deletions, epoch attempts and application operations until the epoch ends or the application deletes it.\<close>

theorem touched_block_survives:
  assumes "epInv K s" "epActive s = Some a" "k \<in> touchedAlong L K s ls" "contents (epBase (foldl (epDo L K) s ls)) k \<noteq> None"
    and "\<forall>l\<in>set (ls @ ls'). \<not> endsEpoch a l" "\<forall>l\<in>set ls'. \<not> deletesKey k l"
  shows "contents (epBase (foldl (epDo L K) s (ls @ ls'))) k \<noteq> None"
proof -
  let ?t = "foldl (epDo L K) s ls"
  have t: "epInv K ?t" "epActive ?t = Some a" "keysAt ?t a = touchedAlong L K s ls \<union> keysAt s a"
    using run_protects [OF assms(1,2), of ls L] assms(5) by auto
  have "contents (epBase (foldl (epDo L K) ?t ls')) k \<noteq> None"
    by (rule run_contents [OF t(1,2) _ assms(4)]) (use t(3) assms(3,5,6) in auto)
  then show ?thesis by simp
qed

theorem touched_block_survives_witness:
  "contents (epBase (foldl (epDo wLib wK) wBegun ([SApp (AGet wBlob)] @ [SDelete \<lparr>beState = 0, beEnded = False, beEndCount = 0\<rparr> wBlob]))) (cidHash wBlob) \<noteq> None"
proof (rule touched_block_survives)
  show "epInv wK wBegun" using epDo_inv [OF wGc_ok(2), of wLib SBegin] by (simp add: wGc_def wBegun_def)
  show "epActive wBegun = Some 0" by (simp add: wStore_defs)
  have g: "validatingGet wLib (epBase wBegun) wBlob = Inr NNull"
    by (simp add: wBegun_def Begin_def NewBlockstoreEpochs_def Let_def wPile_def validatingGet_def baseGet_def wLib_def wBlob_def prefixSum_def cidPrefix_def
      bindE_def cidHash_def wTop_def wJunk_def wNode_def)
  then show "cidHash wBlob \<in> touchedAlong wLib wK wBegun [SApp (AGet wBlob)]" by simp
  show "contents (epBase (foldl (epDo wLib wK) wBegun [SApp (AGet wBlob)])) (cidHash wBlob) \<noteq> None"
    using g validatingGet_stored [OF g] by (simp add: appGet_def withKey_def multihashKey_def)
qed simp_all

text \<open>C23: An epoch records exactly the keys that the application touched since it began: \<open>Protected\<close> is their number, a candidate deletion refuses exactly these, and the identity of the epoch is the new, non-zero collection generation.\<close>

theorem epoch_record_exact:
  assumes "epInv K s" "Begin s = (Inr e, s')" "\<forall>l\<in>set ls. \<not> endsEpoch (beState e) l"
  shows "let t = foldl (epDo L K) s' ls; T = touchedAlong L K s' ls in
    Protected e t = int (card T) \<and> ActiveEpoch t = CollectionGeneration t \<and> ActiveEpoch t \<noteq> 0 \<and> CollectionGeneration t \<noteq> CollectionGeneration s \<and>
    DeleteCandidate K e c t = (if cidHash c \<in> T then (Inr (False, True), t)
      else case baseDelete (epBase t) c of (Inl err, bs) \<Rightarrow> (Inl err, t\<lparr>epBase := bs\<rparr>) | (Inr _, bs) \<Rightarrow> (Inr (True, False), t\<lparr>epBase := bs\<rparr>))"
proof -
  have none: "epActive s = None" using assms(2) Begin_spec(1) [of s] by (cases "epActive s") auto
  from Begin_spec(2) [OF none] obtain id where id: "id \<noteq> epNextID s" and e: "beState e = length (epStates s)"
    and s': "s' = s\<lparr>epNextID := id, epStates := epStates s @ [\<lparr>esId = id, esShards = (\<lambda>_. {}), esProtected = 0\<rparr>], epActive := Some (length (epStates s))\<rparr>"
    using assms(2) by auto
  have inv: "epInv K s'" using epDo_inv [OF assms(1), of L SBegin] assms(2) by simp
  let ?t = "foldl (epDo L K) s' ls" and ?a = "length (epStates s)" and ?T = "touchedAlong L K s' ls"
  have act: "epActive s' = Some ?a" and fresh: "keysAt s' ?a = {}" by (simp_all add: s' keysAt_def touchedKeys_def)
  have ls: "\<forall>l\<in>set ls. \<not> endsEpoch ?a l" using assms(3) e by simp
  have t: "epInv K ?t" "epActive ?t = Some ?a" "keysAt ?t ?a = ?T" using run_protects [OF inv act ls, of L] fresh by auto
  have st: "stateInv K (epStates ?t ! ?a)" "esId (epStates ?t ! ?a) = epNextID ?t" "epNextID ?t \<noteq> 0" using t(1,2) by (simp_all add: epInv_def)
  have gen: "epNextID ?t = id" using run_nextID [OF inv act ls] by (simp add: s')
  have "Protected e ?t = int (card ?T)" using st(1) t(3) by (simp add: Protected_def e stateInv_def keysAt_def)
  moreover have "DeleteCandidate K e c ?t = (if cidHash c \<in> ?T then (Inr (False, True), ?t)
      else case baseDelete (epBase ?t) c of (Inl err, bs) \<Rightarrow> (Inl err, ?t\<lparr>epBase := bs\<rparr>) | (Inr _, bs) \<Rightarrow> (Inr (True, False), ?t\<lparr>epBase := bs\<rparr>))"
    using t(2,3) stateInv_mem [OF st(1)] by (simp add: DeleteCandidate_def e Let_def multihashKey_def keysAt_def)
  ultimately show ?thesis using st t(2) gen id by (simp add: Let_def ActiveEpoch_def CollectionGeneration_def)
qed

theorem epoch_record_exact_witness:
  "let t = foldl (epDo wLib wK) wBegun [SApp (AHas wTop)]; T = touchedAlong wLib wK wBegun [SApp (AHas wTop)] in
    Protected \<lparr>beState = 0, beEnded = False, beEndCount = 0\<rparr> t = int (card T) \<and> ActiveEpoch t = CollectionGeneration t \<and> ActiveEpoch t \<noteq> 0 \<and>
    CollectionGeneration t \<noteq> CollectionGeneration (NewBlockstoreEpochs wPile) \<and>
    DeleteCandidate wK \<lparr>beState = 0, beEnded = False, beEndCount = 0\<rparr> wJunk t = (if cidHash wJunk \<in> T then (Inr (False, True), t)
      else case baseDelete (epBase t) wJunk of (Inl err, bs) \<Rightarrow> (Inl err, t\<lparr>epBase := bs\<rparr>) | (Inr _, bs) \<Rightarrow> (Inr (True, False), t\<lparr>epBase := bs\<rparr>))"
  by (rule epoch_record_exact [OF _ wBegin]) (use wGc_ok(2) in \<open>simp_all add: wGc_def\<close>)

end
